(* ===== verification/Prelude.thy ===== *)
theory Prelude
  imports Complex_Main "HOL-Library.AList" "HOL-Library.Multiset"
begin

text \<open>
  Shared vocabulary of the development: fallible results, saturating \<open>usize\<close>
  arithmetic, sorting and maximum selection by an explicit comparison, and the
  binary heap of the Rust standard library.

  \<^item> \<open>Result<T, E>\<close> is the sum \<open>'e + 'a\<close>, with \<open>Inl\<close> for the error.
  \<^item> \<open>sort_unstable_by\<close> and \<open>BinaryHeap\<close> take the comparison as an argument, as
    the code does. Two elements that compare equal may come out in either order in
    Rust; the lemmas that pin the result down assume that the comparison separates
    the elements at hand (locale \<open>linear_rank\<close>).
\<close>

named_theorems rank_simps "unfolding rules for the comparison functions of the code"

named_theorems usize_simps "unfolding rules for saturating machine arithmetic"

section \<open>Machine sizes\<close>

text \<open>\<open>usize\<close> on a 64-bit target; saturating operations stop at the bounds.\<close>

definition usize_max :: nat where
  "usize_max = 2 ^ 64 - 1"

definition saturating_mul :: "nat \<Rightarrow> nat \<Rightarrow> nat" where
  "saturating_mul a b = min (a * b) usize_max"

definition saturating_add :: "nat \<Rightarrow> nat \<Rightarrow> nat" where
  "saturating_add a b = min (a + b) usize_max"

definition saturating_sub :: "nat \<Rightarrow> nat \<Rightarrow> nat" where
  "saturating_sub a b = a - b"

lemmas [usize_simps] =
  saturating_mul_def saturating_add_def saturating_sub_def usize_max_def

lemma saturating_code [code]:
  "saturating_mul a b = (if int a * int b \<le> 18446744073709551615 then a * b else nat 18446744073709551615)"
  "saturating_add a b = (if int a + int b \<le> 18446744073709551615 then a + b else nat 18446744073709551615)"
proof -
  have "int n \<le> 18446744073709551615 \<longleftrightarrow> n \<le> usize_max" for n
    unfolding usize_max_def by (auto simp: nat_le_iff [symmetric])
  from this [of "a * b"] this [of "a + b"]
  show "saturating_mul a b = (if int a * int b \<le> 18446744073709551615 then a * b else nat 18446744073709551615)"
  "saturating_add a b = (if int a + int b \<le> 18446744073709551615 then a + b else nat 18446744073709551615)"
    by (simp_all add: saturating_mul_def saturating_add_def min_def usize_max_def)
qed

section \<open>Fallible results\<close>

definition rbind :: "'e + 'a \<Rightarrow> ('a \<Rightarrow> 'e + 'b) \<Rightarrow> 'e + 'b" where
  "rbind r f = (case r of Inl e \<Rightarrow> Inl e | Inr x \<Rightarrow> f x)"

lemma rbind_simps [simp]:
  "rbind (Inl e) f = Inl e"
  "rbind (Inr x) f = f x"
  by (simp_all add: rbind_def)

lemma rbind_eq_Inr: "rbind r f = Inr y \<longleftrightarrow> (\<exists>x. r = Inr x \<and> f x = Inr y)"
  by (cases r) simp_all

section \<open>Sorting and maxima by an explicit comparison\<close>

fun insert_by :: "('a \<Rightarrow> 'a \<Rightarrow> bool) \<Rightarrow> 'a \<Rightarrow> 'a list \<Rightarrow> 'a list" where
  "insert_by le x [] = [x]"
| "insert_by le x (y # ys) = (if le x y then x # y # ys else y # insert_by le x ys)"

definition sort_by :: "('a \<Rightarrow> 'a \<Rightarrow> bool) \<Rightarrow> 'a list \<Rightarrow> 'a list" where
  "sort_by le xs = foldr (insert_by le) xs []"

text \<open>\<open>select_max\<close> is the greatest element of a comparison; \<open>heap_pop\<close> removes it.\<close>

fun select_max :: "('a \<Rightarrow> 'a \<Rightarrow> bool) \<Rightarrow> 'a list \<Rightarrow> 'a option" where
  "select_max le [] = None"
| "select_max le (x # xs) =
     (case select_max le xs of None \<Rightarrow> Some x | Some m \<Rightarrow> if le x m then Some m else Some x)"

definition heap_pop :: "('a \<Rightarrow> 'a \<Rightarrow> bool) \<Rightarrow> 'a list \<Rightarrow> ('a \<times> 'a list) option" where
  "heap_pop le h = (case select_max le h of None \<Rightarrow> None | Some m \<Rightarrow> Some (m, remove1 m h))"

definition heap_push :: "'a \<Rightarrow> 'a list \<Rightarrow> 'a list" where
  "heap_push x h = x # h"

text \<open>
  \<open>Iterator::min_by\<close> keeps the first of equal minima; \<open>swap_remove\<close> fills the hole
  with the last element.
\<close>

fun min_index_by :: "('a \<Rightarrow> 'a \<Rightarrow> bool) \<Rightarrow> 'a list \<Rightarrow> nat option" where
  "min_index_by le [] = None"
| "min_index_by le (x # xs) =
     (case min_index_by le xs of None \<Rightarrow> Some 0
      | Some j \<Rightarrow> if le x (xs ! j) then Some 0 else Some (Suc j))"

definition swap_remove :: "nat \<Rightarrow> 'a list \<Rightarrow> 'a list" where
  "swap_remove i xs = (if Suc i = length xs then butlast xs else (butlast xs)[i := last xs])"

lemma mset_insert_by [simp]: "mset (insert_by le x xs) = add_mset x (mset xs)"
  by (induction xs) auto

lemma set_insert_by [simp]: "set (insert_by le x xs) = insert x (set xs)"
  by (induction xs) auto

lemma mset_sort_by [simp]: "mset (sort_by le xs) = mset xs"
  by (induction xs) (auto simp: sort_by_def)

lemma set_sort_by [simp]: "set (sort_by le xs) = set xs"
  by (metis mset_sort_by set_mset_mset)

lemma length_sort_by [simp]: "length (sort_by le xs) = length xs"
  by (metis mset_sort_by size_mset)

lemma sort_by_simps [simp]:
  "sort_by le [] = []"
  "sort_by le (x # xs) = insert_by le x (sort_by le xs)"
  by (simp_all add: sort_by_def)

lemma distinct_sort_by [simp]: "distinct (sort_by le xs) = distinct xs"
  by (metis mset_sort_by mset_eq_imp_distinct_iff)

lemma select_max_None [simp]: "select_max le xs = None \<longleftrightarrow> xs = []"
  by (cases xs) (auto split: option.splits)

lemma select_max_in: "select_max le xs = Some m \<Longrightarrow> m \<in> set xs"
  by (induction xs arbitrary: m) (auto split: option.splits if_splits)

lemma min_index_by_None [simp]: "min_index_by le xs = None \<longleftrightarrow> xs = []"
  by (cases xs) (auto split: option.splits)

lemma min_index_by_less: "min_index_by le xs = Some i \<Longrightarrow> i < length xs"
  by (induction xs arbitrary: i) (auto split: option.splits if_splits)

lemma mset_swap_remove:
  assumes "i < length xs"
  shows "add_mset (xs ! i) (mset (swap_remove i xs)) = mset xs"
proof -
  obtain ys y where xs: "xs = ys @ [y]" using assms by (cases xs rule: rev_cases) auto
  show ?thesis
  proof (cases "i = length ys")
    case True
    then show ?thesis by (simp add: xs swap_remove_def)
  next
    case False
    with assms have i: "i < length ys" by (simp add: xs)
    then have "mset (ys[i := y]) = add_mset y (mset ys - {#ys ! i#})"
      by (simp add: mset_update)
    moreover have "ys ! i \<in># mset ys" using i by simp
    ultimately show ?thesis using i
      by (simp add: xs swap_remove_def nth_append)
  qed
qed

lemma heap_pop_None [simp]: "heap_pop le h = None \<longleftrightarrow> h = []"
  by (auto simp: heap_pop_def split: option.splits)

lemma heap_pop_mset: "heap_pop le h = Some (m, h') \<Longrightarrow> mset h = add_mset m (mset h')"
  by (auto simp: heap_pop_def dest: select_max_in split: option.splits)

lemma heap_pop_in: "heap_pop le h = Some (m, h') \<Longrightarrow> m \<in> set h"
  by (auto simp: heap_pop_def dest: select_max_in split: option.splits)

lemma heap_pop_set: "heap_pop le h = Some (m, h') \<Longrightarrow> set h = insert m (set h')"
  by (metis heap_pop_mset set_mset_mset set_mset_add_mset_insert)

lemma heap_pop_length: "heap_pop le h = Some (m, h') \<Longrightarrow> length h = Suc (length h')"
  by (metis heap_pop_mset size_mset size_add_mset)

lemma heap_push_set [simp]: "set (heap_push x h) = insert x (set h)"
  by (simp add: heap_push_def)

lemma heap_push_mset [simp]: "mset (heap_push x h) = add_mset x (mset h)"
  by (simp add: heap_push_def)

section \<open>Comparison contracts\<close>

text \<open>
  What \<open>sort_unstable_by\<close>, \<open>max_by\<close> and \<open>BinaryHeap\<close> need of the comparison
  they are given: \<open>Ord\<close> promises a total preorder. \<open>linear_rank\<close> adds that
  only equal elements compare equal, which makes the sorted order unique.
\<close>

locale total_rank =
  fixes le :: "'a \<Rightarrow> 'a \<Rightarrow> bool"
  assumes rank_total: "le x y \<or> le y x"
    and rank_trans: "le x y \<Longrightarrow> le y z \<Longrightarrow> le x z"
begin

lemma rank_refl: "le x x"
  using rank_total by blast

lemma sorted_insert_by: "sorted_wrt le xs \<Longrightarrow> sorted_wrt le (insert_by le x xs)"
proof (induction xs)
  case Nil
  then show ?case by simp
next
  case (Cons y ys)
  then show ?case using rank_total [of x y] by (auto intro: rank_trans)
qed

lemma sorted_sort_by: "sorted_wrt le (sort_by le xs)"
  by (induction xs) (auto intro: sorted_insert_by)

lemma select_max_ge: "select_max le xs = Some m \<Longrightarrow> \<forall>x\<in>set xs. le x m"
proof (induction xs arbitrary: m)
  case Nil
  then show ?case by simp
next
  case (Cons y ys)
  show ?case
  proof (cases "select_max le ys")
    case None
    with Cons.prems show ?thesis by (auto intro: rank_refl)
  next
    case (Some k)
    with Cons.IH have "\<forall>z\<in>set ys. le z k" by blast
    with Some Cons.prems show ?thesis
      using rank_total [of y k] by (auto split: if_splits intro: rank_refl rank_trans)
  qed
qed

lemma min_index_by_le:
  "min_index_by le xs = Some i \<Longrightarrow> \<forall>x\<in>set xs. le (xs ! i) x"
proof (induction xs arbitrary: i)
  case Nil
  then show ?case by simp
next
  case (Cons y ys)
  show ?case
  proof (cases "min_index_by le ys")
    case None
    with Cons.prems show ?thesis by (auto intro: rank_refl)
  next
    case (Some j)
    with Cons.IH have "\<forall>x\<in>set ys. le (ys ! j) x" by blast
    with Some Cons.prems show ?thesis
      using rank_total [of y "ys ! j"] by (auto split: if_splits intro: rank_refl rank_trans)
  qed
qed

lemma heap_pop_ge: "heap_pop le h = Some (m, h') \<Longrightarrow> x \<in> set h \<Longrightarrow> le x m"
  by (auto simp: heap_pop_def split: option.splits dest: select_max_ge)

end

locale linear_rank = total_rank +
  assumes rank_antisym: "le x y \<Longrightarrow> le y x \<Longrightarrow> x = y"
begin

lemma sorted_unique:
  "sorted_wrt le xs \<Longrightarrow> sorted_wrt le ys \<Longrightarrow> mset xs = mset ys \<Longrightarrow> xs = ys"
proof (induction xs arbitrary: ys)
  case Nil
  then show ?case by simp
next
  case (Cons x xs)
  then obtain y ys' where ys: "ys = y # ys'" by (cases ys) auto
  from Cons.prems ys have sets: "insert x (set xs) = insert y (set ys')"
    by (metis set_mset_mset mset.simps(2) set_mset_add_mset_insert)
  have "x = y"
  proof (rule ccontr)
    assume "x \<noteq> y"
    with sets have "x \<in> set ys'" "y \<in> set xs" by auto
    with Cons.prems ys have "le y x" "le x y" by auto
    with \<open>x \<noteq> y\<close> show False using rank_antisym by blast
  qed
  with Cons.prems ys have "xs = ys'" by (intro Cons.IH) auto
  with \<open>x = y\<close> ys show ?case by simp
qed

lemma sort_by_sorted: "sorted_wrt le xs \<Longrightarrow> sort_by le xs = xs"
  by (rule sorted_unique) (auto intro: sorted_sort_by)

lemma sort_by_prefix:
  assumes "sorted_wrt le (xs @ ys)" "mset (xs @ ys) = mset zs"
  shows "take (length xs) (sort_by le zs) = xs"
proof -
  have "sort_by le zs = xs @ ys"
    using assms by (intro sorted_unique) (auto intro: sorted_sort_by)
  then show ?thesis by simp
qed

lemma sort_by_mset: "mset xs = mset ys \<Longrightarrow> sort_by le xs = sort_by le ys"
  by (rule sorted_unique) (auto intro: sorted_sort_by)

end

section \<open>Lists indexed by a source\<close>

lemma take_prefix_sorted_wrt:
  "sorted_wrt P (xs @ ys) \<Longrightarrow> sorted_wrt P xs \<and> sorted_wrt P ys \<and> (\<forall>x\<in>set xs. \<forall>y\<in>set ys. P x y)"
  by (simp add: sorted_wrt_append)

lemma all_nth_iff: "(\<forall>x\<in>set xs. P x) \<longleftrightarrow> (\<forall>i<length xs. P (xs ! i))"
  by (metis in_set_conv_nth)

lemma sum_list_update_Suc:
  "i < length xs \<Longrightarrow> xs ! i = Suc n \<Longrightarrow> sum_list xs = Suc (sum_list (xs[i := n]))" for xs :: "nat list"
proof (induction xs arbitrary: i)
  case Nil
  then show ?case by simp
next
  case (Cons x xs)
  then show ?case by (cases i) auto
qed

end
