(* ===== verification/Float_Model.thy ===== *)
theory Float_Model
  imports Prelude "HOL-Library.Log_Nat"
begin

text \<open>
  The IEEE-754 arithmetic of the Rust types \<open>f32\<close> and \<open>f64\<close>: rationals and the
  special values, with every operation rounded to nearest, ties to even, in the
  given format. One value type serves both formats; \<open>f64::from\<close> on an
  \<open>f32\<close> is the identity. The two zeros are one value here: no operation of the
  modelled code tells them apart (comparisons treat them as equal, and the only
  division has a denominator that is never a negative zero).

  The linear order of the type is the one of \<open>OrderedFloat\<close>: NaN is equal to
  itself and above everything else. The IEEE comparisons, false on NaN, are
  \<open>f_lt\<close>, \<open>f_le\<close> and \<open>f_eq\<close>.

  Shown here: rounding is monotone and exact on representable values; on
  non-negative values rounded addition is monotone and never NaN.
\<close>

section \<open>Values and their orders\<close>

datatype flt = Fin rat | PInf | NInf | NaN

fun ordered_float_le :: "flt \<Rightarrow> flt \<Rightarrow> bool" where
  "ordered_float_le _ NaN = True"
| "ordered_float_le NaN _ = False"
| "ordered_float_le _ PInf = True"
| "ordered_float_le PInf _ = False"
| "ordered_float_le NInf _ = True"
| "ordered_float_le _ NInf = False"
| "ordered_float_le (Fin a) (Fin b) = (a \<le> b)"

instantiation flt :: linorder
begin

definition less_eq_flt :: "flt \<Rightarrow> flt \<Rightarrow> bool" where
  "less_eq_flt a b = ordered_float_le a b"

definition less_flt :: "flt \<Rightarrow> flt \<Rightarrow> bool" where
  "less_flt a b = (\<not> ordered_float_le b a)"

instance
proof
  fix x y z :: flt
  show "x < y \<longleftrightarrow> x \<le> y \<and> \<not> y \<le> x"
    by (cases x; cases y) (auto simp: less_eq_flt_def less_flt_def)
  show "x \<le> x"
    by (cases x) (auto simp: less_eq_flt_def)
  show "x \<le> y \<Longrightarrow> y \<le> z \<Longrightarrow> x \<le> z"
    by (cases x; cases y; cases z) (auto simp: less_eq_flt_def)
  show "x \<le> y \<Longrightarrow> y \<le> x \<Longrightarrow> x = y"
    by (cases x; cases y) (auto simp: less_eq_flt_def)
  show "x \<le> y \<or> y \<le> x"
    by (cases x; cases y) (auto simp: less_eq_flt_def)
qed

end

lemma flt_le_simps [simp]:
  "Fin a \<le> Fin b \<longleftrightarrow> a \<le> b" "Fin a < Fin b \<longleftrightarrow> a < b"
  "x \<le> NaN" "NaN \<le> x \<longleftrightarrow> x = NaN"
  "Fin a \<le> PInf" "Fin a < PInf" "NInf \<le> x" "\<not> PInf \<le> Fin a" "\<not> PInf < Fin a"
  "\<not> Fin a \<le> NInf" "x \<le> NInf \<longleftrightarrow> x = NInf" "PInf \<le> x \<longleftrightarrow> x = PInf \<or> x = NaN"
  "PInf < NaN" "Fin a < NaN" "NInf < Fin a" "\<not> NaN < x" "\<not> x < NInf"
  by (cases x; auto simp: less_eq_flt_def less_flt_def)+

definition f_lt :: "flt \<Rightarrow> flt \<Rightarrow> bool" where
  "f_lt a b = (a \<noteq> NaN \<and> b \<noteq> NaN \<and> a < b)"

definition f_le :: "flt \<Rightarrow> flt \<Rightarrow> bool" where
  "f_le a b = (a \<noteq> NaN \<and> b \<noteq> NaN \<and> a \<le> b)"

definition f_eq :: "flt \<Rightarrow> flt \<Rightarrow> bool" where
  "f_eq a b = (a \<noteq> NaN \<and> b \<noteq> NaN \<and> a = b)"

fun is_finite :: "flt \<Rightarrow> bool" where
  "is_finite (Fin _) = True"
| "is_finite _ = False"

definition f_max :: "flt \<Rightarrow> flt \<Rightarrow> flt" where
  "f_max a b = (if a = NaN then b else if b = NaN then a else max a b)"

section \<open>Rounding\<close>

record float_format =
  precision :: nat
  min_exp :: int
  max_exp :: int

definition F32 :: float_format where
  "F32 = \<lparr>precision = 24, min_exp = -149, max_exp = 128\<rparr>"

definition F64 :: float_format where
  "F64 = \<lparr>precision = 53, min_exp = -1074, max_exp = 1024\<rparr>"

text \<open>The exponent of a positive rational: \<open>2 powi ilog2 x \<le> x < 2 powi (ilog2 x + 1)\<close>.\<close>

definition ilog2 :: "rat \<Rightarrow> int" where
  "ilog2 x = (let (a, b) = quotient_of x; e = bitlen a - bitlen b
              in if 2 powi e \<le> x then e else e - 1)"

text \<open>Round half to even.\<close>

definition rne :: "rat \<Rightarrow> int" where
  "rne x = (let f = \<lfloor>x\<rfloor>; d = x - of_int f
            in if d < 1 / 2 then f else if 1 / 2 < d then f + 1 else if even f then f else f + 1)"

definition quantum :: "float_format \<Rightarrow> rat \<Rightarrow> int" where
  "quantum fm x = max (ilog2 \<bar>x\<bar> - (int (precision fm) - 1)) (min_exp fm)"

definition round_val :: "float_format \<Rightarrow> rat \<Rightarrow> rat" where
  "round_val fm x = (if x = 0 then 0
     else of_int (rne (x / 2 powi quantum fm x)) * 2 powi quantum fm x)"

definition round_to :: "float_format \<Rightarrow> rat \<Rightarrow> flt" where
  "round_to fm x = (let r = round_val fm x
     in if 2 powi max_exp fm \<le> r then PInf else if r \<le> - (2 powi max_exp fm) then NInf else Fin r)"

section \<open>Arithmetic\<close>

fun f_neg :: "flt \<Rightarrow> flt" where
  "f_neg (Fin a) = Fin (- a)"
| "f_neg PInf = NInf"
| "f_neg NInf = PInf"
| "f_neg NaN = NaN"

fun f_add :: "float_format \<Rightarrow> flt \<Rightarrow> flt \<Rightarrow> flt" where
  "f_add fm NaN _ = NaN"
| "f_add fm _ NaN = NaN"
| "f_add fm PInf NInf = NaN"
| "f_add fm NInf PInf = NaN"
| "f_add fm PInf _ = PInf"
| "f_add fm _ PInf = PInf"
| "f_add fm NInf _ = NInf"
| "f_add fm _ NInf = NInf"
| "f_add fm (Fin a) (Fin b) = round_to fm (a + b)"

definition f_sub :: "float_format \<Rightarrow> flt \<Rightarrow> flt \<Rightarrow> flt" where
  "f_sub fm a b = f_add fm a (f_neg b)"

definition signed_inf :: "bool \<Rightarrow> flt" where
  "signed_inf pos = (if pos then PInf else NInf)"

fun f_mul :: "float_format \<Rightarrow> flt \<Rightarrow> flt \<Rightarrow> flt" where
  "f_mul fm NaN _ = NaN"
| "f_mul fm _ NaN = NaN"
| "f_mul fm (Fin a) (Fin b) = round_to fm (a * b)"
| "f_mul fm (Fin a) PInf = (if a = 0 then NaN else signed_inf (0 < a))"
| "f_mul fm (Fin a) NInf = (if a = 0 then NaN else signed_inf (a < 0))"
| "f_mul fm PInf (Fin b) = (if b = 0 then NaN else signed_inf (0 < b))"
| "f_mul fm NInf (Fin b) = (if b = 0 then NaN else signed_inf (b < 0))"
| "f_mul fm PInf PInf = PInf"
| "f_mul fm NInf NInf = PInf"
| "f_mul fm PInf NInf = NInf"
| "f_mul fm NInf PInf = NInf"

fun f_div :: "float_format \<Rightarrow> flt \<Rightarrow> flt \<Rightarrow> flt" where
  "f_div fm NaN _ = NaN"
| "f_div fm _ NaN = NaN"
| "f_div fm (Fin a) (Fin b) =
     (if b = 0 then (if a = 0 then NaN else signed_inf (0 < a)) else round_to fm (a / b))"
| "f_div fm (Fin a) _ = Fin 0"
| "f_div fm PInf (Fin b) = signed_inf (0 \<le> b)"
| "f_div fm NInf (Fin b) = signed_inf (b < 0)"
| "f_div fm _ _ = NaN"

text \<open>Casts from \<open>usize\<close> and the sum of an iterator.\<close>

definition f_of_nat :: "float_format \<Rightarrow> nat \<Rightarrow> flt" where
  "f_of_nat fm n = round_to fm (of_nat n)"

definition f_sum :: "float_format \<Rightarrow> flt list \<Rightarrow> flt" where
  "f_sum fm xs = foldl (f_add fm) (Fin 0) xs"

section \<open>Rounding is monotone and exact on representable values\<close>

lemma two_powi_pos [simp]: "0 < (2::rat) powi e"
  by simp

lemma two_powi_le_iff [simp]: "(2::rat) powi a \<le> 2 powi b \<longleftrightarrow> a \<le> b"
  by (meson linorder_not_le one_less_numeral_iff power_int_increasing power_int_strict_increasing
      semiring_norm(76) less_imp_le)

lemma two_powi_int: "0 \<le> e \<Longrightarrow> (2::rat) powi e = of_int (2 ^ nat e)"
  by (simp add: power_int_def)

lemma two_powi_split: "(2::rat) powi (a - b) = 2 powi a / 2 powi b"
  by (simp add: power_int_diff)

lemma ilog2_bounds:
  assumes "0 < x"
  shows "2 powi ilog2 x \<le> x \<and> x < 2 powi (ilog2 x + 1)"
proof -
  obtain a b where q: "quotient_of x = (a, b)" by force
  have b: "0 < b" by (rule quotient_of_denom_pos [OF q])
  have x: "x = of_int a / of_int b" by (rule quotient_of_div [OF q])
  have a: "0 < a"
    using assms b unfolding x by (simp add: zero_less_divide_iff)
  have la: "2 ^ nat (bitlen a - 1) \<le> a" "a < 2 ^ nat (bitlen a)" "1 \<le> bitlen a"
    using bitlen_bounds [OF a] a by (auto simp: bitlen_alt_def)
  have lb: "2 ^ nat (bitlen b - 1) \<le> b" "b < 2 ^ nat (bitlen b)" "1 \<le> bitlen b"
    using bitlen_bounds [OF b] b by (auto simp: bitlen_alt_def)
  have ra: "2 powi (bitlen a - 1) \<le> (of_int a :: rat)" "(of_int a :: rat) < 2 powi bitlen a"
    using la by (simp_all add: two_powi_int del: of_int_power)
  have rb: "2 powi (bitlen b - 1) \<le> (of_int b :: rat)" "(of_int b :: rat) < 2 powi bitlen b"
    using lb by (simp_all add: two_powi_int del: of_int_power)
  let ?e = "bitlen a - bitlen b"
  have pos: "(0::rat) < of_int b" using b by simp
  have "2 powi (?e - 1) * of_int b \<le> 2 powi (?e - 1) * (2 powi bitlen b :: rat)"
    by (rule mult_left_mono) (use rb in auto)
  also have "\<dots> = 2 powi (bitlen a - 1)"
    by (simp add: power_int_add [symmetric])
  finally have lo: "2 powi (?e - 1) \<le> x"
    using ra pos unfolding x by (simp add: pos_le_divide_eq)
  have "2 powi bitlen a = 2 powi (?e + 1) * (2 powi (bitlen b - 1) :: rat)"
    by (simp add: power_int_add [symmetric])
  also have "\<dots> \<le> 2 powi (?e + 1) * of_int b"
    by (rule mult_left_mono) (use rb in auto)
  finally have hi: "x < 2 powi (?e + 1)"
    using ra pos unfolding x by (simp add: pos_divide_less_eq)
  show ?thesis
    using lo hi by (auto simp: ilog2_def q Let_def)
qed

lemma ilog2_unique:
  assumes "2 powi e \<le> x" "x < 2 powi (e + 1)"
  shows "ilog2 x = e"
proof -
  have "0 < x" using assms(1) two_powi_pos [of e] by linarith
  then have "2 powi ilog2 x \<le> x" "x < 2 powi (ilog2 x + 1)"
    using ilog2_bounds by auto
  then have "2 powi e < (2::rat) powi (ilog2 x + 1)" "2 powi ilog2 x < (2::rat) powi (e + 1)"
    using assms by linarith+
  then have "\<not> ilog2 x + 1 \<le> e" "\<not> e + 1 \<le> ilog2 x"
    by (simp_all add: linorder_not_le flip: two_powi_le_iff)
  then show ?thesis by linarith
qed

lemma ilog2_mono: "0 < x \<Longrightarrow> x \<le> y \<Longrightarrow> ilog2 x \<le> ilog2 y"
proof (rule ccontr)
  assume xy: "0 < x" "x \<le> y" and "\<not> ilog2 x \<le> ilog2 y"
  then have "(2::rat) powi (ilog2 y + 1) \<le> 2 powi ilog2 x" by simp
  also have "\<dots> \<le> x" using xy ilog2_bounds by blast
  also have "\<dots> \<le> y" by (rule xy)
  also have "y < 2 powi (ilog2 y + 1)" using xy ilog2_bounds by auto
  finally show False by simp
qed

lemma rne_of_int [simp]: "rne (of_int k) = k"
  by (simp add: rne_def)

lemma rne_bounds: "\<lfloor>x\<rfloor> \<le> rne x \<and> rne x \<le> \<lfloor>x\<rfloor> + 1"
  by (auto simp: rne_def Let_def)

lemma rne_mono:
  assumes "x \<le> y"
  shows "rne x \<le> rne y"
proof (cases "\<lfloor>x\<rfloor> = \<lfloor>y\<rfloor>")
  case True
  with assms show ?thesis by (auto simp: rne_def Let_def)
next
  case False
  with assms have "\<lfloor>x\<rfloor> + 1 \<le> \<lfloor>y\<rfloor>"
    using floor_mono [OF assms] by linarith
  with rne_bounds [of x] rne_bounds [of y] show ?thesis by linarith
qed

lemma rne_minus: "rne (- x) = - rne x"
proof (cases "x \<in> \<int>")
  case True
  then obtain k where k: "x = of_int k" by (auto elim: Ints_cases)
  have "rne (of_int (- k)) = - k" by (rule rne_of_int)
  then show ?thesis by (simp add: k)
next
  case False
  then have "\<lfloor>- x\<rfloor> = - \<lfloor>x\<rfloor> - 1"
    by (metis ceiling_altdef ceiling_def floor_of_int minus_diff_eq Ints_of_int
        add.commute diff_conv_add_uminus minus_add_distrib minus_minus)
  then show ?thesis by (auto simp: rne_def Let_def)
qed

lemma rne_le_int: "x \<le> of_int k \<Longrightarrow> rne x \<le> k"
  using rne_mono [of x "of_int k"] by simp

lemma int_le_rne: "of_int k \<le> x \<Longrightarrow> k \<le> rne x"
  using rne_mono [of "of_int k" x] by simp

text \<open>Formats with at least one bit of precision.\<close>

definition wf_format :: "float_format \<Rightarrow> bool" where
  "wf_format fm \<longleftrightarrow> 1 \<le> precision fm \<and> min_exp fm \<le> 0 \<and> int (precision fm) \<le> max_exp fm"

lemma wf_F32 [simp]: "wf_format F32" and wf_F64 [simp]: "wf_format F64"
  by (simp_all add: wf_format_def F32_def F64_def)

lemma quantum_minus [simp]: "quantum fm (- x) = quantum fm x"
  by (simp add: quantum_def)

lemma round_val_minus: "round_val fm (- x) = - round_val fm x"
  by (simp add: round_val_def rne_minus)

lemma round_val_0 [simp]: "round_val fm 0 = 0"
  by (simp add: round_val_def)

lemma round_val_nonneg: "0 \<le> x \<Longrightarrow> 0 \<le> round_val fm x"
  by (auto simp: round_val_def intro!: mult_nonneg_nonneg int_le_rne)

lemma round_val_le_grid:
  assumes "x \<le> of_int k * 2 powi quantum fm x"
  shows "round_val fm x \<le> of_int k * 2 powi quantum fm x"
proof (cases "x = 0")
  case True
  with assms show ?thesis by simp
next
  case False
  from assms have "x / 2 powi quantum fm x \<le> of_int k"
    by (simp add: pos_divide_le_eq)
  then have "rne (x / 2 powi quantum fm x) \<le> k" by (rule rne_le_int)
  with False show ?thesis by (simp add: round_val_def)
qed

lemma round_val_ge_grid:
  assumes "of_int k * 2 powi quantum fm x \<le> x"
  shows "of_int k * 2 powi quantum fm x \<le> round_val fm x"
proof (cases "x = 0")
  case True
  with assms show ?thesis by simp
next
  case False
  from assms have "of_int k \<le> x / 2 powi quantum fm x"
    by (simp add: pos_le_divide_eq)
  then have "k \<le> rne (x / 2 powi quantum fm x)" by (rule int_le_rne)
  with False show ?thesis by (simp add: round_val_def)
qed

lemma round_val_mono_pos:
  assumes wf: "wf_format fm" and x: "0 < x" and xy: "x \<le> y"
  shows "round_val fm x \<le> round_val fm y"
proof (cases "quantum fm x = quantum fm y")
  case True
  have "rne (x / 2 powi quantum fm y) \<le> rne (y / 2 powi quantum fm y)"
    by (intro rne_mono divide_right_mono) (use xy in auto)
  with True x xy show ?thesis by (simp add: round_val_def)
next
  case False
  have y: "0 < y" using x xy by simp
  have le: "ilog2 x \<le> ilog2 y" using x xy by (rule ilog2_mono)
  with False x y have qy: "quantum fm y = ilog2 y - (int (precision fm) - 1)"
    and qxy: "quantum fm x < quantum fm y"
    by (auto simp: quantum_def max_def split: if_splits)
  have ey: "ilog2 x + 1 \<le> ilog2 y"
    using False le x y by (cases "ilog2 x = ilog2 y") (auto simp: quantum_def)
  let ?p = "(2::rat) powi ilog2 y"
  have p: "?p = of_int (2 ^ nat (ilog2 y - q)) * 2 powi q" if "q \<le> ilog2 y" for q
    using that by (simp add: two_powi_int [symmetric] power_int_add [symmetric] del: of_int_power)
  have pr: "1 \<le> precision fm" using wf by (simp add: wf_format_def)
  have "x < 2 powi (ilog2 x + 1)" using x ilog2_bounds by blast
  also have "\<dots> \<le> ?p" using ey by simp
  finally have "x \<le> ?p" by simp
  then have "round_val fm x \<le> ?p"
    using round_val_le_grid [of x "2 ^ nat (ilog2 y - quantum fm x)" fm] p [of "quantum fm x"]
      qxy qy pr by simp
  also have "?p \<le> round_val fm y"
    using round_val_ge_grid [of "2 ^ nat (ilog2 y - quantum fm y)" fm y] p [of "quantum fm y"]
      qy pr y ilog2_bounds [of y] by simp
  finally show ?thesis .
qed

lemma round_val_mono:
  assumes wf: "wf_format fm" and xy: "x \<le> y"
  shows "round_val fm x \<le> round_val fm y"
proof -
  consider "0 < x" | "y < 0" | "x \<le> 0" "0 \<le> y" by linarith
  then show ?thesis
  proof cases
    case 1
    with xy show ?thesis by (intro round_val_mono_pos [OF wf])
  next
    case 2
    with xy have "round_val fm (- y) \<le> round_val fm (- x)"
      by (intro round_val_mono_pos [OF wf]) auto
    then show ?thesis by (simp add: round_val_minus)
  next
    case 3
    have "0 \<le> round_val fm (- x)" "0 \<le> round_val fm y"
      using 3 by (auto intro: round_val_nonneg)
    then show ?thesis by (simp add: round_val_minus)
  qed
qed

text \<open>The numbers of a format: an integer of at most \<open>precision\<close> bits times a power of two.\<close>

definition representable :: "float_format \<Rightarrow> rat \<Rightarrow> bool" where
  "representable fm x \<longleftrightarrow> (\<exists>m q. x = of_int m * 2 powi q \<and> \<bar>m\<bar> \<le> 2 ^ precision fm \<and> min_exp fm \<le> q)"

lemma round_val_representable:
  assumes "wf_format fm"
  shows "representable fm (round_val fm x)"
proof (cases "x = 0")
  case True
  then show ?thesis
    by (auto simp: representable_def intro!: exI [of _ 0] exI [of _ "min_exp fm"])
next
  case False
  let ?q = "quantum fm x" and ?b = "2 ^ precision fm :: int"
  have "\<bar>x\<bar> < 2 powi (ilog2 \<bar>x\<bar> + 1)" using False ilog2_bounds [of "\<bar>x\<bar>"] by simp
  also have "(2::rat) powi (ilog2 \<bar>x\<bar> + 1) \<le> 2 powi (int (precision fm) + ?q)"
    by (simp add: quantum_def)
  also have "\<dots> = of_int ?b * 2 powi ?q"
    by (simp add: power_int_add)
  finally have "x \<le> of_int ?b * 2 powi ?q" "of_int (- ?b) * 2 powi ?q \<le> x"
    by (simp_all add: abs_less_iff)
  then have "x / 2 powi ?q \<le> of_int ?b" "of_int (- ?b) \<le> x / 2 powi ?q"
    by (simp_all add: pos_divide_le_eq pos_le_divide_eq)
  then have "rne (x / 2 powi ?q) \<le> ?b" "- ?b \<le> rne (x / 2 powi ?q)"
    by (auto intro: rne_le_int int_le_rne)
  then have "\<bar>rne (x / 2 powi ?q)\<bar> \<le> ?b" by linarith
  moreover have "min_exp fm \<le> ?q" by (simp add: quantum_def)
  ultimately show ?thesis using False
    by (auto simp: representable_def round_val_def)
qed


lemma round_val_exact:
  assumes wf: "wf_format fm" and rep: "representable fm x"
  shows "round_val fm x = x"
proof (cases "x = 0")
  case True
  then show ?thesis by simp
next
  case False
  let ?q = "quantum fm x"
  obtain m q where x: "x = of_int m * 2 powi q" and m: "\<bar>m\<bar> \<le> 2 ^ precision fm" and q: "min_exp fm \<le> q"
    using rep by (auto simp: representable_def)
  have "\<exists>k::int. x = of_int k * 2 powi ?q"
  proof (cases "?q \<le> q")
    case True
    then have "x = of_int (m * 2 ^ nat (q - ?q)) * 2 powi ?q"
      unfolding x by (simp add: two_powi_int [symmetric] power_int_add [symmetric] del: of_int_power)
    then show ?thesis by blast
  next
    case False
    with q have qe: "?q = ilog2 \<bar>x\<bar> - (int (precision fm) - 1)" by (auto simp: quantum_def max_def)
    have "2 powi ilog2 \<bar>x\<bar> \<le> \<bar>x\<bar>" using \<open>x \<noteq> 0\<close> ilog2_bounds [of "\<bar>x\<bar>"] by simp
    also have "\<bar>x\<bar> = of_int \<bar>m\<bar> * 2 powi q" unfolding x by (simp add: abs_mult)
    finally have "(2::rat) powi (ilog2 \<bar>x\<bar> - q) \<le> of_int \<bar>m\<bar>"
      by (simp add: two_powi_split pos_divide_le_eq)
    moreover have "(of_int \<bar>m\<bar> :: rat) \<le> of_int (2 ^ precision fm)" using m by (simp only: of_int_le_iff)
    ultimately have le: "(2::rat) powi (ilog2 \<bar>x\<bar> - q) \<le> 2 powi int (precision fm)" and
      ge: "(2::rat) powi (ilog2 \<bar>x\<bar> - q) \<le> of_int \<bar>m\<bar>" by auto
    from le have "ilog2 \<bar>x\<bar> - q \<le> int (precision fm)" by (simp only: two_powi_le_iff)
    with False qe have "ilog2 \<bar>x\<bar> - q = int (precision fm)" and qq: "?q = q + 1"
      by simp_all
    with ge have "2 ^ precision fm \<le> \<bar>m\<bar>"
      by (simp flip: of_int_power of_int_abs)
    with m have "\<bar>m\<bar> = 2 ^ precision fm" by linarith
    also have "(2::int) ^ precision fm = 2 * 2 ^ (precision fm - 1)"
      using wf by (simp add: wf_format_def power_Suc [symmetric] del: power_Suc)
    finally have "2 dvd \<bar>m\<bar>" by simp
    then obtain n where n: "m = 2 * n" by auto
    have "of_int m * 2 powi q = of_int n * (2 * (2::rat) powi q)" by (simp add: n)
    also have "2 * (2::rat) powi q = 2 powi ?q"
      unfolding qq by (rule power_int_add_1' [symmetric]) simp
    finally have "of_int m * 2 powi q = of_int n * (2::rat) powi ?q" .
    then show ?thesis unfolding x [symmetric] by blast
  qed
  then obtain k :: int where "x = of_int k * 2 powi ?q" by blast
  then have "round_val fm x \<le> x" "x \<le> round_val fm x"
    using round_val_le_grid [of x k fm] round_val_ge_grid [of k fm x] by auto
  then show ?thesis by simp
qed

section \<open>Non-negative arithmetic is monotone\<close>

definition f_nonneg :: "flt \<Rightarrow> bool" where
  "f_nonneg x \<longleftrightarrow> x \<noteq> NaN \<and> Fin 0 \<le> x"

lemma f_nonneg_cases: "f_nonneg x \<longleftrightarrow> x = PInf \<or> (\<exists>a. x = Fin a \<and> 0 \<le> a)"
  by (cases x) (auto simp: f_nonneg_def)

lemma f_nonneg_simps [simp]: "f_nonneg PInf" "f_nonneg (Fin a) \<longleftrightarrow> 0 \<le> a" "\<not> f_nonneg NInf" "\<not> f_nonneg NaN"
  by (auto simp: f_nonneg_def)

lemma f_nonneg_notNaN: "f_nonneg x \<Longrightarrow> x \<noteq> NaN"
  by auto

lemma f_nonneg_up: "f_nonneg x \<Longrightarrow> x \<le> y \<Longrightarrow> y \<noteq> NaN \<Longrightarrow> f_nonneg y"
  by (auto simp: f_nonneg_def)

lemma round_to_notNaN [simp]: "round_to fm x \<noteq> NaN"
  by (simp add: round_to_def Let_def)

lemma le_PInf_iff [simp]: "x \<le> PInf \<longleftrightarrow> x \<noteq> NaN"
  by (cases x) (auto simp: less_eq_flt_def)

lemma round_to_mono:
  assumes "wf_format fm" "x \<le> y"
  shows "round_to fm x \<le> round_to fm y"
  using round_val_mono [OF assms] by (auto simp: round_to_def Let_def)

lemma round_to_0 [simp]: "round_to fm 0 = Fin 0"
  by (simp add: round_to_def Let_def linorder_not_le)

lemma round_to_nonneg: "wf_format fm \<Longrightarrow> 0 \<le> x \<Longrightarrow> f_nonneg (round_to fm x)"
  using round_to_mono [of fm 0 x] by (auto simp: f_nonneg_def)

lemma f_add_commute: "f_add fm a b = f_add fm b a"
  by (cases a; cases b) (simp_all add: add.commute)

lemma f_add_nonneg:
  "wf_format fm \<Longrightarrow> f_nonneg a \<Longrightarrow> f_nonneg b \<Longrightarrow> f_nonneg (f_add fm a b)"
  by (auto simp: f_nonneg_cases [of a] f_nonneg_cases [of b] intro!: round_to_nonneg add_nonneg_nonneg)

lemma f_add_mono:
  assumes "wf_format fm" "f_nonneg a" "f_nonneg b" "a \<le> a'" "b \<le> b'" "a' \<noteq> NaN" "b' \<noteq> NaN"
  shows "f_add fm a b \<le> f_add fm a' b'"
proof -
  have "f_nonneg a'" "f_nonneg b'" using assms f_nonneg_up by blast+
  with assms show ?thesis
    by (auto simp: f_nonneg_cases intro!: round_to_mono add_mono)
qed

lemma f_sum_nil [simp]: "f_sum fm [] = Fin 0"
  by (simp add: f_sum_def)

lemma f_sum_snoc [simp]: "f_sum fm (xs @ [x]) = f_add fm (f_sum fm xs) x"
  by (simp add: f_sum_def)

lemma f_sum_nonneg:
  "wf_format fm \<Longrightarrow> \<forall>x\<in>set xs. f_nonneg x \<Longrightarrow> f_nonneg (f_sum fm xs)"
  by (induction xs rule: rev_induct) (auto intro: f_add_nonneg)

text \<open>Sums of the same length, taken in the same order, respect the order of their terms.\<close>

lemma f_sum_mono:
  assumes "wf_format fm" "list_all2 (\<le>) xs ys" "\<forall>x\<in>set xs. f_nonneg x" "\<forall>y\<in>set ys. y \<noteq> NaN"
  shows "f_sum fm xs \<le> f_sum fm ys"
  using assms(2-)
proof (induction xs arbitrary: ys rule: rev_induct)
  case Nil
  then show ?case by simp
next
  case (snoc x xs)
  obtain y ys' where ys: "ys = ys' @ [y]"
    using snoc.prems(1) by (cases ys rule: rev_cases) simp_all
  have "length xs = length ys'"
    using list_all2_lengthD [OF snoc.prems(1)] by (simp add: ys)
  then have rel: "list_all2 (\<le>) xs ys'" "x \<le> y"
    using snoc.prems(1) by (simp_all add: ys list_all2_append)
  have up: "\<forall>y\<in>set ys'. f_nonneg y"
  proof
    fix y assume y: "y \<in> set ys'"
    then obtain i where "i < length ys'" "y = ys' ! i" by (auto simp: in_set_conv_nth)
    with rel have i: "xs ! i \<le> y" "i < length xs" by (auto dest: list_all2_nthD2 list_all2_lengthD)
    from i snoc.prems(2) have "f_nonneg (xs ! i)" by (simp add: nth_append)
    moreover have "y \<noteq> NaN" using snoc.prems(3) y by (simp add: ys)
    ultimately show "f_nonneg y" using i f_nonneg_up by blast
  qed
  have "f_sum fm xs \<le> f_sum fm ys'" using rel snoc.prems ys by (intro snoc.IH) auto
  moreover have "f_nonneg (f_sum fm xs)" "f_sum fm ys' \<noteq> NaN"
    using snoc.prems(2) up assms(1) by (simp_all add: f_sum_nonneg f_nonneg_notNaN)
  moreover have "f_nonneg x" "y \<noteq> NaN"
    using snoc.prems by (simp_all add: ys)
  ultimately show ?case
    unfolding ys f_sum_snoc using rel(2) assms(1) by (intro f_add_mono)
qed

text \<open>Values of a format are fixed by adding zero.\<close>

fun is_float :: "float_format \<Rightarrow> flt \<Rightarrow> bool" where
  "is_float fm (Fin a) = (representable fm a \<and> \<bar>a\<bar> < 2 powi max_exp fm)"
| "is_float fm _ = True"

lemma round_to_is_float: "wf_format fm \<Longrightarrow> is_float fm (round_to fm x)"
  using round_val_representable [of fm x] by (auto simp: round_to_def Let_def abs_less_iff)

lemma f_add_is_float: "wf_format fm \<Longrightarrow> is_float fm (f_add fm a b)"
  by (cases a; cases b) (simp_all add: round_to_is_float)

lemma round_to_exact: "wf_format fm \<Longrightarrow> is_float fm (Fin a) \<Longrightarrow> round_to fm a = Fin a"
  using round_val_exact [of fm a] by (auto simp: round_to_def Let_def abs_less_iff)

lemma f_add_0_left: "wf_format fm \<Longrightarrow> is_float fm x \<Longrightarrow> f_add fm (Fin 0) x = x"
  by (cases x) (auto intro: round_to_exact)

lemma f_add_0_right: "wf_format fm \<Longrightarrow> is_float fm x \<Longrightarrow> f_add fm x (Fin 0) = x"
  using f_add_0_left f_add_commute by metis

lemma representable_0 [simp]: "representable fm 0"
  by (auto simp: representable_def intro!: exI [of _ 0] exI [of _ "min_exp fm"])

lemma f_sum_is_float: "wf_format fm \<Longrightarrow> is_float fm (f_sum fm xs)"
  by (cases xs rule: rev_cases) (auto intro: f_add_is_float)

section \<open>Evaluation\<close>

text \<open>Powers of two as integers, so that evaluating a rounding needs few rational operations.\<close>

definition ipow2 :: "int \<Rightarrow> int" where
  "ipow2 n = 2 ^ nat n"

lemma ipow2_code [code]:
  "ipow2 n = (if n \<le> 0 then 1 else let h = ipow2 (n div 2) in if even n then h * h else 2 * (h * h))"
proof (cases "n \<le> 0")
  case False
  define m where "m = n div 2"
  have "0 \<le> m" and n: "n = 2 * m \<or> n = 2 * m + 1" using False unfolding m_def by auto
  then have "nat n = nat m + nat m \<or> nat n = Suc (nat m + nat m)" by auto
  then have "ipow2 n = ipow2 m * ipow2 m \<and> n = 2 * m \<or> ipow2 n = 2 * (ipow2 m * ipow2 m) \<and> n = 2 * m + 1"
    using n \<open>0 \<le> m\<close> unfolding ipow2_def by (auto simp: power_add)
  with False show ?thesis unfolding m_def [symmetric] by (auto simp: Let_def)
qed (simp add: ipow2_def)

lemma powi_ipow2: "(2::rat) powi e = (if 0 \<le> e then of_int (ipow2 e) else 1 / of_int (ipow2 (- e)))"
  by (simp add: power_int_def ipow2_def inverse_eq_divide power_one_over)

lemma ilog2_code [code]:
  "ilog2 x = (let (a, b) = quotient_of x; e = bitlen a - bitlen b
     in if (if 0 \<le> e then of_int (ipow2 e) \<le> x else 1 \<le> x * of_int (ipow2 (- e))) then e else e - 1)"
  by (simp add: ilog2_def powi_ipow2 Let_def case_prod_beta pos_divide_le_eq ipow2_def)

lemma round_val_code [code]:
  "round_val fm x = (if x = 0 then 0
     else let q = quantum fm x
          in if 0 \<le> q then of_int (rne (x / of_int (ipow2 q)) * ipow2 q)
             else of_int (rne (x * of_int (ipow2 (- q)))) / of_int (ipow2 (- q)))"
  by (simp add: round_val_def powi_ipow2 Let_def)

lemma bitlen_bound: "0 \<le> a \<Longrightarrow> (of_int a :: rat) < 2 powi bitlen a"
  by (cases "a = 0") (simp_all add: bitlen_bounds two_powi_int bitlen_nonneg flip: of_int_power)

lemma small_below_max:
  assumes "quotient_of r = (a, b)" "bitlen \<bar>a\<bar> - bitlen b < e"
  shows "\<bar>r\<bar> < 2 powi e"
proof -
  have b: "0 < b" by (rule quotient_of_denom_pos [OF assms(1)])
  then have lb: "(2::rat) powi (bitlen b - 1) \<le> of_int b"
    using bitlen_bounds [OF b] by (simp add: two_powi_int bitlen_alt_def flip: of_int_power)
  have "\<bar>r\<bar> = of_int \<bar>a\<bar> / of_int b"
    using b quotient_of_div [OF assms(1)] by (simp add: abs_divide)
  also have "\<dots> < 2 powi bitlen \<bar>a\<bar> / of_int b"
    using b bitlen_bound [of "\<bar>a\<bar>"] by (simp add: divide_strict_right_mono)
  also have "\<dots> \<le> 2 powi bitlen \<bar>a\<bar> / 2 powi (bitlen b - 1)"
    by (rule divide_left_mono) (use lb b in auto)
  also have "\<dots> = 2 powi (bitlen \<bar>a\<bar> - bitlen b + 1)" by (simp add: two_powi_split [symmetric] algebra_simps)
  also have "\<dots> \<le> 2 powi e" using assms(2) by simp
  finally show ?thesis .
qed

lemma round_to_code [code]:
  "round_to fm x = (let r = round_val fm x; (a, b) = quotient_of r
     in if bitlen \<bar>a\<bar> - bitlen b < max_exp fm then Fin r
        else if 2 powi max_exp fm \<le> r then PInf else if r \<le> - (2 powi max_exp fm) then NInf else Fin r)"
proof -
  obtain a b where q: "quotient_of (round_val fm x) = (a, b)" by fastforce
  show ?thesis
    using small_below_max [OF q, of "max_exp fm"] by (auto simp: round_to_def Let_def q)
qed

end
