(* ===== verification/Types.thy ===== *)
theory Types
  imports Float_Model "HOL-Library.Word"
begin

text \<open>
  Types shared by the components: point identities with their derived order
  (\<open>src/lib/segment/src/types.rs\<close>), scored points, \<open>std::cmp::Ordering\<close>, and
  the error type (\<open>src/lib/segment/src/common/operation_error.rs\<close>).

  An error description is a constructor of \<open>message\<close>, one per format string of
  the modelled code, with the values the code interpolates; a description without
  interpolated values is \<open>Text\<close> of the literal. \<open>Panicked\<close> is no
  error value of the code: it marks a branch in which the code panics, so that the
  theorems can show that the branch is not taken.
\<close>

section \<open>Orderings\<close>

datatype ordering = Less | Equal | Greater

definition cmp :: "'a::linorder \<Rightarrow> 'a \<Rightarrow> ordering" where
  "cmp a b = (if a < b then Less else if a = b then Equal else Greater)"

definition then_with :: "ordering \<Rightarrow> ordering \<Rightarrow> ordering" where
  "then_with a b = (if a = Equal then b else a)"

definition is_le :: "ordering \<Rightarrow> bool" where
  "is_le r \<longleftrightarrow> r \<noteq> Greater"

lemma cmp_simps [simp]:
  "cmp a b = Less \<longleftrightarrow> a < b" "cmp a b = Equal \<longleftrightarrow> a = b" "cmp a b = Greater \<longleftrightarrow> b < a"
  by (auto simp: cmp_def)

lemma is_le_cmp [simp]: "is_le (cmp a b) \<longleftrightarrow> a \<le> b"
  by (auto simp: is_le_def cmp_def)

lemma is_le_then_with: "is_le (then_with a b) \<longleftrightarrow> a = Less \<or> a = Equal \<and> is_le b"
  by (cases a) (auto simp: is_le_def then_with_def)

lemmas [rank_simps] = is_le_then_with

lemma then_with_eq [rank_simps]:
  "then_with a b = Less \<longleftrightarrow> a = Less \<or> a = Equal \<and> b = Less"
  "then_with a b = Equal \<longleftrightarrow> a = Equal \<and> b = Equal"
  by (cases a; simp add: then_with_def)+

section \<open>Point identities\<close>

type_synonym u64 = "64 word"

type_synonym u32 = "32 word"

text \<open>A UUID compares by its sixteen bytes, most significant first: the order of its 128-bit value.\<close>

datatype point_id = NumId u64 | Uuid "128 word"

instantiation point_id :: linorder
begin

fun less_eq_point_id :: "point_id \<Rightarrow> point_id \<Rightarrow> bool" where
  "less_eq_point_id (NumId a) (NumId b) = (a \<le> b)"
| "less_eq_point_id (NumId a) (Uuid b) = True"
| "less_eq_point_id (Uuid a) (NumId b) = False"
| "less_eq_point_id (Uuid a) (Uuid b) = (a \<le> b)"

definition less_point_id :: "point_id \<Rightarrow> point_id \<Rightarrow> bool" where
  "less_point_id a b = (\<not> b \<le> a)"

instance
proof
  fix x y z :: point_id
  show "x < y \<longleftrightarrow> x \<le> y \<and> \<not> y \<le> x"
    by (cases x; cases y) (auto simp: less_point_id_def)
  show "x \<le> x" by (cases x) auto
  show "x \<le> y \<Longrightarrow> y \<le> z \<Longrightarrow> x \<le> z" by (cases x; cases y; cases z) auto
  show "x \<le> y \<Longrightarrow> y \<le> x \<Longrightarrow> x = y" by (cases x; cases y) auto
  show "x \<le> y \<or> y \<le> x" by (cases x; cases y) auto
qed

end

lemma less_point_id_simps [simp]:
  "NumId a < NumId b \<longleftrightarrow> a < b" "NumId a < Uuid c" "\<not> Uuid c < NumId a" "Uuid c < Uuid d \<longleftrightarrow> c < d"
  by (auto simp: less_point_id_def)

section \<open>Errors\<close>

datatype message =
    MsgRrfWeights nat nat
  | MsgRrfNoSources
  | MsgRrfZeroK
  | MsgRrfWeightCount nat nat
  | MsgRrfWeightValue
  | MsgRrfSourceOutOfRange nat
  | MsgRrfSourceExhausted nat
  | MsgRrfDuplicatePoint point_id nat
  | MsgRrfDuplicateInBatch point_id nat
  | MsgRrfBatchStart nat nat nat
  | MsgRrfEmptyBatch nat
  | MsgRrfBatchSize
  | MsgRrfWarmupInterval
  | MsgRrfExhaustiveBudget
  | MsgRrfFairness
  | MsgRrfCostCount nat nat
  | MsgRrfCostValue
  | MsgRrfPrefixDecrease nat nat
  | MsgRrfReplacementOutOfRange nat
  | MsgRrfReplacementExhausted nat
  | MsgRrfReplacementEnded nat nat
  | MsgRrfReplacementDisagrees nat nat point_id point_id
  | MsgRrfPauseTargets nat nat
  | MsgRrfBatchTooLarge nat nat nat
  | MsgMergeNoSources
  | MsgMergeRefillSize
  | MsgMergeBatchSize
  | MsgMergeTooLarge nat nat nat
  | MsgMergeEmptyBatch nat
  | MsgMergeNonFinite nat
  | MsgMergeOrderInBatch nat
  | MsgMergeRepeatedInBatch nat point_id
  | MsgMergeOrder nat
  | MsgMergeDuplicate point_id
  | MsgIndexOutOfBounds
  | MsgNoSourceToAdvance
  | MsgCannotPause
  | MsgNotReturning
  | MsgShardBatchSize string
  | MsgShardOutputSize string
  | MsgShardNonFinite nat
  | MsgShardOrder nat
  | MsgShardCancelled string
  | MsgShardConflict string point_id u64 u64
  | MsgShardRepeated string point_id
  | MsgRrfVersionConflict point_id u64 u64
  | MsgRrfBatchVersionConflict point_id u64 u64
  | MsgRrfNoVersion point_id
  | MsgRrfLostVersion point_id
  | MsgDenseNonFinitePoint nat
  | MsgDenseCertificate nat flt flt flt
  | MsgUnmappedPoint string nat
  | MsgUnversionedPoint string point_id
  | MsgSparseCertificate nat flt flt
  | MsgSparseReader string
  | MsgNoReservation nat nat nat
  | MsgTaskFailed string
  | Text string

datatype operation_error =
    ValidationError message
  | ServiceError message
  | InconsistentStorage message
  | Cancelled message
  | WrongSparse
  | VectorNameNotExists string
  | BadInput message
  | Timeout
  | Panicked message

section \<open>Scored points\<close>

text \<open>
  \<open>ScoredPoint\<close>: payload, vector, shard key and order value are never read by the
  modelled code and ride in the record's extension.
\<close>

record scored_point =
  sp_id :: point_id
  sp_version :: u64
  sp_score :: flt

text \<open>The order of every exact stream: score descending, identity ascending.\<close>

definition ranks_before :: "flt \<times> 'i::linorder \<Rightarrow> flt \<times> 'i \<Rightarrow> bool" where
  "ranks_before a b \<longleftrightarrow> fst b < fst a \<or> fst a = fst b \<and> snd a \<le> snd b"

interpretation ranks_before: linear_rank ranks_before
  by unfold_locales (auto simp: ranks_before_def)

end
