(* ===== verification/Rrf_Scoring.thy ===== *)
theory Rrf_Scoring
  imports Types
begin

text \<open>
  Reciprocal rank fusion over complete rankings:
  \<open>src/lib/segment/src/common/reciprocal_rank_fusion/scoring.rs\<close>.

  \<open>rrf_scoring\<close> is Qdrant's fusion, \<open>exact_rrf_scoring\<close> the deterministic
  reference of the exact endpoint: positive scores only, ties broken by identity.
  The hash map of the code is an association list in insertion order; its
  iteration order is unspecified in Rust, and \<open>exact_rrf_scoring\<close> does not depend
  on it because its comparison separates distinct identities.
\<close>

section \<open>Definitions\<close>

definition DEFAULT_RRF_K :: nat where
  "DEFAULT_RRF_K = 2"

definition position_score :: "nat \<Rightarrow> nat \<Rightarrow> flt \<Rightarrow> flt" where
  "position_score position k weight =
     (if f_le weight (Fin 0) then Fin 0
      else f_div F32 (Fin 1)
             (f_sub F32 (f_add F32 (f_div F32 (f_of_nat F32 (position + 1)) weight) (f_of_nat F32 k)) (Fin 1)))"

definition rrf_order :: "point_id \<Rightarrow> flt \<Rightarrow> point_id \<Rightarrow> flt \<Rightarrow> ordering" where
  "rrf_order left_id left_score right_id right_score =
     then_with (cmp right_score left_score) (cmp left_id right_id)"

definition guaranteed_before :: "point_id \<Rightarrow> flt \<Rightarrow> point_id \<Rightarrow> flt \<Rightarrow> bool" where
  "guaranteed_before winner_id winner_lower_bound challenger_id challenger_upper_bound \<longleftrightarrow>
     f_lt challenger_upper_bound winner_lower_bound
     \<or> f_eq winner_lower_bound challenger_upper_bound \<and> winner_id < challenger_id"

text \<open>The inner loop over one response: the first sight of a point sets its score, later ones add.\<close>

definition rrf_accumulate_point ::
  "'a scored_point_scheme \<Rightarrow> flt \<Rightarrow> (point_id \<times> 'a scored_point_scheme) list
     \<Rightarrow> (point_id \<times> 'a scored_point_scheme) list" where
  "rrf_accumulate_point point rrf_score points_by_id =
     (case map_of points_by_id (sp_id point) of
        Some entry \<Rightarrow>
          AList.update (sp_id point) (entry\<lparr>sp_score := f_add F32 (sp_score entry) rrf_score\<rparr>) points_by_id
      | None \<Rightarrow> AList.update (sp_id point) (point\<lparr>sp_score := rrf_score\<rparr>) points_by_id)"

fun rrf_accumulate_response ::
  "nat \<Rightarrow> flt \<Rightarrow> nat \<Rightarrow> 'a scored_point_scheme list \<Rightarrow> (point_id \<times> 'a scored_point_scheme) list
     \<Rightarrow> (point_id \<times> 'a scored_point_scheme) list" where
  "rrf_accumulate_response k weight pos [] points_by_id = points_by_id"
| "rrf_accumulate_response k weight pos (point # response) points_by_id =
     rrf_accumulate_response k weight (Suc pos) response
       (rrf_accumulate_point point (position_score pos k weight) points_by_id)"

fun rrf_accumulate ::
  "nat \<Rightarrow> ('a scored_point_scheme list \<times> flt) list \<Rightarrow> (point_id \<times> 'a scored_point_scheme) list
     \<Rightarrow> (point_id \<times> 'a scored_point_scheme) list" where
  "rrf_accumulate k [] points_by_id = points_by_id"
| "rrf_accumulate k ((response, weight) # rest) points_by_id =
     rrf_accumulate k rest (rrf_accumulate_response k weight 0 response points_by_id)"

definition rrf_scoring ::
  "'a scored_point_scheme list list \<Rightarrow> nat \<Rightarrow> flt list option
     \<Rightarrow> operation_error + 'a scored_point_scheme list" where
  "rrf_scoring responses k weights =
     (let run = (\<lambda>ws. sort_by (\<lambda>a b. is_le (cmp (sp_score b) (sp_score a)))
                       (map snd (rrf_accumulate k (zip responses ws) [])))
      in case weights of
           Some ws \<Rightarrow>
             if length ws \<noteq> length responses
             then Inl (ValidationError (MsgRrfWeights (length ws) (length responses)))
             else Inr (run ws)
         | None \<Rightarrow> Inr (run (replicate (length responses) (Fin 1))))"

definition exact_rrf_scoring ::
  "'a scored_point_scheme list list \<Rightarrow> nat \<Rightarrow> flt list option
     \<Rightarrow> operation_error + 'a scored_point_scheme list" where
  "exact_rrf_scoring responses k weights =
     rbind (rrf_scoring responses k weights) (\<lambda>scores.
       Inr (sort_by (\<lambda>left right. is_le (rrf_order (sp_id left) (sp_score left) (sp_id right) (sp_score right)))
              (filter (\<lambda>point. f_lt (Fin 0) (sp_score point)) scores)))"

section \<open>The comparison\<close>

lemma rrf_order_le:
  "is_le (rrf_order i s j t) \<longleftrightarrow> ranks_before (s, i) (t, j)"
  by (auto simp: rrf_order_def ranks_before_def rank_simps)

lemmas [rank_simps] = rrf_order_le

section \<open>Contributions fall with the rank\<close>

lemma f_of_nat_mono: "wf_format fm \<Longrightarrow> m \<le> n \<Longrightarrow> f_of_nat fm m \<le> f_of_nat fm n"
  by (simp add: f_of_nat_def round_to_mono)

lemma f_of_nat_nonneg: "wf_format fm \<Longrightarrow> f_nonneg (f_of_nat fm n)"
  by (simp add: f_of_nat_def round_to_nonneg)

lemma round_to_F32_one: "round_to F32 1 = Fin 1"
  by code_simp

lemma f_of_nat_ge_one: "1 \<le> n \<Longrightarrow> Fin 1 \<le> f_of_nat F32 n"
  using f_of_nat_mono [of F32 1 n] by (simp add: f_of_nat_def round_to_F32_one)

lemma f_add_Fin_mono:
  assumes "wf_format fm" "a \<le> b" "b \<noteq> NaN"
  shows "f_add fm a (Fin c) \<le> f_add fm b (Fin c)"
  using assms by (cases a; cases b) (auto intro: round_to_mono)

lemma f_div_mono:
  assumes "wf_format fm" "f_nonneg a" "a \<le> b" "b \<noteq> NaN" "0 < c"
  shows "f_div fm a (Fin c) \<le> f_div fm b (Fin c)"
  using assms by (cases a; cases b) (auto simp: signed_inf_def intro!: round_to_mono divide_right_mono)

lemma f_div_nonneg:
  assumes "wf_format fm" "f_nonneg a" "0 < c"
  shows "f_nonneg (f_div fm a (Fin c))"
  using assms by (cases a) (auto simp: signed_inf_def intro!: round_to_nonneg)

lemma f_recip_antimono:
  assumes "wf_format fm" "f_nonneg x" "x \<le> y" "y \<noteq> NaN"
  shows "f_div fm (Fin 1) y \<le> f_div fm (Fin 1) x"
proof -
  have "f_nonneg y" using assms(2-4) by (rule f_nonneg_up)
  with assms show ?thesis
    by (cases x; cases y)
      (auto simp: signed_inf_def frac_le intro!: round_to_mono round_to_nonneg [THEN f_nonneg_def [THEN iffD1], THEN conjunct2])
qed

lemma f_recip_nonneg:
  assumes "wf_format fm" "f_nonneg x"
  shows "f_nonneg (f_div fm (Fin 1) x)"
  using assms by (cases x) (auto simp: signed_inf_def intro!: round_to_nonneg)

text \<open>The denominator of a contribution with a positive weight.\<close>

definition score_denominator :: "nat \<Rightarrow> nat \<Rightarrow> flt \<Rightarrow> flt" where
  "score_denominator position k weight =
     f_sub F32 (f_add F32 (f_div F32 (f_of_nat F32 (position + 1)) weight) (f_of_nat F32 k)) (Fin 1)"

text \<open>Weights the state accepts: finite and not negative.\<close>

definition valid_weight :: "flt \<Rightarrow> bool" where
  "valid_weight w \<longleftrightarrow> is_finite w \<and> \<not> f_lt w (Fin 0)"

lemma valid_weight_iff: "valid_weight w \<longleftrightarrow> (\<exists>c. w = Fin c \<and> 0 \<le> c)"
  by (cases w) (auto simp: valid_weight_def f_lt_def)

lemma score_denominator_mono:
  assumes "p \<le> q" "0 < c"
  shows "score_denominator p k (Fin c) \<le> score_denominator q k (Fin c)"
proof -
  have nn: "f_nonneg (f_of_nat F32 n)" "f_nonneg (f_div F32 (f_of_nat F32 n) (Fin c))" for n
    using assms(2) by (simp_all add: f_of_nat_nonneg f_div_nonneg)
  have "f_div F32 (f_of_nat F32 (p + 1)) (Fin c) \<le> f_div F32 (f_of_nat F32 (q + 1)) (Fin c)"
    using assms nn f_nonneg_notNaN by (intro f_div_mono f_of_nat_mono) auto
  then have "f_add F32 (f_div F32 (f_of_nat F32 (p + 1)) (Fin c)) (f_of_nat F32 k)
      \<le> f_add F32 (f_div F32 (f_of_nat F32 (q + 1)) (Fin c)) (f_of_nat F32 k)"
    using nn f_nonneg_notNaN by (intro f_add_mono) auto
  moreover have "f_add F32 (f_div F32 (f_of_nat F32 (q + 1)) (Fin c)) (f_of_nat F32 k) \<noteq> NaN"
    using nn f_add_nonneg [of F32] f_nonneg_notNaN by simp
  ultimately show ?thesis
    by (simp add: score_denominator_def f_sub_def f_add_Fin_mono)
qed

lemma score_denominator_nonneg:
  assumes "1 \<le> k" "0 < c"
  shows "f_nonneg (score_denominator p k (Fin c))"
proof -
  let ?d = "f_div F32 (f_of_nat F32 (p + 1)) (Fin c)"
  have nn: "f_nonneg ?d" "f_nonneg (f_of_nat F32 k)"
    using assms(2) by (simp_all add: f_of_nat_nonneg f_div_nonneg)
  have s: "f_nonneg (f_add F32 ?d (f_of_nat F32 k))"
    using nn by (intro f_add_nonneg) auto
  have "f_add F32 (Fin 0) (Fin 1) \<le> f_add F32 ?d (f_of_nat F32 k)"
    using nn assms(1) f_nonneg_notNaN f_of_nat_ge_one
    by (intro f_add_mono) (auto simp: f_nonneg_def)
  then have one: "Fin 1 \<le> f_add F32 ?d (f_of_nat F32 k)"
    by (simp add: round_to_F32_one)
  have "f_add F32 (Fin 1) (Fin (-1)) \<le> f_add F32 (f_add F32 ?d (f_of_nat F32 k)) (Fin (-1))"
    using one s f_nonneg_notNaN by (intro f_add_Fin_mono) auto
  moreover have "f_add F32 (f_add F32 ?d (f_of_nat F32 k)) (Fin (-1)) \<noteq> NaN"
    using s by (auto simp: f_nonneg_cases)
  ultimately show ?thesis
    by (simp add: score_denominator_def f_sub_def f_nonneg_def)
qed

lemma position_score_pos:
  "0 < c \<Longrightarrow> position_score p k (Fin c) = f_div F32 (Fin 1) (score_denominator p k (Fin c))"
  by (simp add: position_score_def score_denominator_def f_le_def)

lemma position_score_zero: "c \<le> 0 \<Longrightarrow> position_score p k (Fin c) = Fin 0"
  by (simp add: position_score_def f_le_def)

lemma position_score_nonneg:
  assumes "1 \<le> k" "valid_weight w"
  shows "f_nonneg (position_score p k w)"
proof -
  obtain c where c: "w = Fin c" "0 \<le> c" using assms(2) by (auto simp: valid_weight_iff)
  then show ?thesis
    using assms(1) score_denominator_nonneg [of k c p]
    by (cases "0 < c") (auto simp: position_score_pos position_score_zero intro: f_recip_nonneg)
qed

lemma position_score_antimono:
  assumes "1 \<le> k" "valid_weight w" "p \<le> q"
  shows "position_score q k w \<le> position_score p k w"
proof -
  obtain c where c: "w = Fin c" "0 \<le> c" using assms(2) by (auto simp: valid_weight_iff)
  show ?thesis
  proof (cases "0 < c")
    case True
    have "f_nonneg (score_denominator n k (Fin c))" for n
      using assms(1) True by (rule score_denominator_nonneg)
    then show ?thesis
      using True assms(3) f_nonneg_notNaN
      by (auto simp: c position_score_pos intro!: f_recip_antimono score_denominator_mono)
  next
    case False
    with c show ?thesis by (simp add: position_score_zero)
  qed
qed

lemma f_div_is_float: "wf_format fm \<Longrightarrow> is_float fm (f_div fm a b)"
  by (cases a; cases b) (auto simp: signed_inf_def round_to_is_float)

lemma position_score_is_float: "is_float F32 (position_score p k w)"
  by (simp add: position_score_def f_div_is_float)

section \<open>Properties\<close>



end
