(* ===== verification/Rrf_State.thy ===== *)
theory Rrf_State
  imports Rrf_Scoring
begin

text \<open>
  The incremental fusion state of
  \<open>src/lib/segment/src/common/reciprocal_rank_fusion/state.rs\<close>: ranks of several
  exact streams are observed one by one or in batches, and \<open>fixed_top_k\<close> returns the
  fused prefix as soon as no later rank can change it.

  The hash map of partial points is an association list with distinct keys. An
  operation that fails leaves the state as it was, so the model returns either the
  error or the new state.
\<close>

section \<open>Data\<close>

record channel_rank_batch =
  start_rank :: nat
  point_ids :: "point_id list"
  batch_exhausted :: bool

record partial_rrf_point =
  contributions :: "flt option list"

record dynamic_rrf_state =
  rrf_k :: nat
  top_k :: nat
  weights :: "flt list"
  next_positions :: "nat list"
  exhausted :: "bool list"
  points :: "(point_id \<times> partial_rrf_point) list"

section \<open>Operations\<close>

definition state_new :: "nat \<Rightarrow> nat \<Rightarrow> nat \<Rightarrow> flt list option \<Rightarrow> operation_error + dynamic_rrf_state" where
  "state_new source_count topk k ws =
     (if source_count = 0 then Inl (ValidationError MsgRrfNoSources)
      else if k = 0 then Inl (ValidationError MsgRrfZeroK)
      else rbind
        (case ws of
           Some w \<Rightarrow> if length w \<noteq> source_count
                     then Inl (ValidationError (MsgRrfWeightCount (length w) source_count)) else Inr w
         | None \<Rightarrow> Inr (replicate source_count (Fin 1)))
        (\<lambda>w. if list_ex (\<lambda>x. \<not> is_finite x \<or> f_lt x (Fin 0)) w
             then Inl (ValidationError MsgRrfWeightValue)
             else Inr \<lparr>rrf_k = k, top_k = topk, weights = w,
                       next_positions = replicate source_count 0,
                       exhausted = replicate source_count False, points = []\<rparr>))"

text \<open>\<open>entry(id).or_insert_with(..)\<close>: the stored point or a fresh one without contributions.\<close>

definition point_entry :: "dynamic_rrf_state \<Rightarrow> point_id \<Rightarrow> partial_rrf_point" where
  "point_entry st pid =
     (case map_of (points st) pid of Some p \<Rightarrow> p
      | None \<Rightarrow> \<lparr>contributions = replicate (length (weights st)) None\<rparr>)"

definition set_contribution :: "nat \<Rightarrow> flt \<Rightarrow> point_id \<Rightarrow> dynamic_rrf_state \<Rightarrow> dynamic_rrf_state" where
  "set_contribution source contribution pid st =
     st\<lparr>points := AList.update pid
          (let p = point_entry st pid in p\<lparr>contributions := (contributions p)[source := Some contribution]\<rparr>)
          (points st)\<rparr>"

definition observe :: "dynamic_rrf_state \<Rightarrow> nat \<Rightarrow> point_id \<Rightarrow> operation_error + dynamic_rrf_state" where
  "observe st source pid =
     (if length (weights st) \<le> source then Inl (ValidationError (MsgRrfSourceOutOfRange source))
      else if exhausted st ! source then Inl (ValidationError (MsgRrfSourceExhausted source))
      else let contribution = position_score (next_positions st ! source) (rrf_k st) (weights st ! source)
           in if contributions (point_entry st pid) ! source \<noteq> None
              then Inl (ValidationError (MsgRrfDuplicatePoint pid source))
              else Inr ((set_contribution source contribution pid st)
                          \<lparr>next_positions := (next_positions st)[source := next_positions st ! source + 1]\<rparr>))"

text \<open>The validation loop of \<open>observe_batch\<close>; \<open>uniq\<close> is the set of identities already met.\<close>

fun check_batch_ids ::
  "dynamic_rrf_state \<Rightarrow> nat \<Rightarrow> point_id list \<Rightarrow> point_id list \<Rightarrow> operation_error option" where
  "check_batch_ids st source uniq [] = None"
| "check_batch_ids st source uniq (pid # ids) =
     (if pid \<in> set uniq then Some (ValidationError (MsgRrfDuplicateInBatch pid source))
      else if (case map_of (points st) pid of Some p \<Rightarrow> contributions p ! source \<noteq> None | None \<Rightarrow> False)
      then Some (ValidationError (MsgRrfDuplicatePoint pid source))
      else check_batch_ids st source (pid # uniq) ids)"

fun apply_batch_ids :: "nat \<Rightarrow> nat \<Rightarrow> point_id list \<Rightarrow> dynamic_rrf_state \<Rightarrow> dynamic_rrf_state" where
  "apply_batch_ids source rank [] st = st"
| "apply_batch_ids source rank (pid # ids) st =
     apply_batch_ids source (Suc rank) ids
       (set_contribution source (position_score rank (rrf_k st) (weights st ! source)) pid st)"

definition observe_batch ::
  "dynamic_rrf_state \<Rightarrow> nat \<Rightarrow> channel_rank_batch \<Rightarrow> operation_error + dynamic_rrf_state" where
  "observe_batch st source batch =
     (if length (weights st) \<le> source then Inl (ValidationError (MsgRrfSourceOutOfRange source))
      else if exhausted st ! source then Inl (ValidationError (MsgRrfSourceExhausted source))
      else if start_rank batch \<noteq> next_positions st ! source
      then Inl (ValidationError (MsgRrfBatchStart source (start_rank batch) (next_positions st ! source)))
      else if point_ids batch = [] \<and> \<not> batch_exhausted batch
      then Inl (ValidationError (MsgRrfEmptyBatch source))
      else case check_batch_ids st source [] (point_ids batch) of
        Some e \<Rightarrow> Inl e
      | None \<Rightarrow>
          let st' = apply_batch_ids source (start_rank batch) (point_ids batch) st
          in Inr (st'\<lparr>next_positions :=
                       (next_positions st')[source := next_positions st' ! source + length (point_ids batch)],
                     exhausted := (if batch_exhausted batch then (exhausted st')[source := True] else exhausted st')\<rparr>))"

definition finish_source :: "dynamic_rrf_state \<Rightarrow> nat \<Rightarrow> operation_error + dynamic_rrf_state" where
  "finish_source st source =
     (if length (exhausted st) \<le> source then Inl (ValidationError (MsgRrfSourceOutOfRange source))
      else Inr (st\<lparr>exhausted := (exhausted st)[source := True]\<rparr>))"

definition next_possible_contribution :: "dynamic_rrf_state \<Rightarrow> nat \<Rightarrow> flt option" where
  "next_possible_contribution st source =
     (if length (weights st) \<le> source \<or> exhausted st ! source then None
      else Some (position_score (next_positions st ! source) (rrf_k st) (weights st ! source)))"

definition all_sources_exhausted :: "dynamic_rrf_state \<Rightarrow> bool" where
  "all_sources_exhausted st = list_all id (exhausted st)"

text \<open>Bounds of one point: missing contributions count as nothing, or as the next of their source.\<close>

definition unwrap_or :: "'a option \<Rightarrow> 'a \<Rightarrow> 'a" where
  "unwrap_or x d = (case x of Some y \<Rightarrow> y | None \<Rightarrow> d)"

definition next_contributions :: "dynamic_rrf_state \<Rightarrow> flt list" where
  "next_contributions st =
     map (\<lambda>source. unwrap_or (next_possible_contribution st source) (Fin 0)) [0..<length (weights st)]"

definition lower_bound :: "partial_rrf_point \<Rightarrow> flt" where
  "lower_bound p = f_sum F32 (map (\<lambda>c. unwrap_or c (Fin 0)) (contributions p))"

definition upper_bound :: "flt list \<Rightarrow> partial_rrf_point \<Rightarrow> flt" where
  "upper_bound nexts p = f_sum F32 (map (\<lambda>(c, nx). unwrap_or c nx) (zip (contributions p) nexts))"

definition competitive_missing_counts :: "dynamic_rrf_state \<Rightarrow> operation_error + nat list" where
  "competitive_missing_counts st =
     (let n = length (weights st); zeros = replicate n 0;
          bump = (\<lambda>by counts. map (\<lambda>i. if exhausted st ! i then counts ! i else by (counts ! i)) [0..<n])
      in if all_sources_exhausted st then Inr zeros
         else if length (points st) < top_k st
         then Inr (bump (\<lambda>_. max (saturating_sub (top_k st) (length (points st))) 1) zeros)
         else let nexts = next_contributions st;
                  lower_bounds = sort_by (\<lambda>l r. is_le (cmp r l)) (map (\<lambda>(_, p). lower_bound p) (points st))
              in if top_k st = 0 then Inl (Panicked MsgIndexOutOfBounds)
                 else let threshold = lower_bounds ! (top_k st - 1);
                          live = filter (\<lambda>(_, p). \<not> f_lt (upper_bound nexts p) threshold) (points st);
                          counts = map (\<lambda>i. length (filter (\<lambda>(_, p). contributions p ! i = None \<and> \<not> exhausted st ! i) live))
                                     [0..<n]
                      in Inr (if f_le threshold (f_sum F32 nexts) then bump Suc counts else counts))"

definition complete_order :: "dynamic_rrf_state \<Rightarrow> point_id list" where
  "complete_order st =
     map fst (sort_by (\<lambda>l r. is_le (rrf_order (fst l) (snd l) (fst r) (snd r)))
       (filter (\<lambda>(_, score). f_lt (Fin 0) score) (map (\<lambda>(pid, p). (pid, lower_bound p)) (points st))))"

text \<open>The selection loop of \<open>fixed_top_k\<close> over \<open>(id, lower, upper)\<close>.\<close>

fun fix_winners ::
  "nat \<Rightarrow> flt \<Rightarrow> (point_id \<times> flt \<times> flt) list \<Rightarrow> point_id list \<Rightarrow> point_id list option" where
  "fix_winners 0 unseen_upper_bound remaining fixed = Some fixed"
| "fix_winners (Suc n) unseen_upper_bound remaining fixed =
     (case min_index_by (\<lambda>a b. is_le (rrf_order (fst a) (fst (snd a)) (fst b) (fst (snd b)))) remaining of
        None \<Rightarrow> None
      | Some winner_index \<Rightarrow>
          let winner = remaining ! winner_index
          in if f_le (fst (snd winner)) unseen_upper_bound then None
             else if list_ex (\<lambda>(index, challenger). index \<noteq> winner_index \<and>
                      \<not> guaranteed_before (fst winner) (fst (snd winner)) (fst challenger) (snd (snd challenger)))
                    (List.enumerate 0 remaining)
             then None
             else fix_winners n unseen_upper_bound (swap_remove winner_index remaining) (fixed @ [fst winner]))"

definition fixed_top_k :: "dynamic_rrf_state \<Rightarrow> point_id list option" where
  "fixed_top_k st =
     (if top_k st = 0 then Some []
      else let all_exhausted = all_sources_exhausted st
           in if \<not> all_exhausted \<and> length (points st) < top_k st then None
              else if all_exhausted then Some (take (top_k st) (complete_order st))
              else let nexts = next_contributions st
                   in fix_winners (top_k st) (f_sum F32 nexts)
                        (map (\<lambda>(pid, p). (pid, lower_bound p, upper_bound nexts p)) (points st)) [])"

section \<open>Ranks in a stream\<close>

text \<open>The position of an identity in a ranking, and the contribution it earns there.\<close>

fun rank_of :: "'a list \<Rightarrow> 'a \<Rightarrow> nat option" where
  "rank_of [] x = None"
| "rank_of (y # ys) x = (if x = y then Some 0 else map_option Suc (rank_of ys x))"

lemma rank_of_None: "rank_of xs x = None \<longleftrightarrow> x \<notin> set xs"
  by (induction xs) auto

lemma rank_of_notin [simp]: "x \<notin> set xs \<Longrightarrow> rank_of xs x = None"
  by (simp add: rank_of_None)

lemma rank_of_SomeD: "rank_of xs x = Some j \<Longrightarrow> j < length xs \<and> xs ! j = x"
  by (induction xs arbitrary: j) (auto split: if_splits)

lemma rank_of_take:
  "rank_of (take n xs) x = (case rank_of xs x of Some j \<Rightarrow> if j < n then Some j else None | None \<Rightarrow> None)"
  by (induction xs arbitrary: n) (auto simp: take_Cons split: nat.splits option.splits)

lemma rank_of_nth: "distinct xs \<Longrightarrow> j < length xs \<Longrightarrow> rank_of xs (xs ! j) = Some j"
proof (induction xs arbitrary: j)
  case Nil
  then show ?case by simp
next
  case (Cons x xs)
  then show ?case by (cases j) auto
qed

lemma rank_of_snoc: "x \<notin> set xs \<Longrightarrow> rank_of (xs @ [x]) y = (if y = x then Some (length xs) else rank_of xs y)"
  by (induction xs) auto

definition contribution_at :: "nat \<Rightarrow> flt \<Rightarrow> point_id list \<Rightarrow> point_id \<Rightarrow> flt option" where
  "contribution_at k w xs pid = map_option (\<lambda>j. position_score j k w) (rank_of xs pid)"

lemma contribution_at_None [simp]: "contribution_at k w xs pid = None \<longleftrightarrow> pid \<notin> set xs"
  by (simp add: contribution_at_def rank_of_None)

lemma contribution_at_nonneg:
  "1 \<le> k \<Longrightarrow> valid_weight w \<Longrightarrow> f_nonneg (unwrap_or (contribution_at k w xs pid) (Fin 0))"
  by (auto simp: unwrap_or_def contribution_at_def position_score_nonneg split: option.splits)

section \<open>What a state knows of its streams\<close>

text \<open>
  \<open>represents st S\<close>: the state has observed a prefix of each of the streams \<open>S\<close>,
  the whole of it where the source is exhausted. One state represents many
  families of streams, all the continuations its sources may still deliver.
\<close>

definition seen_prefix :: "dynamic_rrf_state \<Rightarrow> point_id list list \<Rightarrow> nat \<Rightarrow> point_id list" where
  "seen_prefix st S i = take (next_positions st ! i) (S ! i)"

definition point_of :: "dynamic_rrf_state \<Rightarrow> point_id list list \<Rightarrow> point_id \<Rightarrow> partial_rrf_point" where
  "point_of st S pid =
     \<lparr>contributions = map (\<lambda>i. contribution_at (rrf_k st) (weights st ! i) (seen_prefix st S i) pid)
        [0..<length (weights st)]\<rparr>"

definition wf_config :: "dynamic_rrf_state \<Rightarrow> bool" where
  "wf_config st \<longleftrightarrow> 1 \<le> rrf_k st \<and> (\<forall>w\<in>set (weights st). valid_weight w) \<and>
     length (next_positions st) = length (weights st) \<and> length (exhausted st) = length (weights st)"

definition represents :: "dynamic_rrf_state \<Rightarrow> point_id list list \<Rightarrow> bool" where
  "represents st S \<longleftrightarrow> wf_config st \<and> length S = length (weights st) \<and>
     (\<forall>i<length S. distinct (S ! i) \<and> next_positions st ! i \<le> length (S ! i) \<and>
        (exhausted st ! i \<longrightarrow> next_positions st ! i = length (S ! i))) \<and>
     distinct (map fst (points st)) \<and>
     set (map fst (points st)) = (\<Union>i<length S. set (seen_prefix st S i)) \<and>
     (\<forall>(pid, p)\<in>set (points st). p = point_of st S pid)"

lemma represents_facts:
  assumes "represents st S"
  shows represents_wf: "wf_config st"
    and represents_length: "length S = length (weights st)"
    and represents_stream: "i < length S \<Longrightarrow> distinct (S ! i) \<and> next_positions st ! i \<le> length (S ! i)"
    and represents_done: "i < length S \<Longrightarrow> exhausted st ! i \<Longrightarrow> next_positions st ! i = length (S ! i)"
    and represents_keys: "distinct (map fst (points st))"
    and represents_dom: "fst ` set (points st) = (\<Union>i<length S. set (seen_prefix st S i))"
    and represents_point: "(pid, p) \<in> set (points st) \<Longrightarrow> p = point_of st S pid"
  using assms unfolding represents_def by auto

text \<open>The score a point has once every stream has been read to its end.\<close>

definition final_score :: "nat \<Rightarrow> flt list \<Rightarrow> point_id list list \<Rightarrow> point_id \<Rightarrow> flt" where
  "final_score k ws S pid =
     f_sum F32 (map (\<lambda>i. unwrap_or (contribution_at k (ws ! i) (S ! i) pid) (Fin 0)) [0..<length S])"

definition reference_order :: "nat \<Rightarrow> flt list \<Rightarrow> point_id list list \<Rightarrow> point_id list" where
  "reference_order k ws S =
     map snd (sort_by ranks_before (map (\<lambda>pid. (final_score k ws S pid, pid))
       (filter (\<lambda>pid. Fin 0 < final_score k ws S pid) (remdups (concat S)))))"

lemma final_score_nonneg:
  assumes "1 \<le> k" "\<forall>w\<in>set ws. valid_weight w" "length S = length ws"
  shows "f_nonneg (final_score k ws S pid)"
  unfolding final_score_def
  by (rule f_sum_nonneg) (use assms in \<open>auto intro!: contribution_at_nonneg\<close>)

lemma represents_exhausted_prefix:
  "represents st S \<Longrightarrow> i < length S \<Longrightarrow> exhausted st ! i \<Longrightarrow> seen_prefix st S i = S ! i"
  by (simp add: represents_def seen_prefix_def)

lemma unwrap_or_simps [simp]: "unwrap_or (Some x) d = x" "unwrap_or None d = d"
  by (simp_all add: unwrap_or_def)

lemma contribution_seen:
  assumes "contribution_at k w (take n xs) pid = Some c"
  shows "contribution_at k w xs pid = Some c"
  using assms by (auto simp: contribution_at_def rank_of_take split: option.splits if_splits)

lemma contribution_unseen_le:
  assumes "1 \<le> k" "valid_weight w" "contribution_at k w (take n xs) pid = None"
  shows "unwrap_or (contribution_at k w xs pid) (Fin 0) \<le> position_score n k w"
proof (cases "rank_of xs pid")
  case None
  then show ?thesis
    using position_score_nonneg [OF assms(1,2)] by (simp add: contribution_at_def f_nonneg_def)
next
  case (Some j)
  with assms(3) have "n \<le> j"
    unfolding contribution_at_def rank_of_take by (auto split: if_splits)
  with Some show ?thesis
    using position_score_antimono [OF assms(1,2)] by (simp add: contribution_at_def)
qed


section \<open>The bounds enclose the final score\<close>

lemma next_contributions_nth:
  "i < length (weights st) \<Longrightarrow> next_contributions st ! i =
     (if exhausted st ! i then Fin 0 else position_score (next_positions st ! i) (rrf_k st) (weights st ! i))"
  by (simp add: next_contributions_def next_possible_contribution_def)

lemma length_next_contributions [simp]: "length (next_contributions st) = length (weights st)"
  by (simp add: next_contributions_def)

lemma next_contributions_nonneg:
  assumes "wf_config st"
  shows "\<forall>x\<in>set (next_contributions st). f_nonneg x"
proof
  fix x assume "x \<in> set (next_contributions st)"
  then obtain i where i: "i < length (weights st)" "x = next_contributions st ! i"
    by (auto simp: in_set_conv_nth)
  with assms have "1 \<le> rrf_k st" "valid_weight (weights st ! i)" by (auto simp: wf_config_def)
  with i show "f_nonneg x" by (simp add: next_contributions_nth position_score_nonneg)
qed

lemma f_sum_map_mono:
  assumes "\<And>i. i < n \<Longrightarrow> f i \<le> g i" "\<And>i. i < n \<Longrightarrow> f_nonneg (f i)" "\<And>i. i < n \<Longrightarrow> g i \<noteq> NaN"
  shows "f_sum F32 (map f [0..<n]) \<le> f_sum F32 (map g [0..<n])"
  by (rule f_sum_mono) (use assms in \<open>auto simp: list_all2_conv_all_nth\<close>)

lemma lower_bound_point_of:
  "lower_bound (point_of st S pid) =
     f_sum F32 (map (\<lambda>i. unwrap_or (contribution_at (rrf_k st) (weights st ! i) (seen_prefix st S i) pid) (Fin 0))
       [0..<length (weights st)])"
  by (simp add: lower_bound_def point_of_def comp_def)

lemma upper_bound_point_of:
  "upper_bound (next_contributions st) (point_of st S pid) =
     f_sum F32 (map (\<lambda>i. unwrap_or (contribution_at (rrf_k st) (weights st ! i) (seen_prefix st S i) pid)
       (next_contributions st ! i)) [0..<length (weights st)])"
proof -
  have "map (\<lambda>(c, nx). unwrap_or c nx) (zip (contributions (point_of st S pid)) (next_contributions st)) =
    map (\<lambda>i. unwrap_or (contribution_at (rrf_k st) (weights st ! i) (seen_prefix st S i) pid)
       (next_contributions st ! i)) [0..<length (weights st)]"
    by (rule nth_equalityI) (auto simp: point_of_def)
  then show ?thesis by (simp only: upper_bound_def)
qed

lemma contribution_term_bounds:
  fixes pid :: point_id
  assumes rep: "represents st S" and i: "i < length (weights st)"
  defines "seen \<equiv> contribution_at (rrf_k st) (weights st ! i) (seen_prefix st S i) pid"
    and "final \<equiv> unwrap_or (contribution_at (rrf_k st) (weights st ! i) (S ! i) pid) (Fin 0)"
  shows "unwrap_or seen (Fin 0) \<le> final" and "final \<le> unwrap_or seen (next_contributions st ! i)"
    and "f_nonneg (unwrap_or seen (Fin 0))" and "f_nonneg final"
    and "unwrap_or seen (next_contributions st ! i) \<noteq> NaN"
proof -
  have k: "1 \<le> rrf_k st" and w: "valid_weight (weights st ! i)"
    using represents_wf [OF rep] i by (auto simp: wf_config_def)
  show nn: "f_nonneg (unwrap_or seen (Fin 0))" "f_nonneg final"
    unfolding seen_def final_def using k w by (auto intro: contribution_at_nonneg)
  show "unwrap_or seen (Fin 0) \<le> final"
  proof (cases seen)
    case None
    then show ?thesis using nn by (simp add: f_nonneg_def)
  next
    case (Some c)
    then have "final = c" unfolding seen_def final_def seen_prefix_def by (auto dest: contribution_seen)
    with Some show ?thesis by simp
  qed
  have nx: "f_nonneg (next_contributions st ! i)"
    using i next_contributions_nonneg [OF represents_wf [OF rep]] by simp
  show "unwrap_or seen (next_contributions st ! i) \<noteq> NaN"
    using nx nn by (cases seen) auto
  show "final \<le> unwrap_or seen (next_contributions st ! i)"
  proof (cases seen)
    case (Some c)
    then have "final = c" unfolding seen_def final_def seen_prefix_def by (auto dest: contribution_seen)
    with Some show ?thesis by simp
  next
    case None
    show ?thesis
    proof (cases "exhausted st ! i")
      case True
      with rep i have "seen_prefix st S i = S ! i"
        by (intro represents_exhausted_prefix) (auto simp: represents_length)
      with None have "final = Fin 0" unfolding seen_def final_def by (metis unwrap_or_simps(2))
      with None nx show ?thesis by (simp add: f_nonneg_def)
    next
      case False
      have "final \<le> position_score (next_positions st ! i) (rrf_k st) (weights st ! i)"
        unfolding final_def using k w None [unfolded seen_def seen_prefix_def] by (rule contribution_unseen_le)
      with None False i show ?thesis by (simp add: next_contributions_nth)
    qed
  qed
qed

lemma lower_bound_le_final:
  assumes rep: "represents st S"
  shows "lower_bound (point_of st S pid) \<le> final_score (rrf_k st) (weights st) S pid"
proof -
  have len: "length S = length (weights st)" by (rule represents_length [OF rep])
  show ?thesis unfolding lower_bound_point_of final_score_def len
    by (rule f_sum_map_mono)
      (erule contribution_term_bounds [OF rep] contribution_term_bounds(4) [OF rep, THEN f_nonneg_notNaN])+
qed

lemma final_le_upper_bound:
  assumes rep: "represents st S"
  shows "final_score (rrf_k st) (weights st) S pid \<le> upper_bound (next_contributions st) (point_of st S pid)"
proof -
  have len: "length S = length (weights st)" by (rule represents_length [OF rep])
  show ?thesis unfolding upper_bound_point_of final_score_def len
    by (rule f_sum_map_mono) (erule contribution_term_bounds [OF rep])+
qed

lemma final_le_unseen_bound:
  assumes rep: "represents st S" and new: "pid \<notin> fst ` set (points st)"
  shows "final_score (rrf_k st) (weights st) S pid \<le> f_sum F32 (next_contributions st)"
proof -
  have len: "length S = length (weights st)" by (rule represents_length [OF rep])
  have none: "contribution_at (rrf_k st) (weights st ! i) (seen_prefix st S i) pid = None"
    if "i < length (weights st)" for i
    using represents_dom [OF rep] new that len by auto
  have "final_score (rrf_k st) (weights st) S pid \<le> f_sum F32 (map ((!) (next_contributions st)) [0..<length (weights st)])"
    unfolding final_score_def len
  proof (rule f_sum_map_mono)
    fix i assume i: "i < length (weights st)"
    show "unwrap_or (contribution_at (rrf_k st) (weights st ! i) (S ! i) pid) (Fin 0) \<le> next_contributions st ! i"
      using contribution_term_bounds(2) [OF rep i, of pid] none [OF i] by simp
    show "f_nonneg (unwrap_or (contribution_at (rrf_k st) (weights st ! i) (S ! i) pid) (Fin 0))"
      by (rule contribution_term_bounds(4) [OF rep i])
    show "next_contributions st ! i \<noteq> NaN"
      using contribution_term_bounds(5) [OF rep i, of pid] none [OF i] by simp
  qed
  also have "map ((!) (next_contributions st)) [0..<length (weights st)] = next_contributions st"
    by (metis length_next_contributions map_nth)
  finally show ?thesis .
qed

section \<open>Winners that are fixed form the head of the reference order\<close>

lemma list_ex_enumerate:
  "list_ex (\<lambda>(j, x). P j x) (List.enumerate 0 xs) \<longleftrightarrow> (\<exists>j<length xs. P j (xs ! j))"
  by (auto simp: list_ex_iff in_set_enumerate_eq Bex_def)

lemma guaranteed_before_ranks:
  assumes "guaranteed_before w wl x xu" "wl \<le> fw" "fx \<le> xu"
  shows "ranks_before (fw, w) (fx, x)"
  using assms by (fastforce simp: guaranteed_before_def f_lt_def f_eq_def ranks_before_def)

lemma min_winner_order:
  "total_rank (\<lambda>a b. is_le (rrf_order (fst a) (fst (snd a)) (fst b) (fst (snd b))))"
  by unfold_locales (auto simp: rank_simps ranks_before_def)

lemma fix_winners_prefix:
  assumes "fix_winners n u rem fixed = Some out" "distinct (map fst rem)" "u \<noteq> NaN"
    and "\<forall>(i, l, h)\<in>set rem. l \<noteq> NaN \<and> l \<le> F i \<and> F i \<le> h"
  shows "\<exists>ws. out = fixed @ ws \<and> length ws = n \<and> distinct ws \<and> set ws \<subseteq> fst ` set rem \<and>
           (\<forall>w\<in>set ws. u < F w) \<and> sorted_wrt (\<lambda>a b. ranks_before (F a, a) (F b, b)) ws \<and>
           (\<forall>w\<in>set ws. \<forall>x\<in>fst ` set rem - set ws. ranks_before (F w, w) (F x, x))"
  using assms
proof (induction n arbitrary: rem fixed)
  case 0
  then show ?case by simp
next
  case (Suc n)
  let ?le = "\<lambda>a b. is_le (rrf_order (fst a) (fst (snd a)) (fst b) (fst (snd b)))"
  obtain wi where wi: "min_index_by ?le rem = Some wi"
    using Suc.prems(1) by (auto split: option.splits)
  then have lt: "wi < length rem" by (rule min_index_by_less)
  obtain w l h where w: "rem ! wi = (w, l, h)" by (metis prod_cases3)
  let ?rem = "swap_remove wi rem"
  from Suc.prems(1) wi w have unseen: "\<not> f_le l u"
    and chal: "\<not> (\<exists>j<length rem. j \<noteq> wi \<and> \<not> guaranteed_before w l (fst (rem ! j)) (snd (snd (rem ! j))))"
    and rest: "fix_winners n u ?rem (fixed @ [w]) = Some out"
    by (auto simp: Let_def list_ex_enumerate split: if_splits)
  have ms: "mset rem = add_mset (w, l, h) (mset ?rem)" using mset_swap_remove [OF lt] w by simp
  then have sets: "set rem = insert (w, l, h) (set ?rem)"
    by (metis set_mset_add_mset_insert set_mset_mset)
  have dist: "distinct (map fst ?rem)" and wnew: "w \<notin> fst ` set ?rem"
  proof -
    have "mset (map fst rem) = mset (w # map fst ?rem)" using ms by simp
    then have "distinct (w # map fst ?rem)" using Suc.prems(2) mset_eq_imp_distinct_iff by blast
    then show "distinct (map fst ?rem)" "w \<notin> fst ` set ?rem" by auto
  qed
  have fw: "l \<noteq> NaN" "l \<le> F w" using Suc.prems(4) sets by auto
  have uw: "u < F w" using unseen fw Suc.prems(3) by (auto simp: f_le_def)
  have before: "ranks_before (F w, w) (F x, x)" if "x \<in> fst ` set ?rem" for x
  proof -
    from that obtain lx hx where x: "(x, lx, hx) \<in> set ?rem" by auto
    with sets have "(x, lx, hx) \<in> set rem" by simp
    then obtain j where j: "j < length rem" "rem ! j = (x, lx, hx)" by (auto simp: in_set_conv_nth)
    have "x \<noteq> w" using that wnew by metis
    then have "j \<noteq> wi" using j w by auto
    with chal j have "guaranteed_before w l x hx" by auto
    moreover have "F x \<le> hx" using Suc.prems(4) \<open>(x, lx, hx) \<in> set rem\<close> by auto
    ultimately show ?thesis using fw guaranteed_before_ranks by blast
  qed
  from Suc.IH [OF rest dist Suc.prems(3)] Suc.prems(4) sets
  obtain ws where ws: "out = (fixed @ [w]) @ ws" "length ws = n" "distinct ws" "set ws \<subseteq> fst ` set ?rem"
    "\<forall>w\<in>set ws. u < F w" "sorted_wrt (\<lambda>a b. ranks_before (F a, a) (F b, b)) ws"
    "\<forall>w\<in>set ws. \<forall>x\<in>fst ` set ?rem - set ws. ranks_before (F w, w) (F x, x)"
    by auto
  have fsts: "fst ` set rem = insert w (fst ` set ?rem)" using sets by simp
  show ?case
  proof (intro exI [of _ "w # ws"] conjI)
    show "sorted_wrt (\<lambda>a b. ranks_before (F a, a) (F b, b)) (w # ws)"
      unfolding sorted_wrt.simps using ws(4,6) before by blast
    show "\<forall>v\<in>set (w # ws). \<forall>x\<in>fst ` set rem - set (w # ws). ranks_before (F v, v) (F x, x)"
      unfolding fsts list.set using ws(7) before by blast
    show "\<forall>v\<in>set (w # ws). u < F v" using ws(5) uw by simp
    show "distinct (w # ws)" using ws(3,4) wnew by auto
    show "set (w # ws) \<subseteq> fst ` set rem" unfolding fsts using ws(4) by auto
  qed (use ws in simp_all)
qed


lemma set_concat_nth: "set (concat xss) = (\<Union>i<length xss. set (xss ! i))"
  by (auto simp: set_conv_nth [of xss])

lemma reference_order_prefix:
  assumes ws: "distinct ws" "set ws \<subseteq> {pid \<in> set (concat S). Fin 0 < final_score k w S pid}"
    and sorted: "sorted_wrt (\<lambda>a b. ranks_before (final_score k w S a, a) (final_score k w S b, b)) ws"
    and before: "\<And>x y. x \<in> set ws \<Longrightarrow> y \<in> set (concat S) \<Longrightarrow> Fin 0 < final_score k w S y \<Longrightarrow> y \<notin> set ws \<Longrightarrow>
                  ranks_before (final_score k w S x, x) (final_score k w S y, y)"
  shows "take (length ws) (reference_order k w S) = ws"
proof -
  let ?F = "final_score k w S" and ?p = "\<lambda>pid. (final_score k w S pid, pid)"
  let ?A = "filter (\<lambda>pid. Fin 0 < ?F pid) (remdups (concat S))"
  let ?rest = "filter (\<lambda>pid. pid \<notin> set ws) ?A"
  have "mset ?A = mset (ws @ ?rest)"
    by (rule set_eq_iff_mset_eq_distinct [THEN iffD1]) (use ws in auto)
  then have "mset (map ?p ?A) = mset (map ?p ws @ sort_by ranks_before (map ?p ?rest))"
    unfolding mset_map [of ?p ?A] by (simp only: mset_map mset_append mset_sort_by image_mset_union)
  moreover have "sorted_wrt ranks_before (map ?p ws @ sort_by ranks_before (map ?p ?rest))"
    using sorted before by (auto simp: sorted_wrt_append sorted_wrt_map intro: ranks_before.sorted_sort_by)
  ultimately have "take (length (map ?p ws)) (sort_by ranks_before (map ?p ?A)) = map ?p ws"
    by (intro ranks_before.sort_by_prefix) auto
  then show ?thesis
    by (simp add: reference_order_def take_map comp_def)
qed

lemma sort_by_rrf_order:
  "map fst (sort_by (\<lambda>l r. is_le (rrf_order (fst l) (snd l) (fst r) (snd r))) (map (\<lambda>pid. (pid, f pid)) xs))
    = map snd (sort_by ranks_before (map (\<lambda>pid. (f pid, pid)) xs))"
proof -
  let ?le = "\<lambda>l r. is_le (rrf_order (fst l) (snd l) (fst r) (snd r))"
  have ins: "insert_by ?le (snd x, fst x) (map prod.swap ys) = map prod.swap (insert_by ranks_before x ys)"
    for x :: "flt \<times> point_id" and ys
    by (induction ys) (auto simp: rank_simps prod.swap_def)
  have "sort_by ?le (map (\<lambda>pid. (pid, f pid)) xs) = map prod.swap (sort_by ranks_before (map (\<lambda>pid. (f pid, pid)) xs))"
    by (induction xs) (use ins in force)+
  then show ?thesis by (simp add: comp_def)
qed

lemma complete_order_reference:
  assumes rep: "represents st S" and fin: "all_sources_exhausted st"
  shows "complete_order st = reference_order (rrf_k st) (weights st) S"
proof -
  let ?F = "final_score (rrf_k st) (weights st) S"
  have len: "length S = length (weights st)" by (rule represents_length [OF rep])
  have ex: "exhausted st ! i" if "i < length S" for i
    using fin that len represents_wf [OF rep] by (simp add: all_sources_exhausted_def list_all_length wf_config_def)
  have full: "seen_prefix st S i = S ! i" if "i < length S" for i
    using represents_exhausted_prefix [OF rep that ex [OF that]] .
  have score: "lower_bound p = ?F pid" if "(pid, p) \<in> set (points st)" for pid p
    unfolding represents_point [OF rep that] lower_bound_point_of final_score_def len
    using full len by (intro arg_cong [where f = "f_sum F32"] map_cong) auto
  have keys: "set (map fst (points st)) = set (concat S)"
    using represents_dom [OF rep] full by (simp add: set_concat_nth del: set_concat)
  have pos: "f_lt (Fin 0) (?F pid) \<longleftrightarrow> Fin 0 < ?F pid" for pid
    using final_score_nonneg [of "rrf_k st" "weights st" S pid] represents_wf [OF rep] len
    by (auto simp: f_lt_def wf_config_def)
  let ?p = "\<lambda>pid. (?F pid, pid)"
  let ?L = "filter (\<lambda>(_, score). f_lt (Fin 0) score) (map (\<lambda>(pid, p). (pid, lower_bound p)) (points st))"
  have L: "?L = map (\<lambda>pid. (pid, ?F pid)) (filter (\<lambda>pid. Fin 0 < ?F pid) (map fst (points st)))"
  proof -
    have "map (\<lambda>(pid, p). (pid, lower_bound p)) (points st) = map (\<lambda>pid. (pid, ?F pid)) (map fst (points st))"
      using score by auto
    then show ?thesis by (simp only: filter_map comp_def pos prod.case)
  qed
  have "mset (filter (\<lambda>pid. Fin 0 < ?F pid) (map fst (points st)))
      = mset (filter (\<lambda>pid. Fin 0 < ?F pid) (remdups (concat S)))"
    by (rule set_eq_iff_mset_eq_distinct [THEN iffD1]) (use keys represents_keys [OF rep] in auto)
  then have "sort_by ranks_before (map ?p (filter (\<lambda>pid. Fin 0 < ?F pid) (map fst (points st))))
      = sort_by ranks_before (map ?p (filter (\<lambda>pid. Fin 0 < ?F pid) (remdups (concat S))))"
    by (intro ranks_before.sort_by_mset) simp
  then show ?thesis
    unfolding complete_order_def L sort_by_rrf_order reference_order_def by simp
qed

lemma fixed_top_k_prefix:
  assumes rep: "represents st S" and fixed: "fixed_top_k st = Some ids"
  shows "ids = take (top_k st) (reference_order (rrf_k st) (weights st) S)"
proof (cases "top_k st = 0 \<or> all_sources_exhausted st")
  case True
  with fixed complete_order_reference [OF rep] show ?thesis
    by (auto simp: fixed_top_k_def Let_def split: if_splits)
next
  case False
  let ?F = "final_score (rrf_k st) (weights st) S" and ?nx = "next_contributions st"
  let ?rem = "map (\<lambda>(pid, p). (pid, lower_bound p, upper_bound ?nx p)) (points st)"
  have nn: "f_nonneg (f_sum F32 ?nx)"
    using next_contributions_nonneg [OF represents_wf [OF rep]] by (intro f_sum_nonneg) auto
  from False fixed have run: "fix_winners (top_k st) (f_sum F32 ?nx) ?rem [] = Some ids"
    by (auto simp: fixed_top_k_def Let_def split: if_splits)
  have fsts: "map fst ?rem = map fst (points st)" by (simp add: case_prod_beta comp_def)
  have bounds: "\<forall>(i, l, h)\<in>set ?rem. l \<noteq> NaN \<and> l \<le> ?F i \<and> ?F i \<le> h"
  proof (clarsimp, intro conjI)
    fix pid p assume "(pid, p) \<in> set (points st)"
    then have p: "p = point_of st S pid" by (rule represents_point [OF rep])
    show "lower_bound p \<le> ?F pid" "?F pid \<le> upper_bound ?nx p"
      unfolding p using rep by (rule lower_bound_le_final, rule final_le_upper_bound)
    have "?F pid \<noteq> NaN"
      using final_score_nonneg [of "rrf_k st" "weights st" S pid] represents_wf [OF rep] represents_length [OF rep]
      by (auto simp: wf_config_def)
    then show "lower_bound p \<noteq> NaN" using \<open>lower_bound p \<le> ?F pid\<close> by auto
  qed
  have dist: "distinct (map fst ?rem)" unfolding fsts by (rule represents_keys [OF rep])
  from fix_winners_prefix [OF run dist f_nonneg_notNaN [OF nn] bounds]
  obtain ws where ws: "ids = [] @ ws" "length ws = top_k st" "distinct ws" "set ws \<subseteq> fst ` set ?rem"
    "\<forall>w\<in>set ws. f_sum F32 ?nx < ?F w" "sorted_wrt (\<lambda>a b. ranks_before (?F a, a) (?F b, b)) ws"
    "\<forall>w\<in>set ws. \<forall>x\<in>fst ` set ?rem - set ws. ranks_before (?F w, w) (?F x, x)"
    by blast
  have rem: "fst ` set ?rem = fst ` set (points st)" using fsts by (metis list.set_map)
  have "take (length ws) (reference_order (rrf_k st) (weights st) S) = ws"
  proof (rule reference_order_prefix)
    show "set ws \<subseteq> {pid \<in> set (concat S). Fin 0 < ?F pid}"
    proof
      fix x assume x: "x \<in> set ws"
      with ws(4) rem represents_dom [OF rep] obtain i where "i < length S" "x \<in> set (seen_prefix st S i)" by auto
      then have "x \<in> set (concat S)" unfolding set_concat_nth by (auto simp: seen_prefix_def dest: in_set_takeD)
      moreover have "Fin 0 < ?F x" using ws(5) x nn by (auto simp: f_nonneg_def)
      ultimately show "x \<in> {pid \<in> set (concat S). Fin 0 < ?F pid}" by simp
    qed
    fix x y assume x: "x \<in> set ws" and y: "y \<in> set (concat S)" "y \<notin> set ws"
    show "ranks_before (?F x, x) (?F y, y)"
    proof (cases "y \<in> fst ` set (points st)")
      case True
      with ws(7) x y rem show ?thesis by auto
    next
      case False
      with rep have "?F y \<le> f_sum F32 ?nx" by (rule final_le_unseen_bound)
      with ws(5) x show ?thesis by (auto simp: ranks_before_def)
    qed
  qed (use ws in auto)
  with ws show ?thesis by simp
qed

section \<open>Observing ranks keeps the representation\<close>

lemma point_entry_represents:
  assumes rep: "represents st S"
  shows "point_entry st pid = point_of st S pid"
proof (cases "map_of (points st) pid")
  case (Some p)
  then show ?thesis using represents_point [OF rep] map_of_SomeD by (fastforce simp: point_entry_def)
next
  case None
  then have "pid \<notin> set (seen_prefix st S i)" if "i < length (weights st)" for i
    using that represents_dom [OF rep] represents_length [OF rep] by (auto simp: map_of_eq_None_iff)
  then have "map (\<lambda>i. contribution_at (rrf_k st) (weights st ! i) (seen_prefix st S i) pid) [0..<length (weights st)]
      = replicate (length (weights st)) None"
    by (intro nth_equalityI) auto
  with None show ?thesis by (simp add: point_entry_def point_of_def)
qed

lemma observe_eq:
  assumes "source < length (weights st)" "\<not> exhausted st ! source"
    and "contributions (point_entry st pid) ! source = None"
  shows "observe st source pid = Inr ((set_contribution source
           (position_score (next_positions st ! source) (rrf_k st) (weights st ! source)) pid st)
             \<lparr>next_positions := (next_positions st)[source := Suc (next_positions st ! source)]\<rparr>)"
  using assms by (simp add: observe_def)

lemma seen_prefix_observe:
  assumes "i < length S" "source < length (next_positions st)" "next_positions st ! source < length (S ! source)"
    and "next_positions st' = (next_positions st)[source := Suc (next_positions st ! source)]"
  shows "seen_prefix st' S i =
    (if i = source then seen_prefix st S i @ [S ! source ! (next_positions st ! source)] else seen_prefix st S i)"
  using assms by (simp add: seen_prefix_def take_Suc_conv_app_nth nth_list_update)

lemma unseen_next:
  assumes rep: "represents st S" and source: "source < length (weights st)"
    and nxt: "next_positions st ! source < length (S ! source)"
  shows "S ! source ! (next_positions st ! source) \<notin> set (seen_prefix st S source)"
  using represents_stream [OF rep, of source] represents_length [OF rep] source nxt
  by (auto simp: seen_prefix_def in_set_conv_nth nth_eq_iff_index_eq)

lemma observe_next:
  assumes rep: "represents st S" and source: "source < length (weights st)" "\<not> exhausted st ! source"
    and nxt: "next_positions st ! source < length (S ! source)"
    and pid: "pid = S ! source ! (next_positions st ! source)"
  obtains st' where "observe st source pid = Inr st'" "represents st' S"
    "rrf_k st' = rrf_k st" "top_k st' = top_k st" "weights st' = weights st" "exhausted st' = exhausted st"
    "next_positions st' = (next_positions st)[source := Suc (next_positions st ! source)]"
proof -
  let ?c = "position_score (next_positions st ! source) (rrf_k st) (weights st ! source)"
  define st' where "st' = (set_contribution source ?c pid st)
    \<lparr>next_positions := (next_positions st)[source := Suc (next_positions st ! source)]\<rparr>"
  have len: "length S = length (weights st)" by (rule represents_length [OF rep])
  have wf: "wf_config st" by (rule represents_wf [OF rep])
  have new: "pid \<notin> set (seen_prefix st S source)" unfolding pid using rep source(1) nxt by (rule unseen_next)
  have same: "rrf_k st' = rrf_k st" "top_k st' = top_k st" "weights st' = weights st" "exhausted st' = exhausted st"
    "next_positions st' = (next_positions st)[source := Suc (next_positions st ! source)]"
    by (simp_all add: st'_def set_contribution_def)
  have run: "observe st source pid = Inr st'"
    unfolding st'_def using source new
    by (intro observe_eq) (simp_all add: point_entry_represents [OF rep] point_of_def)
  have prefix: "seen_prefix st' S i = (if i = source then seen_prefix st S i @ [pid] else seen_prefix st S i)"
    if "i < length S" for i
    unfolding pid using that source(1) nxt same(5) wf by (intro seen_prefix_observe) (auto simp: wf_config_def)
  have pts: "points st' = AList.update pid
      ((point_of st S pid)\<lparr>contributions := (contributions (point_of st S pid))[source := Some ?c]\<rparr>) (points st)"
    by (simp add: st'_def set_contribution_def point_entry_represents [OF rep] Let_def)
  have seen_len: "length (seen_prefix st S source) = next_positions st ! source"
    using nxt by (simp add: seen_prefix_def)
  have point: "point_of st' S q = (if q = pid
      then (point_of st S q)\<lparr>contributions := (contributions (point_of st S q))[source := Some ?c]\<rparr>
      else point_of st S q)" for q
    using source(1) new len
    by (auto simp: point_of_def same prefix contribution_at_def rank_of_snoc seen_len nth_list_update
        intro!: nth_equalityI)
  have "represents st' S"
    unfolding represents_def
  proof (intro conjI)
    show "wf_config st'" using wf same by (simp add: wf_config_def)
    show "length S = length (weights st')" using len same by simp
    show "\<forall>i<length S. distinct (S ! i) \<and> next_positions st' ! i \<le> length (S ! i) \<and>
        (exhausted st' ! i \<longrightarrow> next_positions st' ! i = length (S ! i))"
      using represents_stream [OF rep] represents_done [OF rep] nxt source wf len
      by (auto simp: same nth_list_update wf_config_def)
    show "distinct (map fst (points st'))"
      unfolding pts using represents_keys [OF rep] by (rule distinct_update)
    have "set (map fst (points st')) = insert pid (fst ` set (points st))"
      unfolding pts by (simp add: dom_update)
    also have "\<dots> = (\<Union>i<length S. set (seen_prefix st' S i))"
      unfolding represents_dom [OF rep] using prefix source(1) len by (auto split: if_splits)
    finally show "set (map fst (points st')) = (\<Union>i<length S. set (seen_prefix st' S i))" .
    have "p = point_of st' S q" if "(q, p) \<in> set (points st')" for q p
    proof -
      have "map_of (points st') q = Some p"
        using that \<open>distinct (map fst (points st'))\<close> by simp
      then show ?thesis
        unfolding pts update_conv' point
        by (auto split: if_splits dest: map_of_SomeD represents_point [OF rep])
    qed
    then show "\<forall>(q, p)\<in>set (points st'). p = point_of st' S q" by blast
  qed
  with run same that show thesis by blast
qed

lemma state_new_represents:
  assumes "state_new n topk k ws = Inr st" "length S = n" "\<forall>s\<in>set S. distinct s"
  shows "represents st S"
proof -
  have "length (weights st) = n" "\<forall>x\<in>set (weights st). valid_weight x" "1 \<le> k"
    "st = \<lparr>rrf_k = k, top_k = topk, weights = weights st, next_positions = replicate n 0,
           exhausted = replicate n False, points = []\<rparr>"
    using assms(1)
    by (auto simp: state_new_def rbind_eq_Inr list_ex_iff valid_weight_def f_le_def f_lt_def Suc_le_eq
        split: if_splits option.splits flt.splits)
  then show ?thesis
    using assms(2,3) by (cases st) (simp add: represents_def wf_config_def seen_prefix_def)
qed

lemma finish_source_represents:
  assumes rep: "represents st S" and source: "source < length (weights st)"
    and fin: "next_positions st ! source = length (S ! source)"
  shows "finish_source st source = Inr (st\<lparr>exhausted := (exhausted st)[source := True]\<rparr>)"
    and "represents (st\<lparr>exhausted := (exhausted st)[source := True]\<rparr>) S"
proof -
  have len: "length (exhausted st) = length (weights st)"
    using represents_wf [OF rep] by (simp add: wf_config_def)
  with source show "finish_source st source = Inr (st\<lparr>exhausted := (exhausted st)[source := True]\<rparr>)"
    by (simp add: finish_source_def)
  have "seen_prefix (st\<lparr>exhausted := e\<rparr>) S = seen_prefix st S" "point_of (st\<lparr>exhausted := e\<rparr>) S = point_of st S" for e
    by (simp_all add: seen_prefix_def point_of_def fun_eq_iff)
  moreover have "next_positions st ! i = length (S ! i)" if "i < length S" "(exhausted st)[source := True] ! i" for i
    using that fin represents_done [OF rep] by (cases "i = source") auto
  ultimately show "represents (st\<lparr>exhausted := (exhausted st)[source := True]\<rparr>) S"
    using rep len unfolding represents_def wf_config_def by auto
qed

text \<open>A batch is the same as its identifiers observed one at a time.\<close>

fun observe_all :: "dynamic_rrf_state \<Rightarrow> nat \<Rightarrow> point_id list \<Rightarrow> operation_error + dynamic_rrf_state" where
  "observe_all st source [] = Inr st"
| "observe_all st source (pid # ids) = rbind (observe st source pid) (\<lambda>st'. observe_all st' source ids)"

definition fresh_for :: "dynamic_rrf_state \<Rightarrow> nat \<Rightarrow> point_id \<Rightarrow> bool" where
  "fresh_for st source pid \<longleftrightarrow> contributions (point_entry st pid) ! source = None"

lemma check_batch_ids_None:
  assumes "source < length (weights st)"
  shows "check_batch_ids st source uniq ids = None \<longleftrightarrow>
    distinct ids \<and> set ids \<inter> set uniq = {} \<and> (\<forall>pid\<in>set ids. fresh_for st source pid)"
  using assms
  by (induction ids arbitrary: uniq) (auto simp: fresh_for_def point_entry_def split: option.splits)

lemma fresh_for_set_contribution:
  assumes "source < length (contributions (point_entry st pid))"
  shows "fresh_for (set_contribution source c pid st\<lparr>next_positions := np\<rparr>) source q \<longleftrightarrow> fresh_for st source q \<and> q \<noteq> pid"
proof -
  let ?st = "set_contribution source c pid st\<lparr>next_positions := np\<rparr>"
  have "point_entry ?st q = (if q = pid
    then (point_entry st pid)\<lparr>contributions := (contributions (point_entry st pid))[source := Some c]\<rparr> else point_entry st q)"
    by (cases "q = pid"; cases "map_of (points st) q")
      (simp_all add: point_entry_def set_contribution_def update_conv' Let_def)
  with assms show ?thesis by (simp add: fresh_for_def)
qed

definition wf_points :: "dynamic_rrf_state \<Rightarrow> bool" where
  "wf_points st \<longleftrightarrow> (\<forall>(pid, p)\<in>set (points st). length (contributions p) = length (weights st))"

lemma wf_points_entry: "wf_points st \<Longrightarrow> length (contributions (point_entry st pid)) = length (weights st)"
  by (auto simp: wf_points_def point_entry_def split: option.splits dest!: map_of_SomeD)

lemma in_set_update: "x \<in> set (AList.update k v al) \<Longrightarrow> x \<in> set al \<or> x = (k, v)"
  by (induction al) (auto split: if_splits)

lemma wf_points_set_contribution:
  assumes "wf_points st"
  shows "wf_points (set_contribution source c pid st\<lparr>next_positions := np\<rparr>)"
proof -
  let ?v = "(point_entry st pid)\<lparr>contributions := (contributions (point_entry st pid))[source := Some c]\<rparr>"
  have "length (contributions p) = length (weights st)" if "(q, p) \<in> set (AList.update pid ?v (points st))" for q p
    using in_set_update [OF that] assms wf_points_entry [OF assms] by (auto simp: wf_points_def)
  then show ?thesis by (auto simp: wf_points_def set_contribution_def Let_def)
qed

lemma apply_batch_ids_fields [simp]:
  "rrf_k (apply_batch_ids source rank ids st) = rrf_k st" "top_k (apply_batch_ids source rank ids st) = top_k st"
  "weights (apply_batch_ids source rank ids st) = weights st"
  "next_positions (apply_batch_ids source rank ids st) = next_positions st"
  "exhausted (apply_batch_ids source rank ids st) = exhausted st"
  by (induction ids arbitrary: rank st) (simp_all add: set_contribution_def)

lemma set_contribution_next_positions:
  "set_contribution source c pid (st\<lparr>next_positions := np\<rparr>) = set_contribution source c pid st\<lparr>next_positions := np\<rparr>"
proof -
  have "point_entry (st\<lparr>next_positions := np\<rparr>) pid = point_entry st pid"
    by (cases "map_of (points st) pid") (simp_all add: point_entry_def)
  then show ?thesis by (simp add: set_contribution_def)
qed

lemma apply_batch_ids_next_positions:
  "apply_batch_ids source rank ids (st\<lparr>next_positions := np\<rparr>) = apply_batch_ids source rank ids st\<lparr>next_positions := np\<rparr>"
  by (induction ids arbitrary: rank st) (simp_all add: set_contribution_next_positions)

lemma observe_all_eq:
  assumes "source < length (weights st)" "\<not> exhausted st ! source" "wf_points st"
    "source < length (next_positions st)"
  shows "case observe_all st source ids of
      Inr st' \<Rightarrow> distinct ids \<and> (\<forall>pid\<in>set ids. fresh_for st source pid) \<and>
        st' = (apply_batch_ids source (next_positions st ! source) ids st)
                \<lparr>next_positions := (next_positions st)[source := next_positions st ! source + length ids]\<rparr>
    | Inl _ \<Rightarrow> \<not> (distinct ids \<and> (\<forall>pid\<in>set ids. fresh_for st source pid))"
  using assms
proof (induction ids arbitrary: st)
  case Nil
  then show ?case by simp
next
  case (Cons pid ids)
  show ?case
  proof (cases "fresh_for st source pid")
    case False
    with Cons.prems show ?thesis by (auto simp: observe_def fresh_for_def)
  next
    case True
    let ?c = "position_score (next_positions st ! source) (rrf_k st) (weights st ! source)"
    let ?st = "set_contribution source ?c pid st\<lparr>next_positions := (next_positions st)[source := Suc (next_positions st ! source)]\<rparr>"
    have run: "observe st source pid = Inr ?st"
      using True Cons.prems by (intro observe_eq) (simp_all add: fresh_for_def)
    have fresh: "fresh_for ?st source q \<longleftrightarrow> fresh_for st source q \<and> q \<noteq> pid" for q
      using Cons.prems by (intro fresh_for_set_contribution) (simp add: wf_points_entry)
    have flds: "weights ?st = weights st" "exhausted ?st = exhausted st" "rrf_k ?st = rrf_k st"
      "next_positions ?st = (next_positions st)[source := Suc (next_positions st ! source)]"
      by (simp_all add: set_contribution_def)
    have "case observe_all ?st source ids of
        Inr st' \<Rightarrow> distinct ids \<and> (\<forall>pid\<in>set ids. fresh_for ?st source pid) \<and>
          st' = (apply_batch_ids source (next_positions ?st ! source) ids ?st)
                  \<lparr>next_positions := (next_positions ?st)[source := next_positions ?st ! source + length ids]\<rparr>
      | Inl _ \<Rightarrow> \<not> (distinct ids \<and> (\<forall>pid\<in>set ids. fresh_for ?st source pid))"
      using Cons.prems by (intro Cons.IH wf_points_set_contribution) (simp_all add: set_contribution_def)
    then show ?thesis
      unfolding observe_all.simps run rbind_simps fresh flds apply_batch_ids_next_positions
      using True Cons.prems(4) by (auto split: sum.splits)
  qed
qed

lemma represents_wf_points: "represents st S \<Longrightarrow> wf_points st"
  by (auto simp: wf_points_def point_of_def dest: represents_point)

lemma fresh_for_represents:
  "represents st S \<Longrightarrow> source < length (weights st) \<Longrightarrow>
     fresh_for st source pid \<longleftrightarrow> pid \<notin> set (seen_prefix st S source)"
  by (simp add: fresh_for_def point_entry_represents point_of_def)

lemma observe_batch_observe_all:
  assumes rep: "represents st S" and source: "source < length (weights st)" "\<not> exhausted st ! source"
    and start: "start_rank b = next_positions st ! source" and progress: "point_ids b \<noteq> [] \<or> batch_exhausted b"
    and all: "observe_all st source (point_ids b) = Inr st'"
  shows "observe_batch st source b =
    (if batch_exhausted b then finish_source st' source else Inr st')"
proof -
  have np: "source < length (next_positions st)" "length (exhausted st) = length (weights st)"
    using represents_wf [OF rep] source by (auto simp: wf_config_def)
  from observe_all_eq [OF source represents_wf_points [OF rep] np(1), of "point_ids b"] all
  have st': "distinct (point_ids b)" "\<forall>pid\<in>set (point_ids b). fresh_for st source pid"
    "st' = (apply_batch_ids source (next_positions st ! source) (point_ids b) st)
       \<lparr>next_positions := (next_positions st)[source := next_positions st ! source + length (point_ids b)]\<rparr>"
    by auto
  then have "check_batch_ids st source [] (point_ids b) = None"
    using source by (simp add: check_batch_ids_None)
  with st' source start progress np show ?thesis
    by (auto simp: observe_batch_def finish_source_def Let_def)
qed

lemma observe_all_next:
  assumes "represents st S" "source < length (weights st)" "\<not> exhausted st ! source"
    and "ids = take n (drop (next_positions st ! source) (S ! source))"
  obtains st' where "observe_all st source ids = Inr st'" "represents st' S"
    "rrf_k st' = rrf_k st" "top_k st' = top_k st" "weights st' = weights st" "exhausted st' = exhausted st"
    "next_positions st' = (next_positions st)[source := next_positions st ! source + length ids]"
proof -
  have "\<exists>st'. observe_all st source ids = Inr st' \<and> represents st' S \<and>
    rrf_k st' = rrf_k st \<and> top_k st' = top_k st \<and> weights st' = weights st \<and> exhausted st' = exhausted st \<and>
    next_positions st' = (next_positions st)[source := next_positions st ! source + length ids]"
    using assms
  proof (induction ids arbitrary: st n)
    case Nil
    then show ?case by simp
  next
    case (Cons pid ids)
    let ?np = "next_positions st ! source"
    have "take n (drop ?np (S ! source)) \<noteq> []" using Cons.prems(4) by (metis list.distinct(1))
    then have lt: "?np < length (S ! source)" and n: "0 < n" by auto
    then have split: "pid = S ! source ! ?np" "ids = take (n - 1) (drop (Suc ?np) (S ! source))"
      using Cons.prems(4) by (auto simp: Cons_nth_drop_Suc [symmetric] take_Cons')
    obtain st1 where st1: "observe st source pid = Inr st1" "represents st1 S"
      "rrf_k st1 = rrf_k st" "top_k st1 = top_k st" "weights st1 = weights st" "exhausted st1 = exhausted st"
      "next_positions st1 = (next_positions st)[source := Suc ?np]"
      using observe_next [OF Cons.prems(1-3) lt split(1)] by blast
    have np: "source < length (next_positions st)"
      using represents_wf [OF Cons.prems(1)] Cons.prems(2) by (simp add: wf_config_def)
    have "\<exists>st'. observe_all st1 source ids = Inr st' \<and> represents st' S \<and>
      rrf_k st' = rrf_k st1 \<and> top_k st' = top_k st1 \<and> weights st' = weights st1 \<and> exhausted st' = exhausted st1 \<and>
      next_positions st' = (next_positions st1)[source := next_positions st1 ! source + length ids]"
      using Cons.prems(2,3) st1 split(2) np by (intro Cons.IH [where n = "n - 1"]) simp_all
    then show ?case using st1 np by auto
  qed
  with that show thesis by blast
qed

lemma observe_batch_next:
  assumes rep: "represents st S" and source: "source < length (weights st)" "\<not> exhausted st ! source"
    and start: "start_rank b = next_positions st ! source" and progress: "point_ids b \<noteq> [] \<or> batch_exhausted b"
    and ids: "point_ids b = take n (drop (next_positions st ! source) (S ! source))"
    and fin: "batch_exhausted b \<Longrightarrow> next_positions st ! source + length (point_ids b) = length (S ! source)"
  obtains st' where "observe_batch st source b = Inr st'" "represents st' S"
    "rrf_k st' = rrf_k st" "top_k st' = top_k st" "weights st' = weights st"
    "exhausted st' = (if batch_exhausted b then (exhausted st)[source := True] else exhausted st)"
    "next_positions st' = (next_positions st)[source := next_positions st ! source + length (point_ids b)]"
proof -
  obtain st1 where st1: "observe_all st source (point_ids b) = Inr st1" "represents st1 S"
    "rrf_k st1 = rrf_k st" "top_k st1 = top_k st" "weights st1 = weights st" "exhausted st1 = exhausted st"
    "next_positions st1 = (next_positions st)[source := next_positions st ! source + length (point_ids b)]"
    using observe_all_next [OF rep source ids] by blast
  have np: "source < length (next_positions st)"
    using represents_wf [OF rep] source by (simp add: wf_config_def)
  note run = observe_batch_observe_all [OF rep source start progress st1(1)]
  show thesis
  proof (cases "batch_exhausted b")
    case True
    then show ?thesis
      using run finish_source_represents [OF st1(2), of source] fin source st1 np by (intro that [of "st1\<lparr>exhausted := (exhausted st1)[source := True]\<rparr>"]) simp_all
  next
    case False
    then show ?thesis using run st1 by (intro that) simp_all
  qed
qed

lemma represents_change:
  assumes rep: "represents st S" and i: "i < length S" "\<not> exhausted st ! i"
    and s: "distinct s" "take (next_positions st ! i) s = seen_prefix st S i" "next_positions st ! i \<le> length s"
  shows "represents st (S[i := s])"
proof -
  have seen: "seen_prefix st (S[i := s]) j = seen_prefix st S j" for j
    using i s by (cases "i = j") (auto simp: seen_prefix_def)
  then have pt: "point_of st (S[i := s]) = point_of st S" by (simp add: point_of_def fun_eq_iff)
  have "distinct (S[i := s] ! j) \<and> next_positions st ! j \<le> length (S[i := s] ! j) \<and>
        (exhausted st ! j \<longrightarrow> next_positions st ! j = length (S[i := s] ! j))" if "j < length S" for j
    using that i s represents_stream [OF rep that] represents_done [OF rep that] by (cases "i = j") auto
  with rep show ?thesis unfolding represents_def seen pt by simp
qed

lemma observe_batch_accepted:
  assumes rep: "represents st S" and run: "observe_batch st source b = Inr st'"
  shows "represents st' (S[source := seen_prefix st S source @ point_ids b])"
proof -
  have g: "source < length (weights st)" "\<not> exhausted st ! source" "start_rank b = next_positions st ! source"
    "point_ids b \<noteq> [] \<or> batch_exhausted b" "check_batch_ids st source [] (point_ids b) = None"
    using run by (auto simp: observe_batch_def split: if_splits option.splits)
  have len: "length S = length (weights st)" by (rule represents_length [OF rep])
  have str: "distinct (S ! source)" "next_positions st ! source \<le> length (S ! source)"
    using represents_stream [OF rep, of source] g len by auto
  then have plen: "length (seen_prefix st S source) = next_positions st ! source" by (simp add: seen_prefix_def)
  let ?s = "seen_prefix st S source @ point_ids b" let ?S = "S[source := ?s]"
  have "distinct ?s"
    using g str fresh_for_represents [OF rep g(1)]
    by (auto simp: check_batch_ids_None) (simp_all add: seen_prefix_def)
  then have rep': "represents st ?S"
    using g len plen by (intro represents_change [OF rep]) simp_all
  have at: "?S ! source = ?s" using g len by simp
  obtain st'' where "observe_batch st source b = Inr st''" "represents st'' ?S"
    by (rule observe_batch_next [OF rep' g(1-4), where n = "length (point_ids b)"])
       (use at plen in simp_all)
  with run show ?thesis by simp
qed

section \<open>The batch reference computes the same order\<close>

lemma map_sort_by: "map f (sort_by (\<lambda>a b. le (f a) (f b)) xs) = sort_by le (map f xs)"
proof -
  have "map f (insert_by (\<lambda>a b. le (f a) (f b)) x ys) = insert_by le (f x) (map f ys)" for x ys
    by (induction ys) auto
  then show ?thesis by (induction xs) simp_all
qed

lemma contribution_at_notin [simp]: "pid \<notin> set xs \<Longrightarrow> contribution_at k w xs pid = None"
  by simp

lemma final_score_snoc:
  "length ws = length S \<Longrightarrow> final_score k (ws @ [w]) (S @ [xs]) pid =
     f_add F32 (final_score k ws S pid) (unwrap_or (contribution_at k w xs pid) (Fin 0))"
  unfolding final_score_def
  by (auto simp: nth_append intro!: arg_cong2 [where f = "f_add F32"] arg_cong [where f = "f_sum F32"])

lemma final_score_is_float: "is_float F32 (final_score k ws S pid)"
  unfolding final_score_def by (rule f_sum_is_float) simp

lemma final_score_snoc_absent:
  "length ws = length S \<Longrightarrow> pid \<notin> set xs \<Longrightarrow> final_score k (ws @ [w]) (S @ [xs]) pid = final_score k ws S pid"
  by (simp add: final_score_snoc f_add_0_right final_score_is_float)

lemma final_score_absent: "length ws = length S \<Longrightarrow> pid \<notin> set (concat S) \<Longrightarrow> final_score k ws S pid = Fin 0"
proof (induction S arbitrary: ws rule: rev_induct)
  case Nil
  then show ?case by (simp add: final_score_def f_sum_nil)
next
  case (snoc xs S)
  obtain ws' w where "ws = ws' @ [w]" using snoc.prems(1) by (cases ws rule: rev_cases) auto
  with snoc show ?case by (simp add: final_score_snoc_absent)
qed

text \<open>The map of \<open>rrf_scoring\<close> after the responses with the identifiers \<open>S\<close>.\<close>

definition accumulated ::
  "nat \<Rightarrow> flt list \<Rightarrow> point_id list list \<Rightarrow> (point_id \<times> 'a scored_point_scheme) list \<Rightarrow> bool" where
  "accumulated k ws S acc \<longleftrightarrow> distinct (map fst acc) \<and> fst ` set acc = set (concat S) \<and>
     (\<forall>(pid, p)\<in>set acc. sp_id p = pid \<and> sp_score p = final_score k ws S pid)"

lemma accumulate_point:
  assumes acc: "accumulated k (ws @ [w]) (S @ [xs]) acc" and len: "length ws = length S"
    and new: "sp_id p \<notin> set xs"
  shows "accumulated k (ws @ [w]) (S @ [xs @ [sp_id p]]) (rrf_accumulate_point p (position_score (length xs) k w) acc)"
proof -
  let ?c = "position_score (length xs) k w" and ?F = "final_score k (ws @ [w]) (S @ [xs])"
  let ?F' = "final_score k (ws @ [w]) (S @ [xs @ [sp_id p]])"
  have score: "?F' q = (if q = sp_id p then f_add F32 (?F q) ?c else ?F q)" for q
    using new len by (simp add: final_score_snoc contribution_at_def rank_of_snoc f_add_0_right final_score_is_float)
  define e where "e = (case map_of acc (sp_id p) of Some e \<Rightarrow> e\<lparr>sp_score := f_add F32 (sp_score e) ?c\<rparr>
    | None \<Rightarrow> p\<lparr>sp_score := ?c\<rparr>)"
  have upd: "rrf_accumulate_point p ?c acc = AList.update (sp_id p) e acc"
    by (simp add: rrf_accumulate_point_def e_def split: option.splits)
  have e: "sp_id e = sp_id p \<and> sp_score e = ?F' (sp_id p)"
  proof (cases "map_of acc (sp_id p)")
    case (Some e')
    then have "sp_id e' = sp_id p \<and> sp_score e' = ?F (sp_id p)"
      using acc map_of_SomeD [OF Some] unfolding accumulated_def by fast
    with Some show ?thesis by (simp add: e_def score)
  next
    case None
    then have "?F (sp_id p) = Fin 0"
      using acc len by (intro final_score_absent) (auto simp: accumulated_def map_of_eq_None_iff)
    with None show ?thesis by (simp add: e_def score f_add_0_left position_score_is_float)
  qed
  have dist: "distinct (map fst (AList.update (sp_id p) e acc))"
    using acc by (intro distinct_update) (simp add: accumulated_def)
  have "sp_id x = q \<and> sp_score x = ?F' q" if "(q, x) \<in> set (AList.update (sp_id p) e acc)" for q x
  proof -
    have "map_of (AList.update (sp_id p) e acc) q = Some x" using that dist by simp
    then have "q = sp_id p \<and> x = e \<or> q \<noteq> sp_id p \<and> (q, x) \<in> set acc"
      unfolding update_conv' by (auto split: if_splits dest: map_of_SomeD)
    then show ?thesis
    proof
      assume "q \<noteq> sp_id p \<and> (q, x) \<in> set acc"
      then have "sp_id x = q \<and> sp_score x = ?F q" "q \<noteq> sp_id p" using acc unfolding accumulated_def by auto
      then show ?thesis unfolding score by simp
    qed (use e in simp)
  qed
  with dist acc show ?thesis
    unfolding upd by (auto simp: accumulated_def dom_update)
qed

lemma accumulate_response:
  assumes "accumulated k (ws @ [w]) (S @ [xs]) acc" "length ws = length S" "distinct (xs @ map sp_id response)"
  shows "accumulated k (ws @ [w]) (S @ [xs @ map sp_id response])
    (rrf_accumulate_response k w (length xs) response acc)"
  using assms
proof (induction response arbitrary: xs acc)
  case (Cons p response)
  have "accumulated k (ws @ [w]) (S @ [xs @ [sp_id p]]) (rrf_accumulate_point p (position_score (length xs) k w) acc)"
    using Cons.prems by (intro accumulate_point) auto
  from Cons.IH [OF this] Cons.prems show ?case by simp
qed simp

lemma accumulate_all:
  assumes "accumulated k ws S acc" "length ws = length S" "\<forall>r\<in>set (map fst rws). distinct (map sp_id r)"
  shows "accumulated k (ws @ map snd rws) (S @ map (map sp_id \<circ> fst) rws) (rrf_accumulate k rws acc)"
  using assms
proof (induction rws arbitrary: ws S acc)
  case (Cons rw rws)
  obtain r w where rw: "rw = (r, w)" by fastforce
  have "accumulated k (ws @ [w]) (S @ [[]]) acc"
    using Cons.prems(1,2) by (simp add: accumulated_def final_score_snoc_absent)
  from accumulate_response [OF this, of r] Cons.prems rw
  have "accumulated k (ws @ [w]) (S @ [map sp_id r]) (rrf_accumulate_response k w 0 r acc)" by simp
  from Cons.IH [OF this] Cons.prems rw show ?case by simp
qed simp

lemma exact_rrf_scoring_order:
  assumes k: "1 \<le> k" and ws: "\<forall>w\<in>set ws. valid_weight w" "length ws = length responses"
    and dist: "\<forall>r\<in>set responses. distinct (map sp_id r)"
    and S: "S = map (map sp_id) responses"
  shows "\<exists>out. exact_rrf_scoring responses k (Some ws) = Inr out \<and> map sp_id out = reference_order k ws S \<and>
    (\<forall>p\<in>set out. sp_score p = final_score k ws S (sp_id p))"
proof -
  let ?F = "final_score k ws S" and ?acc = "rrf_accumulate k (zip responses ws) []"
  let ?key = "\<lambda>p. (sp_score p, sp_id p)" and ?pos = "filter (\<lambda>p. f_lt (Fin 0) (sp_score p))"
  define scores where "scores = sort_by (\<lambda>a b. is_le (cmp (sp_score b) (sp_score a))) (map snd ?acc)"
  define out where "out = sort_by (\<lambda>l r. ranks_before (?key l) (?key r)) (?pos scores)"
  have run: "exact_rrf_scoring responses k (Some ws) = Inr out"
    using ws by (simp add: exact_rrf_scoring_def rrf_scoring_def scores_def out_def rank_simps Let_def)
  have acc: "accumulated k ws S ?acc"
    using accumulate_all [of k "[]" "[]" "[]" "zip responses ws"] ws dist S
    by (simp add: accumulated_def map_map [symmetric] del: map_map)
  have nn: "f_lt (Fin 0) (?F q) \<longleftrightarrow> Fin 0 < ?F q" for q
    using final_score_nonneg [OF k ws(1), of S q] ws S by (auto simp: f_lt_def)
  have entry: "sp_score p = ?F (sp_id p)" if "p \<in> set (map snd ?acc)" for p
    using that acc by (auto simp: accumulated_def)
  have ids: "map sp_id (map snd ?acc) = map fst ?acc"
    using acc by (auto simp: accumulated_def)
  have "mset (map ?key (?pos scores)) = mset (map ?key (?pos (map snd ?acc)))"
    by (simp add: scores_def)
  also have "map ?key (?pos (map snd ?acc)) = map (\<lambda>q. (?F q, q)) (filter (\<lambda>q. Fin 0 < ?F q) (map fst ?acc))"
  proof -
    have keys: "map ?key (?pos (map snd ?acc)) = map (\<lambda>p. (?F (sp_id p), sp_id p)) (?pos (map snd ?acc))"
      using entry by (intro map_cong) (simp_all only: set_filter mem_Collect_eq)
    have pos: "?pos (map snd ?acc) = filter ((\<lambda>q. Fin 0 < ?F q) \<circ> sp_id) (map snd ?acc)"
      by (intro filter_cong) (simp_all only: entry nn comp_def)
    show ?thesis unfolding keys unfolding pos ids [symmetric] by (simp only: filter_map map_map comp_def)
  qed
  also have "mset \<dots> = mset (map (\<lambda>q. (?F q, q)) (filter (\<lambda>q. Fin 0 < ?F q) (remdups (concat S))))"
    using acc unfolding mset_map
    by (intro arg_cong [where f = "image_mset _"] set_eq_iff_mset_eq_distinct [THEN iffD1])
       (auto simp: accumulated_def)
  finally have "map ?key out = sort_by ranks_before (map (\<lambda>q. (?F q, q)) (filter (\<lambda>q. Fin 0 < ?F q) (remdups (concat S))))"
    unfolding out_def map_sort_by [of ?key ranks_before] by (rule ranks_before.sort_by_mset)
  then have "map snd (map ?key out) = reference_order k ws S"
    by (simp add: reference_order_def)
  moreover have "\<forall>p\<in>set out. sp_score p = ?F (sp_id p)"
  proof -
    have "set out \<subseteq> set (map snd ?acc)" by (auto simp: out_def scores_def)
    with entry show ?thesis by blast
  qed
  ultimately show ?thesis using run by (simp add: comp_def)
qed

lemma accepted_batch_sequential:
  assumes rep: "represents st S" and run: "observe_batch st source b = Inr st'"
  shows "rbind (observe_all st source (point_ids b))
    (\<lambda>st1. if batch_exhausted b then finish_source st1 source else Inr st1) = Inr st'"
proof -
  have g: "source < length (weights st)" "\<not> exhausted st ! source" "start_rank b = next_positions st ! source"
    "point_ids b \<noteq> [] \<or> batch_exhausted b" "check_batch_ids st source [] (point_ids b) = None"
    using run by (auto simp: observe_batch_def split: if_splits option.splits)
  have np: "source < length (next_positions st)" using represents_wf [OF rep] g by (simp add: wf_config_def)
  from observe_all_eq [OF g(1,2) represents_wf_points [OF rep] np, of "point_ids b"] g(1,5)
  obtain st1 where all: "observe_all st source (point_ids b) = Inr st1"
    by (cases "observe_all st source (point_ids b)") (auto simp: check_batch_ids_None)
  from observe_batch_observe_all [OF rep g(1-4) all] run all show ?thesis by simp
qed

section \<open>Properties\<close>

text \<open>C1. Soundness of the early stop. If \<open>fixed_top_k\<close> returns a list, then that list is the exact
  head of the fused order of every family of streams that extends what was observed,
  although the streams have not been read to their end. All arithmetic is rounded \<open>f32\<close>.\<close>

theorem fixed_top_k_exact:
  assumes "represents st S" and "fixed_top_k st = Some ids"
  shows "ids = take (top_k st) (reference_order (rrf_k st) (weights st) S)"
  using assms by (rule fixed_top_k_prefix)

definition observed_one :: dynamic_rrf_state where
  "observed_one = \<lparr>rrf_k = 2, top_k = 1, weights = [Fin 1], next_positions = [1], exhausted = [False],
     points = [(NumId 7, \<lparr>contributions = [Some (position_score 0 2 (Fin 1))]\<rparr>)]\<rparr>"

lemma observed_one_represents: "represents observed_one [[NumId 7, NumId 3]]"
  by (simp add: represents_def observed_one_def wf_config_def valid_weight_def f_lt_def seen_prefix_def
      point_of_def contribution_at_def lessThan_Suc)

theorem fixed_top_k_exact_witness:
  "represents observed_one [[NumId 7, NumId 3]] \<and> fixed_top_k observed_one = Some [NumId 7] \<and>
   [NumId 7] = take 1 (reference_order 2 [Fin 1] [[NumId 7, NumId 3]])"
proof -
  note rep = observed_one_represents
  have fixed: "fixed_top_k observed_one = Some [NumId 7]" by code_simp
  have "[NumId 7] = take (top_k observed_one) (reference_order (rrf_k observed_one) (weights observed_one) [[NumId 7, NumId 3]])"
    using rep fixed by (rule fixed_top_k_exact)
  with rep fixed show ?thesis by (simp add: observed_one_def)
qed

text \<open>C11. The batch reference. On responses without repeated identities, \<open>exact_rrf_scoring\<close> returns
  exactly the reference order, every point with its final score.\<close>

theorem exact_rrf_scoring_is_reference:
  assumes "1 \<le> k" and "\<forall>w\<in>set ws. valid_weight w" and "length ws = length responses"
    and "\<forall>r\<in>set responses. distinct (map sp_id r)"
  shows "\<exists>out. exact_rrf_scoring responses k (Some ws) = Inr out \<and>
    map sp_id out = reference_order k ws (map (map sp_id) responses) \<and>
    (\<forall>p\<in>set out. sp_score p = final_score k ws (map (map sp_id) responses) (sp_id p))"
  using assms by (intro exact_rrf_scoring_order) simp_all

definition one_response :: "scored_point list list" where
  "one_response = [[\<lparr>sp_id = NumId 7, sp_version = 0, sp_score = Fin 3\<rparr>], [\<lparr>sp_id = NumId 3, sp_version = 0, sp_score = Fin 9\<rparr>]]"

theorem exact_rrf_scoring_is_reference_witness:
  "\<exists>out. exact_rrf_scoring one_response 2 (Some [Fin 1, Fin 2]) = Inr out \<and>
    map sp_id out = reference_order 2 [Fin 1, Fin 2] [[NumId 7], [NumId 3]]"
  using exact_rrf_scoring_is_reference [of 2 "[Fin 1, Fin 2]" one_response]
  by (auto simp: one_response_def valid_weight_def f_lt_def)

text \<open>C10. A batch is what its identifiers are one at a time: an accepted batch leaves the state that observing
  each of them in turn leaves, with the source finished when the batch is marked exhausted.\<close>

theorem observe_batch_is_sequential:
  assumes "represents st S" and "observe_batch st source b = Inr st'"
  shows "rbind (observe_all st source (point_ids b))
    (\<lambda>st1. if batch_exhausted b then finish_source st1 source else Inr st1) = Inr st'"
  using assms by (rule accepted_batch_sequential)

definition demo_batch :: channel_rank_batch where
  "demo_batch = \<lparr>start_rank = 1, point_ids = [NumId 3], batch_exhausted = True\<rparr>"

theorem observe_batch_is_sequential_witness:
  "\<exists>st'. observe_batch observed_one 0 demo_batch = Inr st' \<and>
    rbind (observe_all observed_one 0 [NumId 3]) (\<lambda>st1. finish_source st1 0) = Inr st'"
proof -
  note rep = observed_one_represents
  obtain st' where st': "observe_batch observed_one 0 demo_batch = Inr st'"
    by (simp add: observe_batch_def observed_one_def demo_batch_def Let_def)
  with observe_batch_is_sequential [OF rep st'] show ?thesis by (simp add: demo_batch_def)
qed

text \<open>C9. Exactly the contiguous, fresh batches are accepted: the source exists and is not finished, the batch
  starts at the next rank, is empty only to announce the end, and repeats no identity of the batch or of the stream.\<close>

theorem observe_batch_accepts_iff:
  assumes "represents st S"
  shows "(\<exists>st'. observe_batch st source b = Inr st') \<longleftrightarrow>
    source < length (weights st) \<and> \<not> exhausted st ! source \<and> start_rank b = next_positions st ! source \<and>
    (point_ids b \<noteq> [] \<or> batch_exhausted b) \<and> distinct (point_ids b) \<and>
    set (point_ids b) \<inter> set (seen_prefix st S source) = {}"
  using check_batch_ids_None [of source st "[]" "point_ids b"] fresh_for_represents [OF assms, of source]
  by (auto simp: observe_batch_def Let_def split: option.splits)

theorem observe_batch_accepts_iff_witness:
  "represents observed_one [[NumId 7, NumId 3]] \<and> \<not> (\<exists>st'. observe_batch observed_one 0
     \<lparr>start_rank = 1, point_ids = [NumId 3, NumId 7], batch_exhausted = False\<rparr> = Inr st')"
  using observe_batch_accepts_iff [OF observed_one_represents, of 0
      "\<lparr>start_rank = 1, point_ids = [NumId 3, NumId 7], batch_exhausted = False\<rparr>"] observed_one_represents
  by (simp add: observed_one_def seen_prefix_def)





end
