(* ===== verification/Rrf_Session.thy ===== *)
theory Rrf_Session
  imports Rrf_State "HOL-Library.Sublist"
begin

text \<open>
  The recoverable fusion session of
  \<open>src/lib/segment/src/common/reciprocal_rank_fusion/session.rs\<close>, its policy and
  source types (\<open>types.rs\<close>) and the entry points of \<open>executor.rs\<close>.

  A source is a closure with captured mutable state. The captured states of all
  sources are one value \<open>world\<close> that every pull threads, so sources may also share
  state. The loop of \<open>advance_until_each\<close> runs until a source fails or the prefix is
  fixed; it need not end on unbounded streams, hence it is a partial function whose
  value \<open>None\<close> stands for not returning.
\<close>

section \<open>Sources, policy and results\<close>

datatype 's dynamic_rrf_source =
    PointSource "'s \<Rightarrow> (operation_error + point_id) option \<times> 's"
  | BatchSource "nat \<Rightarrow> 's \<Rightarrow> (operation_error + channel_rank_batch) \<times> 's"

datatype dynamic_rrf_stop_reason = TopKFixed | AllSourcesExhausted

record dynamic_rrf_execution =
  ex_point_ids :: "point_id list"
  ex_source_pulls :: "nat list"
  ex_source_exhausted :: "bool list"
  ex_certification_checks :: nat
  ex_stop_reason :: dynamic_rrf_stop_reason

datatype dynamic_rrf_advance = Fixed dynamic_rrf_execution | Paused

datatype dynamic_rrf_scheduler = MaxNextContribution | CompetitorCostAware

record dynamic_rrf_policy =
  warmup_check_interval :: "nat option"
  exhaustive_after_pulls_per_source :: "nat option"
  scheduler :: dynamic_rrf_scheduler
  fairness_after_actions_per_source :: "nat option"

definition default_policy :: dynamic_rrf_policy where
  "default_policy = \<lparr>warmup_check_interval = None, exhaustive_after_pulls_per_source = None,
     scheduler = CompetitorCostAware, fairness_after_actions_per_source = Some 8\<rparr>"

text \<open>\<open>infallible_exact_rrf_stream\<close> on the list at position \<open>i\<close> of the captured lists.\<close>

definition infallible_exact_rrf_stream ::
  "nat \<Rightarrow> point_id list list \<Rightarrow> (operation_error + point_id) option \<times> point_id list list" where
  "infallible_exact_rrf_stream i w =
     (case w ! i of [] \<Rightarrow> (None, w) | x # xs \<Rightarrow> (Some (Inr x), w[i := xs]))"

section \<open>The session\<close>

definition MIN_CERTIFICATION_INTERVAL :: nat where "MIN_CERTIFICATION_INTERVAL = 64"
definition MAX_CERTIFICATION_INTERVAL :: nat where "MAX_CERTIFICATION_INTERVAL = 1024"

record 's dynamic_rrf_session =
  sources :: "'s dynamic_rrf_source list"
  world :: 's
  source_batch_size :: nat
  state :: dynamic_rrf_state
  source_pulls :: "nat list"
  source_history :: "point_id list list"
  source_costs :: "flt list"
  source_last_advanced :: "nat list"
  source_schedule :: "nat list"
  competitive_missing :: "nat list"
  policy :: dynamic_rrf_policy
  warmup_pulls :: nat
  total_pulls :: nat
  advance_actions :: nat
  pulls_since_check :: nat
  certification_checks :: nat
  force_check :: bool
  exhausted_order :: "point_id list option"

definition new_with_inputs ::
  "'s dynamic_rrf_source list \<Rightarrow> 's \<Rightarrow> nat \<Rightarrow> nat \<Rightarrow> nat \<Rightarrow> flt list option \<Rightarrow> flt list \<Rightarrow> dynamic_rrf_policy
     \<Rightarrow> operation_error + 's dynamic_rrf_session" where
  "new_with_inputs srcs w batch_size topk k ws costs pol =
     (let source_count = length srcs
      in if batch_size = 0 then Inl (ValidationError MsgRrfBatchSize)
         else if warmup_check_interval pol = Some 0 then Inl (ValidationError MsgRrfWarmupInterval)
         else if exhaustive_after_pulls_per_source pol = Some 0 then Inl (ValidationError MsgRrfExhaustiveBudget)
         else if fairness_after_actions_per_source pol = Some 0 then Inl (ValidationError MsgRrfFairness)
         else if length costs \<noteq> source_count
         then Inl (ValidationError (MsgRrfCostCount (length costs) source_count))
         else if list_ex (\<lambda>cost. \<not> is_finite cost \<or> f_le cost (Fin 0)) costs
         then Inl (ValidationError MsgRrfCostValue)
         else rbind (state_new source_count topk k ws) (\<lambda>st.
           Inr \<lparr>sources = srcs, world = w, source_batch_size = batch_size, state = st,
                source_pulls = replicate source_count 0, source_history = replicate source_count [],
                source_costs = costs, source_last_advanced = replicate source_count 0,
                source_schedule = [], competitive_missing = replicate source_count (max topk 1),
                policy = pol, warmup_pulls = saturating_mul (saturating_mul topk source_count) 2,
                total_pulls = 0, advance_actions = 0, pulls_since_check = 0, certification_checks = 0,
                force_check = True, exhausted_order = None\<rparr>))"

text \<open>The iterators and closures given to the constructors are wrapped into \<open>DynamicRrfSource\<close>.\<close>

definition new_with_source_costs ::
  "('s \<Rightarrow> (operation_error + point_id) option \<times> 's) list \<Rightarrow> 's \<Rightarrow> nat \<Rightarrow> nat \<Rightarrow> flt list option \<Rightarrow> flt list
     \<Rightarrow> dynamic_rrf_policy \<Rightarrow> operation_error + 's dynamic_rrf_session" where
  "new_with_source_costs streams w topk k ws costs pol =
     new_with_inputs (map PointSource streams) w 1 topk k ws costs pol"

definition session_new ::
  "('s \<Rightarrow> (operation_error + point_id) option \<times> 's) list \<Rightarrow> 's \<Rightarrow> nat \<Rightarrow> nat \<Rightarrow> flt list option
     \<Rightarrow> dynamic_rrf_policy \<Rightarrow> operation_error + 's dynamic_rrf_session" where
  "session_new streams w topk k ws pol =
     new_with_source_costs streams w topk k ws (replicate (length streams) (Fin 1)) pol"

definition new_batched ::
  "(nat \<Rightarrow> 's \<Rightarrow> (operation_error + channel_rank_batch) \<times> 's) list \<Rightarrow> 's \<Rightarrow> nat \<Rightarrow> nat \<Rightarrow> nat \<Rightarrow> flt list option
     \<Rightarrow> dynamic_rrf_policy \<Rightarrow> operation_error + 's dynamic_rrf_session" where
  "new_batched streams w batch_size topk k ws pol =
     new_with_inputs (map BatchSource streams) w batch_size topk k ws (replicate (length streams) (Fin 1)) pol"

definition extend_top_k :: "nat \<Rightarrow> 's dynamic_rrf_session \<Rightarrow> operation_error + 's dynamic_rrf_session" where
  "extend_top_k topk ses =
     (if topk < top_k (state ses) then Inl (ValidationError (MsgRrfPrefixDecrease (top_k (state ses)) topk))
      else Inr (ses\<lparr>state := (state ses)\<lparr>top_k := topk\<rparr>,
                    warmup_pulls := max (warmup_pulls ses) (saturating_mul (saturating_mul topk (length (sources ses))) 2),
                    force_check := True\<rparr>))"

section \<open>Choosing a source\<close>

text \<open>\<open>Iterator::max_by\<close>: the last of the greatest elements.\<close>

fun max_by_from :: "('a \<Rightarrow> 'a \<Rightarrow> bool) \<Rightarrow> 'a \<Rightarrow> 'a list \<Rightarrow> 'a" where
  "max_by_from le acc [] = acc"
| "max_by_from le acc (x # xs) = max_by_from le (if le acc x then x else acc) xs"

fun max_by :: "('a \<Rightarrow> 'a \<Rightarrow> bool) \<Rightarrow> 'a list \<Rightarrow> 'a option" where
  "max_by le [] = None"
| "max_by le (x # xs) = Some (max_by_from le x xs)"

definition below_pause_target :: "nat option list \<Rightarrow> 's dynamic_rrf_session \<Rightarrow> nat \<Rightarrow> bool" where
  "below_pause_target minimum_pulls ses source =
     (case minimum_pulls ! source of None \<Rightarrow> True | Some target \<Rightarrow> source_pulls ses ! source < target)"

definition source_wait :: "'s dynamic_rrf_session \<Rightarrow> nat \<Rightarrow> nat" where
  "source_wait ses source = saturating_sub (advance_actions ses) (source_last_advanced ses ! source)"

definition fair_source :: "nat option list \<Rightarrow> 's dynamic_rrf_session \<Rightarrow> nat option" where
  "fair_source minimum_pulls ses =
     (case fairness_after_actions_per_source (policy ses) of
        None \<Rightarrow> None
      | Some fairness \<Rightarrow>
          let fairness_window = saturating_mul fairness (length (sources ses))
          in max_by (\<lambda>left right. is_le (then_with (cmp (source_wait ses left) (source_wait ses right)) (cmp right left)))
               (filter (\<lambda>source. next_possible_contribution (state ses) source \<noteq> None
                          \<and> below_pause_target minimum_pulls ses source
                          \<and> fairness_window \<le> source_wait ses source)
                 [0..<length (sources ses)]))"

definition source_priority :: "'s dynamic_rrf_session \<Rightarrow> nat \<Rightarrow> flt \<Rightarrow> flt" where
  "source_priority ses source bound =
     (case scheduler (policy ses) of
        MaxNextContribution \<Rightarrow> bound
      | CompetitorCostAware \<Rightarrow>
          let next_bound = position_score (saturating_add (next_positions (state ses) ! source) 1)
                             (rrf_k (state ses)) (weights (state ses) ! source);
              bound_reduction = f_max (f_sub F32 bound next_bound) (Fin 0);
              live_competitors = f_of_nat F64 (max (competitive_missing ses ! source) 1)
          in f_div F64 (f_mul F64 bound_reduction live_competitors) (source_costs ses ! source))"

definition source_candidates :: "nat option list \<Rightarrow> 's dynamic_rrf_session \<Rightarrow> (nat \<times> flt \<times> flt) list" where
  "source_candidates minimum_pulls ses =
     List.map_filter (\<lambda>source.
        if \<not> below_pause_target minimum_pulls ses source then None
        else map_option (\<lambda>bound. (source, source_priority ses source bound, bound))
               (next_possible_contribution (state ses) source))
       [0..<length (sources ses)]"

definition select_source_to_advance :: "nat option list \<Rightarrow> 's dynamic_rrf_session \<Rightarrow> operation_error + nat" where
  "select_source_to_advance minimum_pulls ses =
     (case fair_source minimum_pulls ses of
        Some source \<Rightarrow> Inr source
      | None \<Rightarrow>
          (case max_by (\<lambda>(ls, lp, lb) (rs, rp, rb). is_le (then_with (then_with (cmp lp rp) (cmp lb rb)) (cmp rs ls)))
                  (source_candidates minimum_pulls ses) of
             Some (source, _, _) \<Rightarrow> Inr source
           | None \<Rightarrow> Inl (Panicked MsgNoSourceToAdvance)))"

section \<open>Advancing\<close>

datatype 's loop_step =
    Return "operation_error + dynamic_rrf_advance" "'s dynamic_rrf_session"
  | Continue "'s dynamic_rrf_session"

definition drain_to_exhaustion :: "'s dynamic_rrf_session \<Rightarrow> bool" where
  "drain_to_exhaustion ses =
     (case exhaustive_after_pulls_per_source (policy ses) of
        None \<Rightarrow> False
      | Some budget \<Rightarrow> saturating_mul budget (length (sources ses)) \<le> total_pulls ses)"

definition check_interval :: "'s dynamic_rrf_session \<Rightarrow> nat" where
  "check_interval ses =
     (if total_pulls ses \<le> warmup_pulls ses
      then unwrap_or (warmup_check_interval (policy ses)) (length (sources ses))
      else min (max (total_pulls ses div 8) MIN_CERTIFICATION_INTERVAL) MAX_CERTIFICATION_INTERVAL)"

definition execution_of :: "'s dynamic_rrf_session \<Rightarrow> point_id list \<Rightarrow> dynamic_rrf_execution" where
  "execution_of ses ids =
     \<lparr>ex_point_ids = ids, ex_source_pulls = source_pulls ses,
      ex_source_exhausted = exhausted (state ses),
      ex_certification_checks = certification_checks ses,
      ex_stop_reason = (if all_sources_exhausted (state ses) then AllSourcesExhausted else TopKFixed)\<rparr>"

definition certify :: "'s dynamic_rrf_session \<Rightarrow> dynamic_rrf_execution option \<times> 's dynamic_rrf_session" where
  "certify ses =
     (let ses' = ses\<lparr>certification_checks := certification_checks ses + 1\<rparr>
      in (map_option (execution_of ses') (fixed_top_k (state ses')), ses'))"

fun is_power_of_two :: "nat \<Rightarrow> bool" where
  "is_power_of_two n = (if n = 0 then False else if n = 1 then True else even n \<and> is_power_of_two (n div 2))"

declare is_power_of_two.simps [simp del]

definition refresh_competitive_missing ::
  "'s dynamic_rrf_session \<Rightarrow> operation_error + 's dynamic_rrf_session" where
  "refresh_competitive_missing ses =
     (if scheduler (policy ses) = CompetitorCostAware
         \<and> (certification_checks ses \<le> 4 \<or> is_power_of_two (certification_checks ses))
      then rbind (competitive_missing_counts (state ses)) (\<lambda>counts. Inr (ses\<lparr>competitive_missing := counts\<rparr>))
      else Inr ses)"

definition certification_point :: "'s dynamic_rrf_session \<Rightarrow> 's loop_step" where
  "certification_point ses =
     (if all_sources_exhausted (state ses)
         \<or> \<not> drain_to_exhaustion ses \<and> (force_check ses \<or> check_interval ses \<le> pulls_since_check ses)
      then case certify ses of
          (Some execution, ses') \<Rightarrow> Return (Inr (Fixed execution)) ses'
        | (None, ses') \<Rightarrow>
            (case refresh_competitive_missing ses' of
               Inl e \<Rightarrow> Return (Inl e) ses'
             | Inr ses'' \<Rightarrow> Continue (ses''\<lparr>pulls_since_check := 0, force_check := False\<rparr>))
      else Continue ses)"

definition pause_reached :: "nat option list \<Rightarrow> 's dynamic_rrf_session \<Rightarrow> bool" where
  "pause_reached minimum_pulls ses \<longleftrightarrow>
     list_ex (\<lambda>target. target \<noteq> None) minimum_pulls \<and>
     list_all (\<lambda>(source, target). case target of None \<Rightarrow> True
         | Some t \<Rightarrow> t \<le> source_pulls ses ! source \<or> exhausted (state ses) ! source)
       (List.enumerate 0 minimum_pulls)"

definition pause_point :: "nat option list \<Rightarrow> 's dynamic_rrf_session \<Rightarrow> 's loop_step" where
  "pause_point minimum_pulls ses =
     (if pause_reached minimum_pulls ses
      then case certify ses of
          (Some execution, ses') \<Rightarrow> Return (Inr (Fixed execution)) ses'
        | (None, ses') \<Rightarrow>
            (case refresh_competitive_missing ses' of
               Inl e \<Rightarrow> Return (Inl e) ses'
             | Inr ses'' \<Rightarrow> Return (Inr Paused) ses'')
      else Continue ses)"

text \<open>One pull: a point iterator delivers a batch of one, or an empty exhausted batch at its end.\<close>

definition pull_source ::
  "'s dynamic_rrf_source \<Rightarrow> nat \<Rightarrow> nat \<Rightarrow> 's \<Rightarrow> (operation_error + channel_rank_batch) \<times> 's" where
  "pull_source src batch_size pulls w =
     (case src of
        PointSource nxt \<Rightarrow>
          (case nxt w of
             (Some (Inl e), w') \<Rightarrow> (Inl e, w')
           | (Some (Inr pid), w') \<Rightarrow> (Inr \<lparr>start_rank = pulls, point_ids = [pid], batch_exhausted = False\<rparr>, w')
           | (None, w') \<Rightarrow> (Inr \<lparr>start_rank = pulls, point_ids = [], batch_exhausted = True\<rparr>, w'))
      | BatchSource pull \<Rightarrow> pull batch_size w)"

definition record_action :: "nat \<Rightarrow> 's dynamic_rrf_session \<Rightarrow> 's dynamic_rrf_session" where
  "record_action source ses =
     ses\<lparr>source_schedule := source_schedule ses @ [source],
         advance_actions := advance_actions ses + 1,
         source_last_advanced := (source_last_advanced ses)[source := advance_actions ses + 1]\<rparr>"

definition record_batch :: "nat \<Rightarrow> channel_rank_batch \<Rightarrow> dynamic_rrf_state \<Rightarrow> 's dynamic_rrf_session \<Rightarrow> 's dynamic_rrf_session" where
  "record_batch source batch st ses =
     (let n = length (point_ids batch)
      in ses\<lparr>state := st,
             source_pulls := (source_pulls ses)[source := source_pulls ses ! source + n],
             source_history := (source_history ses)[source := source_history ses ! source @ point_ids batch],
             total_pulls := total_pulls ses + n,
             pulls_since_check := pulls_since_check ses + n,
             force_check := (batch_exhausted batch \<or> force_check ses)\<rparr>)"

definition advance_source :: "nat \<Rightarrow> 's dynamic_rrf_session \<Rightarrow> 's loop_step" where
  "advance_source source ses0 =
     (let ses = record_action source ses0;
          (reply, w) = pull_source (sources ses ! source) (source_batch_size ses) (source_pulls ses ! source) (world ses);
          ses' = ses\<lparr>world := w\<rparr>
      in case reply of
           Inl e \<Rightarrow> Return (Inl e) ses'
         | Inr batch \<Rightarrow>
             if source_batch_size ses' < length (point_ids batch)
             then Return (Inl (ValidationError
                    (MsgRrfBatchTooLarge source (length (point_ids batch)) (source_batch_size ses')))) ses'
             else case observe_batch (state ses') source batch of
                    Inl e \<Rightarrow> Return (Inl e) ses'
                  | Inr st \<Rightarrow> Continue (record_batch source batch st ses'))"

definition advance_step :: "nat option list \<Rightarrow> 's dynamic_rrf_session \<Rightarrow> 's loop_step" where
  "advance_step minimum_pulls ses =
     (case certification_point ses of
        Return r ses' \<Rightarrow> Return r ses'
      | Continue ses' \<Rightarrow>
          (case pause_point minimum_pulls ses' of
             Return r ses'' \<Rightarrow> Return r ses''
           | Continue ses'' \<Rightarrow>
               (case select_source_to_advance minimum_pulls ses'' of
                  Inl e \<Rightarrow> Return (Inl e) ses''
                | Inr source \<Rightarrow> advance_source source ses'')))"

partial_function (option) advance_loop ::
  "nat option list \<Rightarrow> 's dynamic_rrf_session
     \<Rightarrow> ((operation_error + dynamic_rrf_advance) \<times> 's dynamic_rrf_session) option" where
  "advance_loop minimum_pulls ses =
     (case advance_step minimum_pulls ses of
        Return r ses' \<Rightarrow> Some (r, ses')
      | Continue ses' \<Rightarrow> advance_loop minimum_pulls ses')"

declare advance_loop.simps [code]

definition advance_until_each ::
  "nat option list \<Rightarrow> 's dynamic_rrf_session
     \<Rightarrow> ((operation_error + dynamic_rrf_advance) \<times> 's dynamic_rrf_session) option" where
  "advance_until_each minimum_pulls ses =
     (if length minimum_pulls \<noteq> length (sources ses)
      then Some (Inl (ValidationError (MsgRrfPauseTargets (length minimum_pulls) (length (sources ses)))), ses)
      else advance_loop minimum_pulls ses)"

definition run_to_completion ::
  "'s dynamic_rrf_session \<Rightarrow> ((operation_error + dynamic_rrf_execution) \<times> 's dynamic_rrf_session) option" where
  "run_to_completion ses =
     map_option (\<lambda>(r, ses'). (rbind r (\<lambda>a. case a of Fixed execution \<Rightarrow> Inr execution
                                           | Paused \<Rightarrow> Inl (Panicked MsgCannotPause)), ses'))
       (advance_until_each (replicate (length (sources ses)) None) ses)"

definition run_to_prefix ::
  "nat \<Rightarrow> 's dynamic_rrf_session \<Rightarrow> ((operation_error + dynamic_rrf_execution) \<times> 's dynamic_rrf_session) option" where
  "run_to_prefix topk ses =
     (case extend_top_k topk ses of
        Inl e \<Rightarrow> Some (Inl e, ses)
      | Inr ses1 \<Rightarrow>
          (case exhausted_order ses1 of
             Some order \<Rightarrow>
               Some (Inr \<lparr>ex_point_ids = take topk order, ex_source_pulls = source_pulls ses1,
                          ex_source_exhausted = exhausted (state ses1),
                          ex_certification_checks = certification_checks ses1,
                          ex_stop_reason = AllSourcesExhausted\<rparr>, ses1)
           | None \<Rightarrow>
               map_option (\<lambda>(r, ses2).
                 case r of
                   Inl e \<Rightarrow> (Inl e, ses2)
                 | Inr execution \<Rightarrow>
                     if ex_stop_reason execution = AllSourcesExhausted
                     then let order = complete_order (state ses2)
                          in (Inr (execution\<lparr>ex_point_ids := take topk order\<rparr>), ses2\<lparr>exhausted_order := Some order\<rparr>)
                     else (Inr execution, ses2))
                 (run_to_completion ses1)))"

text \<open>The replay loop of \<open>replace_source\<close>.\<close>

fun replay_prefix ::
  "nat \<Rightarrow> nat \<Rightarrow> point_id list \<Rightarrow> ('s \<Rightarrow> (operation_error + point_id) option \<times> 's) \<Rightarrow> 's
     \<Rightarrow> operation_error option \<times> 's" where
  "replay_prefix source rank [] nxt w = (None, w)"
| "replay_prefix source rank (expected # history) nxt w =
     (case nxt w of
        (Some (Inl e), w') \<Rightarrow> (Some e, w')
      | (None, w') \<Rightarrow> (Some (ValidationError (MsgRrfReplacementEnded source rank)), w')
      | (Some (Inr actual), w') \<Rightarrow>
          if actual \<noteq> expected
          then (Some (ValidationError (MsgRrfReplacementDisagrees source rank expected actual)), w')
          else replay_prefix source (Suc rank) history nxt w')"

definition replace_source ::
  "nat \<Rightarrow> ('s \<Rightarrow> (operation_error + point_id) option \<times> 's) \<Rightarrow> 's dynamic_rrf_session
     \<Rightarrow> (operation_error + unit) \<times> 's dynamic_rrf_session" where
  "replace_source source replacement ses =
     (if length (source_history ses) \<le> source
      then (Inl (ValidationError (MsgRrfReplacementOutOfRange source)), ses)
      else if exhausted (state ses) ! source
      then (Inl (ValidationError (MsgRrfReplacementExhausted source)), ses)
      else case replay_prefix source 0 (source_history ses ! source) replacement (world ses) of
             (Some e, w) \<Rightarrow> (Inl e, ses\<lparr>world := w\<rparr>)
           | (None, w) \<Rightarrow> (Inr (), ses\<lparr>world := w, sources := (sources ses)[source := PointSource replacement]\<rparr>))"

section \<open>Entry points\<close>

definition execute_dynamic_rrf_with_policy ::
  "('s \<Rightarrow> (operation_error + point_id) option \<times> 's) list \<Rightarrow> 's \<Rightarrow> nat \<Rightarrow> nat \<Rightarrow> flt list option
     \<Rightarrow> dynamic_rrf_policy \<Rightarrow> (operation_error + dynamic_rrf_execution) option" where
  "execute_dynamic_rrf_with_policy streams w topk k ws pol =
     (case session_new streams w topk k ws pol of
        Inl e \<Rightarrow> Some (Inl e) | Inr ses \<Rightarrow> map_option fst (run_to_completion ses))"

definition execute_dynamic_rrf ::
  "('s \<Rightarrow> (operation_error + point_id) option \<times> 's) list \<Rightarrow> 's \<Rightarrow> nat \<Rightarrow> nat \<Rightarrow> flt list option
     \<Rightarrow> (operation_error + dynamic_rrf_execution) option" where
  "execute_dynamic_rrf streams w topk k ws = execute_dynamic_rrf_with_policy streams w topk k ws default_policy"

definition execute_dynamic_rrf_batches_with_policy ::
  "(nat \<Rightarrow> 's \<Rightarrow> (operation_error + channel_rank_batch) \<times> 's) list \<Rightarrow> 's \<Rightarrow> nat \<Rightarrow> nat \<Rightarrow> nat \<Rightarrow> flt list option
     \<Rightarrow> dynamic_rrf_policy \<Rightarrow> (operation_error + dynamic_rrf_execution) option" where
  "execute_dynamic_rrf_batches_with_policy streams w batch_size topk k ws pol =
     (case new_batched streams w batch_size topk k ws pol of
        Inl e \<Rightarrow> Some (Inl e) | Inr ses \<Rightarrow> map_option fst (run_to_completion ses))"

section \<open>The session invariant\<close>

text \<open>
  The history of a session is the family of stream prefixes its fusion state represents.
\<close>

definition session_ok :: "'s dynamic_rrf_session \<Rightarrow> bool" where
  "session_ok ses \<longleftrightarrow>
     represents (state ses) (source_history ses) \<and>
     next_positions (state ses) = map length (source_history ses) \<and>
     source_pulls ses = next_positions (state ses) \<and>
     length (sources ses) = length (weights (state ses)) \<and>
     (\<forall>order. exhausted_order ses = Some order \<longrightarrow>
        all_sources_exhausted (state ses) \<and> order = complete_order (state ses))"

lemma session_facts:
  assumes "session_ok ses"
  shows session_represents: "represents (state ses) (source_history ses)"
    and session_positions: "next_positions (state ses) = map length (source_history ses)"
    and session_pulls: "source_pulls ses = next_positions (state ses)"
    and session_sources: "length (sources ses) = length (weights (state ses))"
    and session_order: "exhausted_order ses = Some order \<Longrightarrow>
          all_sources_exhausted (state ses) \<and> order = complete_order (state ses)"
  using assms by (auto simp: session_ok_def)

definition session_config :: "'s dynamic_rrf_session \<Rightarrow> nat \<times> nat \<times> flt list" where
  "session_config ses = (rrf_k (state ses), top_k (state ses), weights (state ses))"

text \<open>The families of streams that agree with everything a session has observed.\<close>

definition continues :: "'s dynamic_rrf_session \<Rightarrow> point_id list list \<Rightarrow> bool" where
  "continues ses S \<longleftrightarrow> length S = length (source_history ses) \<and>
     (\<forall>i<length S. distinct (S ! i) \<and> prefix (source_history ses ! i) (S ! i) \<and>
        (exhausted (state ses) ! i \<longrightarrow> S ! i = source_history ses ! i))"

lemma continues_represents:
  assumes ok: "session_ok ses" and cont: "continues ses S"
  shows "represents (state ses) S"
proof -
  let ?st = "state ses" and ?H = "source_history ses"
  note rep = session_represents [OF ok]
  have len: "length S = length ?H" "length ?H = length (weights ?st)"
    using cont represents_length [OF rep] by (auto simp: continues_def)
  have pre: "prefix (?H ! i) (S ! i)" "exhausted ?st ! i \<longrightarrow> S ! i = ?H ! i" "distinct (S ! i)"
    "next_positions ?st ! i = length (?H ! i)" if "i < length S" for i
    using that cont len session_positions [OF ok] by (auto simp: continues_def)
  have seen: "seen_prefix ?st S i = seen_prefix ?st ?H i" if "i < length S" for i
    using pre [OF that] by (auto simp: seen_prefix_def prefix_def)
  then have "point_of ?st S = point_of ?st ?H"
    using len by (intro ext) (simp add: point_of_def)
  with rep seen pre len show ?thesis
    unfolding represents_def by (auto simp: prefix_length_le)
qed

lemma history_continues: "session_ok ses \<Longrightarrow> continues ses (source_history ses)"
  using represents_stream [OF session_represents] by (auto simp: continues_def)

section \<open>Every choice of a source is possible\<close>

lemma max_by_from_in: "max_by_from le x xs \<in> insert x (set xs)"
proof (induction xs arbitrary: x)
  case (Cons a xs)
  show ?case using Cons.IH [of "if le x a then a else x"] by (auto split: if_splits)
qed simp

lemma max_by_in: "max_by le xs = Some x \<Longrightarrow> x \<in> set xs"
  using max_by_from_in by (cases xs) fastforce+

lemma max_by_None [simp]: "max_by le xs = None \<longleftrightarrow> xs = []"
  by (cases xs) auto

lemma fair_source_in:
  assumes "fair_source mp ses = Some source"
  shows "source < length (sources ses) \<and> next_possible_contribution (state ses) source \<noteq> None \<and>
    below_pause_target mp ses source"
  using assms by (auto simp: fair_source_def Let_def split: option.splits dest!: max_by_in)

lemma source_candidates_in:
  "(source, p, b) \<in> set (source_candidates mp ses) \<longleftrightarrow>
     source < length (sources ses) \<and> below_pause_target mp ses source \<and>
     next_possible_contribution (state ses) source = Some b \<and> p = source_priority ses source b"
  by (auto simp: source_candidates_def map_filter_def image_iff split: if_splits)

lemma select_source_in:
  assumes "select_source_to_advance mp ses = Inr source"
  shows "source < length (sources ses) \<and> next_possible_contribution (state ses) source \<noteq> None \<and>
    below_pause_target mp ses source"
  using assms
  by (auto simp: select_source_to_advance_def source_candidates_in
      split: option.splits dest!: fair_source_in max_by_in)

lemma select_source_some:
  assumes "source < length (sources ses)" "next_possible_contribution (state ses) source \<noteq> None"
    "below_pause_target mp ses source"
  shows "\<exists>chosen. select_source_to_advance mp ses = Inr chosen"
proof -
  obtain b where "next_possible_contribution (state ses) source = Some b" using assms by auto
  with assms have "(source, source_priority ses source b, b) \<in> set (source_candidates mp ses)"
    by (simp add: source_candidates_in)
  then have "source_candidates mp ses \<noteq> []" by auto
  then show ?thesis
    by (auto simp: select_source_to_advance_def split: option.splits)
qed

lemma unfinished_source:
  assumes ok: "session_ok ses" and live: "\<not> all_sources_exhausted (state ses)"
    and mp: "length mp = length (sources ses)" "\<not> pause_reached mp ses"
  shows "\<exists>source<length (sources ses). \<not> exhausted (state ses) ! source \<and> below_pause_target mp ses source"
proof (cases "list_ex (\<lambda>target. target \<noteq> None) mp")
  case True
  with mp obtain i t where "i < length mp" "mp ! i = Some t" "\<not> t \<le> source_pulls ses ! i" "\<not> exhausted (state ses) ! i"
    by (auto simp: pause_reached_def list_all_iff in_set_enumerate_eq split: option.splits)
  with mp show ?thesis by (auto simp: below_pause_target_def)
next
  case False
  then have none: "mp ! i = None" if "i < length mp" for i
    using that by (auto simp: list_ex_length)
  obtain i where "i < length (exhausted (state ses))" "\<not> exhausted (state ses) ! i"
    using live by (auto simp: all_sources_exhausted_def list_all_length)
  with none mp session_sources [OF ok] represents_wf [OF session_represents [OF ok]] show ?thesis
    by (auto simp: below_pause_target_def wf_config_def)
qed

lemma select_source_total:
  assumes ok: "session_ok ses" and live: "\<not> all_sources_exhausted (state ses)"
    and mp: "length mp = length (sources ses)" "\<not> pause_reached mp ses"
  obtains source where "select_source_to_advance mp ses = Inr source" "source < length (weights (state ses))"
    "\<not> exhausted (state ses) ! source"
proof -
  from unfinished_source [OF assms] obtain i where "i < length (sources ses)" "\<not> exhausted (state ses) ! i"
    "below_pause_target mp ses i" by blast
  then obtain source where sel: "select_source_to_advance mp ses = Inr source"
    using select_source_some [of i ses mp] session_sources [OF ok]
    by (auto simp: next_possible_contribution_def)
  with select_source_in [OF sel] session_sources [OF ok] that show thesis
    by (auto simp: next_possible_contribution_def split: if_splits)
qed

lemma competitive_missing_counts_total:
  "fixed_top_k st = None \<Longrightarrow> \<exists>counts. competitive_missing_counts st = Inr counts"
  by (auto simp: competitive_missing_counts_def Let_def fixed_top_k_def split: if_splits)

section \<open>One iteration of the loop\<close>

text \<open>The parts of a session that a certification does not touch.\<close>

definition same_core :: "'s dynamic_rrf_session \<Rightarrow> 's dynamic_rrf_session \<Rightarrow> bool" where
  "same_core ses ses' \<longleftrightarrow> sources ses' = sources ses \<and> world ses' = world ses \<and>
     source_batch_size ses' = source_batch_size ses \<and> state ses' = state ses \<and>
     source_pulls ses' = source_pulls ses \<and> source_history ses' = source_history ses \<and>
     exhausted_order ses' = exhausted_order ses"

lemma same_core_refl [simp]: "same_core ses ses"
  by (simp add: same_core_def)

lemma same_core_trans: "same_core a b \<Longrightarrow> same_core b c \<Longrightarrow> same_core a c"
  by (simp add: same_core_def)

lemma same_core_ok: "same_core ses ses' \<Longrightarrow> session_ok ses' = session_ok ses"
  by (simp add: same_core_def session_ok_def)

lemma same_core_pause_reached:
  assumes "same_core ses ses'"
  shows "pause_reached mp ses' = pause_reached mp ses"
proof -
  have eqs: "source_pulls ses' = source_pulls ses" "state ses' = state ses"
    using assms by (simp_all add: same_core_def)
  show ?thesis unfolding pause_reached_def eqs by (rule refl)
qed

text \<open>A result that carries the certified prefix of the session it leaves behind.\<close>

definition certified :: "operation_error + dynamic_rrf_advance \<Rightarrow> 's dynamic_rrf_session \<Rightarrow> bool" where
  "certified r ses \<longleftrightarrow> (\<exists>ids. r = Inr (Fixed (execution_of ses ids)) \<and> fixed_top_k (state ses) = Some ids)"

lemma certify_cases:
  obtains ids ses' where "certify ses = (Some (execution_of ses' ids), ses')" "same_core ses ses'"
      "fixed_top_k (state ses) = Some ids"
  | ses' where "certify ses = (None, ses')" "same_core ses ses'" "fixed_top_k (state ses) = None"
proof -
  let ?ses = "ses\<lparr>certification_checks := certification_checks ses + 1\<rparr>"
  have core: "same_core ses ?ses" by (simp add: same_core_def)
  have run: "certify ses = (map_option (execution_of ?ses) (fixed_top_k (state ses)), ?ses)"
    by (simp add: certify_def Let_def)
  show thesis
  proof (cases "fixed_top_k (state ses)")
    case None
    then show ?thesis using run by (intro that(2) [OF _ core]) simp_all
  next
    case (Some ids)
    then show ?thesis using run by (intro that(1) [OF _ core]) simp_all
  qed
qed

lemma refresh_cases:
  assumes "fixed_top_k (state ses) = None"
  obtains ses' where "refresh_competitive_missing ses = Inr ses'" "same_core ses ses'"
proof -
  obtain counts where "competitive_missing_counts (state ses) = Inr counts"
    using competitive_missing_counts_total [OF assms] by blast
  then have "refresh_competitive_missing ses = Inr ses \<or>
      refresh_competitive_missing ses = Inr (ses\<lparr>competitive_missing := counts\<rparr>)"
    by (simp add: refresh_competitive_missing_def)
  moreover have "same_core ses (ses\<lparr>competitive_missing := counts\<rparr>)" by (simp add: same_core_def)
  ultimately show thesis using that same_core_refl by blast
qed

lemma fixed_top_k_exhausted: "all_sources_exhausted st \<Longrightarrow> fixed_top_k st \<noteq> None"
  by (simp add: fixed_top_k_def Let_def)

lemma certification_point_cases:
  obtains r ses' where "certification_point ses = Return r ses'" "same_core ses ses'" "certified r ses'"
  | ses' where "certification_point ses = Continue ses'" "same_core ses ses'" "\<not> all_sources_exhausted (state ses)"
proof (cases "all_sources_exhausted (state ses) \<or>
    \<not> drain_to_exhaustion ses \<and> (force_check ses \<or> check_interval ses \<le> pulls_since_check ses)")
  case True
  show thesis
  proof (cases ses rule: certify_cases)
    case (1 ids ses')
    with True show ?thesis
      by (intro that(1)) (auto simp: certification_point_def certified_def same_core_def)
  next
    case (2 ses1)
    then have none: "fixed_top_k (state ses1) = None" by (simp add: same_core_def)
    obtain ses2 where ref: "refresh_competitive_missing ses1 = Inr ses2" "same_core ses1 ses2"
      using refresh_cases [OF none] .
    have "same_core ses (ses2\<lparr>pulls_since_check := 0, force_check := False\<rparr>)"
      using 2(2) ref(2) by (simp add: same_core_def)
    moreover have "\<not> all_sources_exhausted (state ses)" using 2 fixed_top_k_exhausted by blast
    ultimately show ?thesis
      using True 2(1) ref(1) by (intro that(2)) (auto simp: certification_point_def)
  qed
next
  case False
  then show thesis by (intro that(2)) (auto simp: certification_point_def)
qed

lemma pause_point_cases:
  obtains r ses' where "pause_point mp ses = Return r ses'" "same_core ses ses'"
      "certified r ses' \<or> r = Inr Paused \<and> pause_reached mp ses'"
  | "pause_point mp ses = Continue ses" "\<not> pause_reached mp ses"
proof (cases "pause_reached mp ses")
  case True
  show thesis
  proof (cases ses rule: certify_cases)
    case (1 ids ses')
    with True show ?thesis
      by (intro that(1)) (auto simp: pause_point_def certified_def same_core_def)
  next
    case (2 ses1)
    then have none: "fixed_top_k (state ses1) = None" by (simp add: same_core_def)
    obtain ses2 where ref: "refresh_competitive_missing ses1 = Inr ses2" "same_core ses1 ses2"
      using refresh_cases [OF none] .
    with 2 True have core: "same_core ses ses2" by (metis same_core_trans)
    then have "pause_reached mp ses2" using True by (simp add: same_core_pause_reached)
    with core True 2(1) ref(1) show ?thesis
      by (intro that(1)) (auto simp: pause_point_def)
  qed
next
  case False
  then show thesis by (intro that(2)) (auto simp: pause_point_def)
qed

lemma observe_batch_fields:
  assumes "observe_batch st source b = Inr st'"
  shows "rrf_k st' = rrf_k st" "top_k st' = top_k st" "weights st' = weights st"
    "next_positions st' = (next_positions st)[source := next_positions st ! source + length (point_ids b)]"
    "exhausted st' = (if batch_exhausted b then (exhausted st)[source := True] else exhausted st)"
    "start_rank b = next_positions st ! source" "point_ids b \<noteq> [] \<or> batch_exhausted b" "source < length (weights st)"
  using assms by (auto simp: observe_batch_def Let_def split: if_splits option.splits)

lemma record_batch_ok:
  assumes ok: "session_ok ses" and live: "exhausted_order ses = None"
    and run: "observe_batch (state ses) source b = Inr st"
  shows "session_ok (record_batch source b st ses)"
proof -
  let ?H = "source_history ses"
  note f = observe_batch_fields [OF run] and rep = session_represents [OF ok]
  have len: "length ?H = length (weights (state ses))" by (rule represents_length [OF rep])
  have "seen_prefix (state ses) ?H source = ?H ! source"
    using f(8) len session_positions [OF ok] by (simp add: seen_prefix_def)
  with observe_batch_accepted [OF rep run]
  have "represents st (?H[source := ?H ! source @ point_ids b])" by simp
  moreover have "next_positions st = map length (?H[source := ?H ! source @ point_ids b])"
    unfolding f(4) session_positions [OF ok] using f(8) len by (simp add: map_update)
  ultimately show ?thesis
    using live f session_pulls [OF ok] session_sources [OF ok]
    by (simp add: session_ok_def record_batch_def Let_def)
qed

lemma record_action_fields [simp]:
  "sources (record_action source ses) = sources ses" "world (record_action source ses) = world ses"
  "source_batch_size (record_action source ses) = source_batch_size ses" "state (record_action source ses) = state ses"
  "source_pulls (record_action source ses) = source_pulls ses"
  "source_history (record_action source ses) = source_history ses"
  "exhausted_order (record_action source ses) = exhausted_order ses"
  by (simp_all add: record_action_def)

text \<open>The outcome of one pull: a failure, or the batch joins the history.\<close>

lemma advance_source_cases:
  assumes ok: "session_ok ses" and live: "exhausted_order ses = None"
  obtains e ses' where "advance_source source ses = Return (Inl e) ses'" "session_ok ses'"
      "state ses' = state ses" "source_history ses' = source_history ses"
  | b w st ses' where "advance_source source ses = Continue ses'" "session_ok ses'"
      "pull_source (sources ses ! source) (source_batch_size ses) (source_pulls ses ! source) (world ses) = (Inr b, w)"
      "observe_batch (state ses) source b = Inr st" "state ses' = st" "world ses' = w" "sources ses' = sources ses"
      "source_batch_size ses' = source_batch_size ses" "exhausted_order ses' = None"
      "source_history ses' = (source_history ses)[source := source_history ses ! source @ point_ids b]"
proof -
  let ?ses = "record_action source ses"
  obtain reply w where pull: "pull_source (sources ses ! source) (source_batch_size ses) (source_pulls ses ! source) (world ses) = (reply, w)"
    by fastforce
  let ?ses' = "?ses\<lparr>world := w\<rparr>"
  have ok': "session_ok ?ses'" and live': "exhausted_order ?ses' = None" and st: "state ?ses' = state ses"
    and hist: "source_history ?ses' = source_history ses"
    using ok live by (simp_all add: session_ok_def)
  have step: "advance_source source ses = (case reply of Inl e \<Rightarrow> Return (Inl e) ?ses'
     | Inr b \<Rightarrow> if source_batch_size ses < length (point_ids b)
         then Return (Inl (ValidationError (MsgRrfBatchTooLarge source (length (point_ids b)) (source_batch_size ses)))) ?ses'
         else case observe_batch (state ses) source b of Inl e \<Rightarrow> Return (Inl e) ?ses'
              | Inr st \<Rightarrow> Continue (record_batch source b st ?ses'))"
    unfolding advance_source_def Let_def record_action_fields pull
    by (simp cong: sum.case_cong if_cong)
  show thesis
  proof (cases reply)
    case (Inl e)
    with step ok' st hist that(1) show ?thesis by simp
  next
    case (Inr b)
    show ?thesis
    proof (cases "observe_batch (state ses) source b")
      case (Inl e)
      with Inr step ok' st hist that(1) show ?thesis by (cases "source_batch_size ses < length (point_ids b)") simp_all
    next
      case (Inr st')
      have "session_ok (record_batch source b st' ?ses')"
        using ok' live' Inr st by (intro record_batch_ok) simp_all
      with Inr \<open>reply = Inr b\<close> step ok' st hist pull live' that show ?thesis
        by (cases "source_batch_size ses < length (point_ids b)")
          (simp_all add: record_batch_def Let_def)
    qed
  qed
qed

text \<open>Unless it returns, an iteration pulls one unfinished source of an otherwise unchanged session.\<close>

lemma advance_step_cases:
  assumes ok: "session_ok ses" and mp: "length mp = length (sources ses)"
  obtains r ses' where "advance_step mp ses = Return r ses'" "same_core ses ses'"
      "certified r ses' \<or> r = Inr Paused \<and> pause_reached mp ses'"
  | source ses' where "advance_step mp ses = advance_source source ses'" "same_core ses ses'"
      "session_ok ses'" "exhausted_order ses' = None"
      "source < length (weights (state ses'))" "\<not> exhausted (state ses') ! source"
proof (cases ses rule: certification_point_cases)
  case (1 r ses')
  then show ?thesis using that(1) [of r ses'] by (simp add: advance_step_def)
next
  case (2 ses1)
  then have ok1: "session_ok ses1" and live: "\<not> all_sources_exhausted (state ses1)"
    and mp1: "length mp = length (sources ses1)"
    using ok mp same_core_ok by (auto simp: same_core_def)
  show ?thesis
  proof (cases rule: pause_point_cases [of mp ses1])
    case (1 r ses')
    with 2 show ?thesis
      using that(1) [OF _ same_core_trans [OF 2(2) 1(2)]] by (simp add: advance_step_def)
  next
    case 2
    from select_source_total [OF ok1 live mp1 2(2)] obtain source where
      "select_source_to_advance mp ses1 = Inr source" "source < length (weights (state ses1))"
      "\<not> exhausted (state ses1) ! source" .
    moreover have "exhausted_order ses1 = None" using session_order [OF ok1] live by (cases "exhausted_order ses1") auto
    ultimately show ?thesis
      using 2 \<open>certification_point ses = Continue ses1\<close> \<open>same_core ses ses1\<close> ok1
      using that(2) [of source ses1] by (simp add: advance_step_def)
  qed
qed

section \<open>Whatever is returned is exact\<close>

text \<open>The shape of a result of the loop, for any sources at all.\<close>

definition loop_result ::
  "nat option list \<Rightarrow> 's dynamic_rrf_session \<Rightarrow> operation_error + dynamic_rrf_advance \<Rightarrow> 's dynamic_rrf_session \<Rightarrow> bool" where
  "loop_result mp ses r ses' \<longleftrightarrow> session_ok ses' \<and> session_config ses' = session_config ses \<and>
     sources ses' = sources ses \<and>
     (certified r ses' \<or> r = Inr Paused \<and> pause_reached mp ses' \<or> (\<exists>e. r = Inl e))"

lemma loop_result_core:
  assumes "same_core ses ses'" "session_ok ses" "certified r ses' \<or> r = Inr Paused \<and> pause_reached mp ses'"
  shows "loop_result mp ses r ses'"
proof -
  have "session_ok ses'" using same_core_ok [OF assms(1)] assms(2) by simp
  moreover have "session_config ses' = session_config ses" "sources ses' = sources ses"
    using assms(1) by (simp_all add: same_core_def session_config_def)
  ultimately show ?thesis using assms(3) unfolding loop_result_def by blast
qed

lemma advance_source_result:
  assumes ok: "session_ok ses" "exhausted_order ses = None"
  shows "case advance_source source ses of
      Return r ses' \<Rightarrow> loop_result mp ses r ses'
    | Continue ses' \<Rightarrow> session_ok ses' \<and> session_config ses' = session_config ses \<and> sources ses' = sources ses"
proof (cases rule: advance_source_cases [OF ok, of source])
  case (1 e ses')
  have "sources ses' = sources ses"
    using 1(1) by (auto simp: advance_source_def Let_def split: prod.splits sum.splits if_splits)
  with 1 show ?thesis by (simp add: loop_result_def session_config_def)
next
  case (2 b w st ses')
  with observe_batch_fields [OF 2(4)] show ?thesis by (simp add: session_config_def)
qed

text \<open>The rule for the loop: what every iteration keeps, and what every return establishes.\<close>

lemma advance_loop_invariant:
  assumes step: "\<And>ses. I ses \<Longrightarrow> case advance_step mp ses of Return r ses' \<Rightarrow> Q r ses' | Continue ses' \<Rightarrow> I ses'"
    and run: "advance_loop mp ses = Some (r, ses')" and init: "I ses"
  shows "Q r ses'"
proof -
  have "mp = mp \<longrightarrow> I ses \<longrightarrow> Q (fst (r, ses')) (snd (r, ses'))"
  proof (rule advance_loop.raw_induct [where P = "\<lambda>mp' ses out. mp' = mp \<longrightarrow> I ses \<longrightarrow> Q (fst out) (snd out)", OF _ run])
    fix loop mp' ses out
    assume IH: "\<And>mp' ses out. loop mp' ses = Some out \<Longrightarrow> mp' = mp \<longrightarrow> I ses \<longrightarrow> Q (fst out) (snd out)"
      and eq: "(case advance_step mp' ses of Return r ses' \<Rightarrow> Some (r, ses') | Continue ses' \<Rightarrow> loop mp' ses') = Some out"
    show "mp' = mp \<longrightarrow> I ses \<longrightarrow> Q (fst out) (snd out)"
      using eq IH step [of ses] by (cases "advance_step mp' ses") auto
  qed
  with init show ?thesis by simp
qed

lemma advance_loop_sound:
  assumes run: "advance_loop mp ses = Some (r, ses')" and ok: "session_ok ses"
    and mp: "length mp = length (sources ses)"
  shows "loop_result mp ses r ses'"
proof (rule advance_loop_invariant [OF _ run, where I = "\<lambda>s. session_ok s \<and>
    session_config s = session_config ses \<and> sources s = sources ses"])
  fix s assume s: "session_ok s \<and> session_config s = session_config ses \<and> sources s = sources ses"
  then have ok': "session_ok s" and mp': "length mp = length (sources s)" using mp by auto
  show "case advance_step mp s of Return r ses' \<Rightarrow> loop_result mp ses r ses'
    | Continue ses' \<Rightarrow> session_ok ses' \<and> session_config ses' = session_config ses \<and> sources ses' = sources ses"
  proof (cases rule: advance_step_cases [OF ok' mp'])
    case (1 r ses')
    with loop_result_core [OF 1(2) ok' 1(3)] s show ?thesis by (simp add: loop_result_def)
  next
    case (2 source s1)
    have "sources s1 = sources ses" "session_config s1 = session_config ses"
      using 2(2) s by (simp_all add: same_core_def session_config_def)
    with advance_source_result [OF 2(3,4), of mp source] show ?thesis
      unfolding 2(1) by (cases "advance_source source s1") (simp_all add: loop_result_def)
  qed
qed (use ok in simp)

lemma run_to_completion_sound:
  assumes run: "run_to_completion ses = Some (r, ses')" and ok: "session_ok ses"
  shows "session_ok ses' \<and> session_config ses' = session_config ses \<and> sources ses' = sources ses \<and>
    ((\<exists>ids. r = Inr (execution_of ses' ids) \<and> fixed_top_k (state ses') = Some ids) \<or> (\<exists>e. r = Inl e))"
proof -
  let ?mp = "replicate (length (sources ses)) None :: nat option list"
  obtain r0 where r0: "advance_loop ?mp ses = Some (r0, ses')"
    "r = rbind r0 (\<lambda>a. case a of Fixed ex \<Rightarrow> Inr ex | Paused \<Rightarrow> Inl (Panicked MsgCannotPause))"
    using run by (auto simp: run_to_completion_def advance_until_each_def)
  have "loop_result ?mp ses r0 ses'" using r0(1) ok by (intro advance_loop_sound) simp_all
  then show ?thesis using r0(2) by (auto simp: loop_result_def certified_def)
qed

lemma extend_top_k_ok:
  assumes "extend_top_k topk ses = Inr ses'" "session_ok ses"
  shows "session_ok ses'" "rrf_k (state ses') = rrf_k (state ses)" "weights (state ses') = weights (state ses)"
    "top_k (state ses') = topk" "source_history ses' = source_history ses" "sources ses' = sources ses"
    "world ses' = world ses" "source_batch_size ses' = source_batch_size ses" "exhausted (state ses') = exhausted (state ses)"
proof -
  have "represents (st\<lparr>top_k := topk\<rparr>) S = represents st S" for st S
    by (simp add: represents_def wf_config_def seen_prefix_def point_of_def)
  moreover have "complete_order (st\<lparr>top_k := topk\<rparr>) = complete_order st"
      "all_sources_exhausted (st\<lparr>top_k := topk\<rparr>) = all_sources_exhausted st" for st
    by (simp_all add: complete_order_def all_sources_exhausted_def)
  ultimately show "session_ok ses'" "rrf_k (state ses') = rrf_k (state ses)" "weights (state ses') = weights (state ses)"
    "top_k (state ses') = topk" "source_history ses' = source_history ses" "sources ses' = sources ses"
    "world ses' = world ses" "source_batch_size ses' = source_batch_size ses" "exhausted (state ses') = exhausted (state ses)"
    using assms by (auto simp: extend_top_k_def session_ok_def split: if_splits)
qed

lemma run_to_prefix_sound:
  assumes run: "run_to_prefix topk ses = Some (Inr ex, ses')" and ok: "session_ok ses"
    and cont: "continues ses' S"
  shows "session_ok ses'" "ex_point_ids ex = take topk (reference_order (rrf_k (state ses)) (weights (state ses)) S)"
proof -
  obtain ses1 where ext: "extend_top_k topk ses = Inr ses1"
    using run by (auto simp: run_to_prefix_def split: sum.splits)
  note e = extend_top_k_ok [OF ext ok]
  have "session_ok ses' \<and> ex_point_ids ex = take topk (reference_order (rrf_k (state ses')) (weights (state ses')) S) \<and>
    session_config ses' = session_config ses1"
  proof (cases "exhausted_order ses1")
    case (Some order)
    with run ext e(1) have "ses' = ses1" "ex_point_ids ex = take topk order" by (auto simp: run_to_prefix_def)
    with session_order [OF e(1) Some] complete_order_reference [OF continues_represents [OF e(1)]] cont e(1)
    show ?thesis by auto
  next
    case None
    with run ext obtain r0 ses2 where r0: "run_to_completion ses1 = Some (r0, ses2)"
      and out0: "(case r0 of Inl e \<Rightarrow> (Inl e, ses2)
        | Inr execution \<Rightarrow>
            if ex_stop_reason execution = AllSourcesExhausted
            then let order = complete_order (state ses2)
                 in (Inr (execution\<lparr>ex_point_ids := take topk order\<rparr>), ses2\<lparr>exhausted_order := Some order\<rparr>)
            else (Inr execution, ses2)) = (Inr ex, ses')"
      by (auto simp: run_to_prefix_def)
    then obtain r where r: "run_to_completion ses1 = Some (Inr r, ses2)"
      and out: "(if ex_stop_reason r = AllSourcesExhausted
          then let order = complete_order (state ses2)
               in (Inr (r\<lparr>ex_point_ids := take topk order\<rparr>), ses2\<lparr>exhausted_order := Some order\<rparr>)
          else (Inr r, ses2)) = (Inr ex :: operation_error + dynamic_rrf_execution, ses')"
      by (cases r0) simp_all
    from run_to_completion_sound [OF r e(1)] obtain ids where s: "session_ok ses2"
      "session_config ses2 = session_config ses1" "r = execution_of ses2 ids" "fixed_top_k (state ses2) = Some ids"
      by auto
    have top: "top_k (state ses2) = topk" using s(2) e(4) by (simp add: session_config_def)
    have st: "state ses' = state ses2" "source_history ses' = source_history ses2"
      using out by (auto simp: Let_def split: if_splits)
    have rep: "represents (state ses2) S"
      using cont s(1) st by (intro continues_represents) (simp_all add: continues_def)
    show ?thesis
    proof (cases "all_sources_exhausted (state ses2)")
      case True
      with out s(3) have "ses' = ses2\<lparr>exhausted_order := Some (complete_order (state ses2))\<rparr>"
        "ex_point_ids ex = take topk (complete_order (state ses2))"
        by (auto simp: execution_of_def Let_def)
      with True s complete_order_reference [OF rep True] show ?thesis
        by (auto simp: session_ok_def session_config_def)
    next
      case False
      with out s(3) have "ses' = ses2" "ex_point_ids ex = ids" by (auto simp: execution_of_def)
      with s fixed_top_k_prefix [OF rep s(4)] top show ?thesis by simp
    qed
  qed
  with e show "session_ok ses'" "ex_point_ids ex = take topk (reference_order (rrf_k (state ses)) (weights (state ses)) S)"
    by (simp_all add: session_config_def)
qed

section \<open>Sessions are created in their invariant\<close>

lemma new_with_inputs_ok:
  assumes "new_with_inputs srcs w batch_size topk k ws costs pol = Inr ses"
  shows "session_ok ses" "sources ses = srcs" "world ses = w" "source_batch_size ses = batch_size" "0 < batch_size"
    "source_history ses = replicate (length srcs) []" "top_k (state ses) = topk"
    "state_new (length srcs) topk k ws = Inr (state ses)" "exhausted (state ses) = replicate (length srcs) False"
proof -
  obtain st where st: "state_new (length srcs) topk k ws = Inr st" and ses: "ses = \<lparr>sources = srcs, world = w,
      source_batch_size = batch_size, state = st,
      source_pulls = replicate (length srcs) 0, source_history = replicate (length srcs) [],
      source_costs = costs, source_last_advanced = replicate (length srcs) 0,
      source_schedule = [], competitive_missing = replicate (length srcs) (max topk 1),
      policy = pol, warmup_pulls = saturating_mul (saturating_mul topk (length srcs)) 2,
      total_pulls = 0, advance_actions = 0, pulls_since_check = 0, certification_checks = 0,
      force_check = True, exhausted_order = None\<rparr>" and b: "0 < batch_size"
    using assms by (auto simp: new_with_inputs_def Let_def rbind_eq_Inr split: if_splits)
  have rep: "represents st (replicate (length srcs) [])"
    using st by (rule state_new_represents) auto
  have f: "next_positions st = replicate (length srcs) 0" "exhausted st = replicate (length srcs) False" "top_k st = topk"
    using st by (auto simp: state_new_def rbind_eq_Inr split: if_splits option.splits)
  show "session_ok ses"
    using rep f represents_length [OF rep] by (simp add: session_ok_def ses)
  show "sources ses = srcs" "world ses = w" "source_batch_size ses = batch_size" "0 < batch_size"
    "source_history ses = replicate (length srcs) []" "top_k (state ses) = topk"
    "state_new (length srcs) topk k ws = Inr (state ses)" "exhausted (state ses) = replicate (length srcs) False"
    using st b f by (simp_all add: ses)
qed

lemma state_new_config:
  "state_new n topk k ws = Inr st \<Longrightarrow> rrf_k st = k \<and> weights st = unwrap_or ws (replicate n (Fin 1))"
  by (auto simp: state_new_def rbind_eq_Inr split: if_splits option.splits)

section \<open>Sources that keep the exact-stream contract\<close>

text \<open>
  The contract of a channel-global exact rank stream: \<open>serves w i n xs\<close> says that in the
  world \<open>w\<close> source \<open>i\<close> has delivered \<open>n\<close> ranks and will deliver exactly \<open>xs\<close>. A pull
  returns a further chunk, marks the end only at the end, makes progress, and
  leaves the other sources as they were.
\<close>

locale exact_sources =
  fixes srcs :: "'s dynamic_rrf_source list" and batch :: nat
    and serves :: "'s \<Rightarrow> nat \<Rightarrow> nat \<Rightarrow> point_id list \<Rightarrow> bool"
  assumes pull_serves: "i < length srcs \<Longrightarrow> serves w i n xs \<Longrightarrow>
    \<exists>b w' ys. pull_source (srcs ! i) batch n w = (Inr b, w') \<and> start_rank b = n \<and>
      length (point_ids b) \<le> batch \<and> (point_ids b \<noteq> [] \<or> batch_exhausted b) \<and>
      xs = point_ids b @ ys \<and> (batch_exhausted b \<longrightarrow> ys = []) \<and> serves w' i (n + length (point_ids b)) ys \<and>
      (\<forall>j m zs. j \<noteq> i \<longrightarrow> serves w j m zs \<longrightarrow> serves w' j m zs)"
begin

definition serving :: "'s dynamic_rrf_session \<Rightarrow> point_id list list \<Rightarrow> bool" where
  "serving ses S \<longleftrightarrow> session_ok ses \<and> continues ses S \<and> sources ses = srcs \<and> source_batch_size ses = batch \<and>
     (\<forall>i<length srcs. \<not> exhausted (state ses) ! i \<longrightarrow>
        serves (world ses) i (length (source_history ses ! i)) (drop (length (source_history ses ! i)) (S ! i)))"

definition work :: "'s dynamic_rrf_session \<Rightarrow> point_id list list \<Rightarrow> nat" where
  "work ses S = (\<Sum>i<length srcs. (length (S ! i) - length (source_history ses ! i)) +
     (if exhausted (state ses) ! i then 0 else 1))"

lemma serving_core: "same_core ses ses' \<Longrightarrow> serving ses S \<Longrightarrow> serving ses' S"
  using same_core_ok [of ses ses'] by (simp add: serving_def same_core_def continues_def)

lemma work_core: "same_core ses ses' \<Longrightarrow> work ses' S = work ses S"
  by (simp add: work_def same_core_def)

lemma serving_lengths:
  assumes "serving ses S"
  shows "length srcs = length (weights (state ses))" "length (source_history ses) = length srcs"
    "length S = length srcs" "length (exhausted (state ses)) = length srcs"
    "length (next_positions (state ses)) = length srcs"
proof -
  have ok: "session_ok ses" and s: "sources ses = srcs" "continues ses S" using assms by (auto simp: serving_def)
  show "length srcs = length (weights (state ses))" using session_sources [OF ok] s by simp
  moreover show "length (source_history ses) = length srcs"
    using represents_length [OF session_represents [OF ok]] calculation by simp
  ultimately show "length S = length srcs" "length (exhausted (state ses)) = length srcs"
    "length (next_positions (state ses)) = length srcs"
    using s represents_wf [OF session_represents [OF ok]] by (simp_all add: continues_def wf_config_def)
qed

lemma advance_source_serving:
  assumes srv: "serving ses S" and live: "exhausted_order ses = None"
    and i: "i < length srcs" "\<not> exhausted (state ses) ! i"
  obtains ses' where "advance_source i ses = Continue ses'" "serving ses' S" "work ses' S < work ses S"
proof -
  let ?h = "source_history ses ! i"
  have ok: "session_ok ses" and src: "sources ses = srcs" "source_batch_size ses = batch" and cont: "continues ses S"
    using srv by (auto simp: serving_def)
  note len = serving_lengths [OF srv]
  have np: "next_positions (state ses) ! i = length ?h" "source_pulls ses ! i = length ?h"
    using session_positions [OF ok] session_pulls [OF ok] i len by simp_all
  have "serves (world ses) i (length ?h) (drop (length ?h) (S ! i))" using srv i by (simp add: serving_def)
  from pull_serves [OF i(1) this] obtain b w ys where
    pull: "pull_source (srcs ! i) batch (length ?h) (world ses) = (Inr b, w)" and b: "start_rank b = length ?h"
      "length (point_ids b) \<le> batch" "point_ids b \<noteq> [] \<or> batch_exhausted b"
      "drop (length ?h) (S ! i) = point_ids b @ ys" "batch_exhausted b \<longrightarrow> ys = []"
      "serves w i (length ?h + length (point_ids b)) ys"
      "\<forall>j m zs. j \<noteq> i \<longrightarrow> serves (world ses) j m zs \<longrightarrow> serves w j m zs"
    by blast
  have pre: "S ! i = ?h @ point_ids b @ ys"
    using cont i len b(4) by (auto simp: continues_def prefix_def)
  obtain st where run: "observe_batch (state ses) i b = Inr st"
    by (rule observe_batch_next [OF continues_represents [OF ok cont], of i b "length (point_ids b)"])
      (use i len b pre np in auto)
  have step: "advance_source i ses = Continue (record_batch i b st (record_action i ses\<lparr>world := w\<rparr>))"
    using pull run src b(2) np by (simp add: advance_source_def Let_def)
  let ?ses = "record_batch i b st (record_action i ses\<lparr>world := w\<rparr>)"
  note f = observe_batch_fields [OF run]
  have fields: "source_history ?ses = (source_history ses)[i := ?h @ point_ids b]" "world ?ses = w"
    "sources ?ses = srcs" "source_batch_size ?ses = batch" "state ?ses = st"
    using src by (simp_all add: record_batch_def Let_def)
  have "session_ok ?ses"
    using ok live run by (intro record_batch_ok) (simp_all add: session_ok_def)
  moreover have "continues ?ses S"
    using cont i len pre b(5) f(5) fields by (auto simp: continues_def nth_list_update prefix_def split: if_splits)
  moreover have "serves w j (length (source_history ?ses ! j)) (drop (length (source_history ?ses ! j)) (S ! j))"
    if "j < length srcs" "\<not> exhausted st ! j" for j
  proof (cases "j = i")
    case True
    then show ?thesis using b(6) i len pre fields by simp
  next
    case False
    then have "\<not> exhausted (state ses) ! j" using that f(5) by (auto split: if_splits)
    then show ?thesis using False that srv b(7) fields by (simp add: serving_def)
  qed
  ultimately have "serving ?ses S" by (simp add: serving_def fields)
  moreover have "work ?ses S < work ses S"
    unfolding work_def fields
  proof (rule sum_strict_mono_ex1)
    show "\<forall>j\<in>{..<length srcs}. length (S ! j) - length ((source_history ses)[i := ?h @ point_ids b] ! j) +
        (if exhausted st ! j then 0 else 1)
      \<le> length (S ! j) - length (source_history ses ! j) + (if exhausted (state ses) ! j then 0 else (1::nat))"
      using i len f(5) by (auto simp: nth_list_update)
    show "\<exists>j\<in>{..<length srcs}. length (S ! j) - length ((source_history ses)[i := ?h @ point_ids b] ! j) +
        (if exhausted st ! j then 0 else 1)
      < length (S ! j) - length (source_history ses ! j) + (if exhausted (state ses) ! j then 0 else (1::nat))"
      using i len f(5) b(3) pre by (intro bexI [of _ i]) (auto simp: length_greater_0_conv [symmetric] simp del: length_greater_0_conv)
  qed simp
  ultimately show thesis using that step by blast
qed

lemma advance_loop_serving:
  assumes "serving ses S" "length mp = length srcs"
  obtains r ses' where "advance_loop mp ses = Some (r, ses')" "serving ses' S"
    "certified r ses' \<or> r = Inr Paused \<and> pause_reached mp ses'"
proof -
  have "\<exists>r ses'. advance_loop mp ses = Some (r, ses') \<and> serving ses' S \<and>
      (certified r ses' \<or> r = Inr Paused \<and> pause_reached mp ses')"
    using assms
  proof (induction "work ses S" arbitrary: ses rule: less_induct)
    case less
    then have ok: "session_ok ses" and mp: "length mp = length (sources ses)" by (simp_all add: serving_def)
    show ?case
    proof (cases rule: advance_step_cases [OF ok mp])
      case (1 r ses')
      then show ?thesis
        using serving_core [OF 1(2) less.prems(1)] by (subst advance_loop.simps) auto
    next
      case (2 source ses1)
      have srv: "serving ses1 S" by (rule serving_core [OF 2(2) less.prems(1)])
      obtain ses2 where s2: "advance_source source ses1 = Continue ses2" "serving ses2 S" "work ses2 S < work ses1 S"
        using advance_source_serving [OF srv 2(4)] 2(5,6) serving_lengths(1) [OF srv] by metis
      then show ?thesis
        using less.hyps [of ses2] less.prems(2) 2(1) work_core [OF 2(2)]
        by (subst advance_loop.simps) simp
    qed
  qed
  with that show thesis by blast
qed

lemma run_to_completion_serving:
  assumes "serving ses S"
  obtains ids ses' where "run_to_completion ses = Some (Inr (execution_of ses' ids), ses')" "serving ses' S"
    "fixed_top_k (state ses') = Some ids"
proof -
  have src: "sources ses = srcs" using assms by (simp add: serving_def)
  let ?mp = "replicate (length srcs) None :: nat option list"
  obtain r ses' where loop: "advance_loop ?mp ses = Some (r, ses')" "serving ses' S"
    "certified r ses' \<or> r = Inr Paused \<and> pause_reached ?mp ses'"
    using advance_loop_serving [OF assms, of ?mp] by auto
  moreover have "\<not> pause_reached ?mp ses'" by (auto simp: pause_reached_def list_ex_iff)
  ultimately obtain ids where "r = Inr (Fixed (execution_of ses' ids))" "fixed_top_k (state ses') = Some ids"
    by (auto simp: certified_def)
  with loop src that show thesis by (simp add: run_to_completion_def advance_until_each_def)
qed

end

context exact_sources
begin

lemma new_session_serving:
  assumes new: "new_with_inputs srcs w batch topk k ws costs pol = Inr ses"
    and S: "length S = length srcs" "\<forall>s\<in>set S. distinct s" "\<forall>i<length srcs. serves w i 0 (S ! i)"
  shows "serving ses S"
  using new_with_inputs_ok [OF new] S by (auto simp: serving_def continues_def)

lemma serving_exact:
  assumes "serving ses S" "fixed_top_k (state ses) = Some ids"
  shows "ids = take (top_k (state ses)) (reference_order (rrf_k (state ses)) (weights (state ses)) S)"
  using assms by (intro fixed_top_k_prefix continues_represents) (auto simp: serving_def)

lemma new_session_runs:
  assumes new: "new_with_inputs srcs w batch topk k ws costs pol = Inr ses"
    and S: "length S = length srcs" "\<forall>s\<in>set S. distinct s" "\<forall>i<length srcs. serves w i 0 (S ! i)"
  shows "\<exists>ex ses'. run_to_completion ses = Some (Inr ex, ses') \<and>
    ex_point_ids ex = take topk (reference_order k (unwrap_or ws (replicate (length srcs) (Fin 1))) S)"
proof -
  note n = new_with_inputs_ok [OF new] and c = state_new_config [OF new_with_inputs_ok(8) [OF new]]
  obtain ids ses' where run: "run_to_completion ses = Some (Inr (execution_of ses' ids), ses')" "serving ses' S"
    "fixed_top_k (state ses') = Some ids"
    using run_to_completion_serving [OF new_session_serving [OF assms]] .
  have "session_config ses' = session_config ses" using run_to_completion_sound [OF run(1) n(1)] by simp
  with serving_exact [OF run(2,3)] n c run(1) show ?thesis
    by (auto simp: session_config_def execution_of_def)
qed

text \<open>A longer prefix may be asked of the same session at any time.\<close>

lemma run_to_prefix_serving:
  assumes srv: "serving ses S" and more: "top_k (state ses) \<le> topk"
  shows "\<exists>ex ses'. run_to_prefix topk ses = Some (Inr ex, ses') \<and> serving ses' S \<and>
    ex_point_ids ex = take topk (reference_order (rrf_k (state ses)) (weights (state ses)) S)"
proof -
  have ok: "session_ok ses" using srv by (simp add: serving_def)
  obtain ses1 where ext: "extend_top_k topk ses = Inr ses1" using more by (simp add: extend_top_k_def)
  note e = extend_top_k_ok [OF ext ok]
  have srv1: "serving ses1 S" using srv e by (simp add: serving_def continues_def)
  have "\<exists>ex ses'. run_to_prefix topk ses = Some (Inr ex, ses') \<and> serving ses' S"
  proof (cases "exhausted_order ses1")
    case None
    obtain ids ses2 where run: "run_to_completion ses1 = Some (Inr (execution_of ses2 ids), ses2)" "serving ses2 S"
      "fixed_top_k (state ses2) = Some ids"
      using run_to_completion_serving [OF srv1] .
    have "serving (ses2\<lparr>exhausted_order := Some (complete_order (state ses2))\<rparr>) S"
      if "all_sources_exhausted (state ses2)"
      using run(2) that by (auto simp: serving_def session_ok_def continues_def)
    with run None ext show ?thesis by (auto simp: run_to_prefix_def execution_of_def Let_def)
  qed (use ext srv1 in \<open>simp add: run_to_prefix_def\<close>)
  then obtain ex ses' where "run_to_prefix topk ses = Some (Inr ex, ses')" "serving ses' S" by blast
  with run_to_prefix_sound [OF _ ok] show ?thesis by (auto simp: serving_def)
qed

end

text \<open>Lists in memory keep the contract.\<close>

interpretation list_streams: exact_sources "map (PointSource \<circ> infallible_exact_rrf_stream) [0..<n]" 1
  "\<lambda>w i m xs. length w = n \<and> i < n \<and> w ! i = xs" for n
proof
  fix i w m and xs :: "point_id list"
  assume "i < length (map (PointSource \<circ> infallible_exact_rrf_stream) [0..<n])" and s: "length w = n \<and> i < n \<and> w ! i = xs"
  then have src: "map (PointSource \<circ> infallible_exact_rrf_stream) [0..<n] ! i = PointSource (infallible_exact_rrf_stream i)" by simp
  show "\<exists>b w' ys. pull_source (map (PointSource \<circ> infallible_exact_rrf_stream) [0..<n] ! i) 1 m w = (Inr b, w') \<and>
      start_rank b = m \<and> length (point_ids b) \<le> 1 \<and> (point_ids b \<noteq> [] \<or> batch_exhausted b) \<and>
      xs = point_ids b @ ys \<and> (batch_exhausted b \<longrightarrow> ys = []) \<and> (length w' = n \<and> i < n \<and> w' ! i = ys) \<and>
      (\<forall>j m zs. j \<noteq> i \<longrightarrow> length w = n \<and> j < n \<and> w ! j = zs \<longrightarrow> length w' = n \<and> j < n \<and> w' ! j = zs)"
    unfolding src using s by (cases xs) (auto simp: pull_source_def infallible_exact_rrf_stream_def)
qed

definition valid_policy :: "dynamic_rrf_policy \<Rightarrow> bool" where
  "valid_policy pol \<longleftrightarrow> warmup_check_interval pol \<noteq> Some 0 \<and> exhaustive_after_pulls_per_source pol \<noteq> Some 0 \<and>
     fairness_after_actions_per_source pol \<noteq> Some 0"

definition valid_weights :: "flt list option \<Rightarrow> nat \<Rightarrow> bool" where
  "valid_weights ws n \<longleftrightarrow> (case ws of None \<Rightarrow> True | Some w \<Rightarrow> length w = n \<and> list_all valid_weight w)"

lemma new_with_inputs_accepts:
  assumes "srcs \<noteq> []" "0 < batch_size" "1 \<le> k" "valid_weights ws (length srcs)" "valid_policy pol"
    "length costs = length srcs" "\<forall>c\<in>set costs. is_finite c \<and> \<not> f_le c (Fin 0)"
  shows "\<exists>ses. new_with_inputs srcs w batch_size topk k ws costs pol = Inr ses"
proof -
  have "\<exists>st. state_new (length srcs) topk k ws = Inr st"
    using assms by (auto simp: state_new_def valid_weights_def valid_weight_def list_ex_iff list_all_iff f_lt_def
        split: option.splits)
  with assms show ?thesis
    by (auto simp: new_with_inputs_def valid_policy_def Let_def list_ex_iff)
qed

lemma in_memory_execution:
  assumes "S \<noteq> []" "\<forall>s\<in>set S. distinct s" "1 \<le> k" "valid_weights ws (length S)" "valid_policy pol"
  shows "\<exists>ex. execute_dynamic_rrf_with_policy (map infallible_exact_rrf_stream [0..<length S]) S topk k ws pol = Some (Inr ex) \<and>
    ex_point_ids ex = take topk (reference_order k (unwrap_or ws (replicate (length S) (Fin 1))) S)"
proof -
  let ?srcs = "map (PointSource \<circ> infallible_exact_rrf_stream) [0..<length S]"
  obtain ses where new: "new_with_inputs ?srcs S 1 topk k ws (replicate (length S) (Fin 1)) pol = Inr ses"
    using new_with_inputs_accepts [of ?srcs 1 k ws pol "replicate (length S) (Fin 1)" S topk] assms
    by (auto simp: f_le_def)
  from list_streams.new_session_runs [OF new, of S] assms new show ?thesis
    by (auto simp: execute_dynamic_rrf_with_policy_def session_new_def new_with_source_costs_def)
qed

section \<open>Replacing a source\<close>

fun delivers :: "('s \<Rightarrow> (operation_error + point_id) option \<times> 's) \<Rightarrow> 's \<Rightarrow> point_id list \<Rightarrow> 's \<Rightarrow> bool" where
  "delivers nxt w [] w' \<longleftrightarrow> w' = w"
| "delivers nxt w (pid # ids) w' \<longleftrightarrow> fst (nxt w) = Some (Inr pid) \<and> delivers nxt (snd (nxt w)) ids w'"

lemma replay_prefix_delivers: "replay_prefix source rank h nxt w = (None, w') \<longleftrightarrow> delivers nxt w h w'"
  by (induction h arbitrary: rank w) (auto split: prod.splits option.splits sum.splits)

lemma replace_source_ok:
  assumes run: "replace_source source nxt ses = (r, ses')" and ok: "session_ok ses"
  shows "session_ok ses'" "state ses' = state ses" "source_history ses' = source_history ses"
    and "r = Inr () \<longleftrightarrow> source < length (source_history ses) \<and> \<not> exhausted (state ses) ! source \<and>
           (\<exists>w. delivers nxt (world ses) (source_history ses ! source) w)"
    and "r = Inr () \<Longrightarrow> sources ses' = (sources ses)[source := PointSource nxt] \<and>
           delivers nxt (world ses) (source_history ses ! source) (world ses')"
    and "r \<noteq> Inr () \<Longrightarrow> sources ses' = sources ses"
proof -
  have d: "delivers nxt (world ses) h w \<longleftrightarrow> replay_prefix source 0 h nxt (world ses) = (None, w)" for h w
    by (simp add: replay_prefix_delivers)
  show "session_ok ses'" "state ses' = state ses" "source_history ses' = source_history ses"
    using run ok by (auto simp: replace_source_def session_ok_def split: if_splits prod.splits option.splits)
  show "r = Inr () \<longleftrightarrow> source < length (source_history ses) \<and> \<not> exhausted (state ses) ! source \<and>
      (\<exists>w. delivers nxt (world ses) (source_history ses ! source) w)"
    and "r = Inr () \<Longrightarrow> sources ses' = (sources ses)[source := PointSource nxt] \<and>
      delivers nxt (world ses) (source_history ses ! source) (world ses')"
    and "r \<noteq> Inr () \<Longrightarrow> sources ses' = sources ses"
    unfolding d using run by (auto simp: replace_source_def split: if_splits prod.splits option.splits)
qed

section \<open>Observations only accumulate\<close>

lemma continues_core: "same_core ses ses' \<Longrightarrow> continues ses' S = continues ses S"
  by (simp add: same_core_def continues_def)

lemma advance_source_continues:
  assumes ok: "session_ok ses" "exhausted_order ses = None" and step: "advance_source source ses = Continue ses'"
    and cont: "continues ses' S"
  shows "continues ses S"
  using ok
proof (cases rule: advance_source_cases [where source = source])
  case (1 e ses'')
  with step show ?thesis by simp
next
  case (2 b w st ses'')
  with step have eq: "ses'' = ses'" by simp
  note f = observe_batch_fields [OF 2(4)]
  have live: "\<not> exhausted (state ses) ! source" using 2(4) by (auto simp: observe_batch_def split: if_splits)
  have hist: "source_history ses' = (source_history ses)[source := source_history ses ! source @ point_ids b]"
    and exh: "exhausted (state ses') = (if batch_exhausted b then (exhausted (state ses))[source := True] else exhausted (state ses))"
    using 2 f eq by auto
  have "distinct (S ! i) \<and> prefix (source_history ses ! i) (S ! i) \<and>
      (exhausted (state ses) ! i \<longrightarrow> S ! i = source_history ses ! i)" if "i < length S" for i
  proof (cases "i = source")
    case True
    with cont that hist live show ?thesis by (auto simp: continues_def prefix_def)
  next
    case False
    with cont that hist exh show ?thesis by (auto simp: continues_def)
  qed
  with cont hist show ?thesis by (simp add: continues_def)
qed

lemma advance_loop_continues:
  assumes run: "advance_loop mp ses = Some (r, ses')" and ok: "session_ok ses"
    and mp: "length mp = length (sources ses)" and cont: "continues ses' S"
  shows "continues ses S"
proof -
  have "\<forall>S. continues ses' S \<longrightarrow> continues ses S"
  proof (rule advance_loop_invariant [OF _ run, where I = "\<lambda>s. session_ok s \<and> sources s = sources ses \<and>
      (\<forall>S. continues s S \<longrightarrow> continues ses S)" and Q = "\<lambda>r s. \<forall>S. continues s S \<longrightarrow> continues ses S"])
    fix s assume s: "session_ok s \<and> sources s = sources ses \<and> (\<forall>S. continues s S \<longrightarrow> continues ses S)"
    then have ok': "session_ok s" and mp': "length mp = length (sources s)" using mp by auto
    show "case advance_step mp s of Return r s' \<Rightarrow> \<forall>S. continues s' S \<longrightarrow> continues ses S
      | Continue s' \<Rightarrow> session_ok s' \<and> sources s' = sources ses \<and> (\<forall>S. continues s' S \<longrightarrow> continues ses S)"
    proof (cases rule: advance_step_cases [OF ok' mp'])
      case (1 r s')
      with s show ?thesis by (simp add: continues_core [OF 1(2)])
    next
      case (2 source s1)
      have core: "sources s1 = sources ses" "\<And>S. continues s1 S \<Longrightarrow> continues ses S"
        using 2(2) s continues_core [OF 2(2)] by (auto simp: same_core_def)
      note res = advance_source_result [OF 2(3,4), of mp source]
      show ?thesis
      proof (cases "advance_source source s1")
        case (Return r s')
        have "continues s' S = continues s1 S" for S
          using 2(3,4)
        proof (cases rule: advance_source_cases [where source = source])
          case (1 e s'')
          with Return show ?thesis by (auto simp: continues_def)
        qed (use Return in simp)
        with 2(1) Return core show ?thesis by simp
      next
        case (Continue s')
        with advance_source_continues [OF 2(3,4) Continue] 2(1) core res show ?thesis by simp
      qed
    qed
  qed (use ok in simp)
  with cont show ?thesis by blast
qed

lemma run_to_prefix_continues:
  assumes run: "run_to_prefix topk ses = Some (r, ses')" and ok: "session_ok ses" and cont: "continues ses' S"
  shows "continues ses S"
proof (cases "extend_top_k topk ses")
  case (Inl e)
  with run cont show ?thesis by (simp add: run_to_prefix_def)
next
  case (Inr ses1)
  note e = extend_top_k_ok [OF Inr ok]
  have earlier: "continues ses1 S \<Longrightarrow> continues ses S" using e by (simp add: continues_def)
  show ?thesis
  proof (cases "exhausted_order ses1")
    case (Some order)
    with run Inr cont earlier show ?thesis by (simp add: run_to_prefix_def)
  next
    case None
    with run Inr obtain r0 ses2 where r0: "run_to_completion ses1 = Some (r0, ses2)"
      and out: "(case r0 of Inl e \<Rightarrow> (Inl e, ses2)
        | Inr execution \<Rightarrow>
            if ex_stop_reason execution = AllSourcesExhausted
            then let order = complete_order (state ses2)
                 in (Inr (execution\<lparr>ex_point_ids := take topk order\<rparr>), ses2\<lparr>exhausted_order := Some order\<rparr>)
            else (Inr execution, ses2)) = (r, ses')"
      by (auto simp: run_to_prefix_def)
    then have same: "state ses' = state ses2" "source_history ses' = source_history ses2"
      by (auto simp: Let_def split: sum.splits if_splits)
    obtain a where loop: "advance_loop (replicate (length (sources ses1)) None) ses1 = Some (a, ses2)"
      using r0 by (auto simp: run_to_completion_def advance_until_each_def)
    have "continues ses2 S" using cont same by (simp add: continues_def)
    then have "continues ses1 S" by (rule advance_loop_continues [OF loop e(1), rotated]) simp
    then show ?thesis by (rule earlier)
  qed
qed

section \<open>Panicking branches are not reached\<close>

lemma check_batch_ids_error: "check_batch_ids st source uniq ids = Some e \<Longrightarrow> \<exists>m. e = ValidationError m"
  by (induction ids arbitrary: uniq) (auto split: if_splits)

lemma observe_batch_error: "observe_batch st source b = Inl e \<Longrightarrow> \<exists>m. e = ValidationError m"
  by (auto simp: observe_batch_def Let_def split: if_splits option.splits dest: check_batch_ids_error)

lemma run_to_completion_no_panic:
  assumes run: "run_to_completion ses = Some (r, ses')" and ok: "session_ok ses"
    and src: "\<And>src n p w m. src \<in> set (sources ses) \<Longrightarrow> fst (pull_source src n p w) \<noteq> Inl (Panicked m)"
  shows "r \<noteq> Inl (Panicked m)"
proof -
  let ?mp = "replicate (length (sources ses)) None :: nat option list"
  obtain r0 where r0: "advance_loop ?mp ses = Some (r0, ses')"
    "r = rbind r0 (\<lambda>a. case a of Fixed ex \<Rightarrow> Inr ex | Paused \<Rightarrow> Inl (Panicked MsgCannotPause))"
    using run by (auto simp: run_to_completion_def advance_until_each_def)
  have "r0 \<noteq> Inl (Panicked m)"
  proof (rule advance_loop_invariant [OF _ r0(1), where I = "\<lambda>s. session_ok s \<and> sources s = sources ses"
      and Q = "\<lambda>r s. r \<noteq> Inl (Panicked m)"])
    fix s assume "session_ok s \<and> sources s = sources ses"
    then have s: "session_ok s" "sources s = sources ses" "length ?mp = length (sources s)" by auto
    show "case advance_step ?mp s of Return r s' \<Rightarrow> r \<noteq> Inl (Panicked m) | Continue s' \<Rightarrow> session_ok s' \<and> sources s' = sources ses"
    proof (cases rule: advance_step_cases [OF s(1,3)])
      case (1 r s')
      then show ?thesis by (auto simp: certified_def)
    next
      case (2 source s1)
      have core: "sources s1 = sources ses" using 2(2) s by (simp add: same_core_def)
      have "sources s1 ! source \<in> set (sources ses)"
        using 2(5) session_sources [OF 2(3)] core by (metis nth_mem)
      from src [OF this] have "case advance_source source s1 of Return r s' \<Rightarrow> r \<noteq> Inl (Panicked m) | Continue s' \<Rightarrow> True"
        by (auto simp: advance_source_def Let_def split: prod.splits sum.splits dest: observe_batch_error)
          (metis fst_conv)
      with advance_source_result [OF 2(3,4), of ?mp source] core 2(1) show ?thesis
        by (cases "advance_source source s1") simp_all
    qed
  qed (use ok in simp)
  moreover have "loop_result ?mp ses r0 ses'" using r0(1) ok by (intro advance_loop_sound) simp_all
  ultimately show ?thesis
    using r0(2) by (cases r0) (auto simp: loop_result_def certified_def pause_reached_def list_ex_iff)
qed

context total_rank
begin

lemma max_by_from_ge: "x \<in> insert a (set xs) \<Longrightarrow> le x (max_by_from le a xs)"
proof (induction xs arbitrary: a x)
  case Nil
  then show ?case by (simp add: rank_refl)
next
  case (Cons b xs)
  let ?m = "if le a b then b else a"
  have m: "le a ?m" "le b ?m" using rank_total rank_refl by auto
  have M: "le ?m (max_by_from le ?m xs)" "\<forall>y\<in>set xs. le y (max_by_from le ?m xs)" using Cons.IH by auto
  have "le a (max_by_from le ?m xs)" "le b (max_by_from le ?m xs)"
    by (rule rank_trans [OF m(1) M(1)], rule rank_trans [OF m(2) M(1)])
  with M(2) Cons.prems show ?case unfolding max_by_from.simps by auto
qed

lemma max_by_ge: "max_by le xs = Some m \<Longrightarrow> x \<in> set xs \<Longrightarrow> le x m"
  using max_by_from_ge by (cases xs) auto

end

interpretation wait_order: total_rank
  "\<lambda>left right. is_le (then_with (cmp (source_wait ses left) (source_wait ses right)) (cmp right left))" for ses
  by unfold_locales (auto simp: rank_simps)

lemma fair_source_longest_wait:
  assumes fair: "fairness_after_actions_per_source (policy ses) = Some fairness"
    and i: "i < length (sources ses)" "next_possible_contribution (state ses) i \<noteq> None" "below_pause_target mp ses i"
    and wait: "saturating_mul fairness (length (sources ses)) \<le> source_wait ses i"
  shows "\<exists>s. select_source_to_advance mp ses = Inr s \<and> source_wait ses i \<le> source_wait ses s"
proof -
  let ?c = "filter (\<lambda>source. next_possible_contribution (state ses) source \<noteq> None \<and> below_pause_target mp ses source
      \<and> saturating_mul fairness (length (sources ses)) \<le> source_wait ses source) [0..<length (sources ses)]"
  have mem: "i \<in> set ?c" using i wait by simp
  let ?le = "\<lambda>left right. is_le (then_with (cmp (source_wait ses left) (source_wait ses right)) (cmp right left))"
  have eq: "fair_source mp ses = max_by ?le ?c" using fair by (simp add: fair_source_def Let_def)
  have "max_by ?le ?c \<noteq> None" unfolding max_by_None using mem by (metis empty_iff empty_set)
  then obtain s where s: "fair_source mp ses = Some s" unfolding eq by blast
  then have "max_by ?le ?c = Some s" unfolding eq .
  from wait_order.max_by_ge [OF this mem] s show ?thesis
    by (auto simp: select_source_to_advance_def rank_simps)
qed

context exact_sources
begin

lemma serving_continues: "serving ses S \<Longrightarrow> continues ses S"
  by (simp add: serving_def)

end

lemma run_to_prefix_config:
  assumes run: "run_to_prefix topk ses = Some (Inr ex, ses')" and ok: "session_ok ses"
  shows "session_ok ses' \<and> rrf_k (state ses') = rrf_k (state ses) \<and> weights (state ses') = weights (state ses) \<and>
    top_k (state ses') = topk"
proof -
  obtain ses1 where ext: "extend_top_k topk ses = Inr ses1"
    using run by (auto simp: run_to_prefix_def split: sum.splits)
  note e = extend_top_k_ok [OF ext ok]
  show ?thesis
  proof (cases "exhausted_order ses1")
    case (Some order)
    with run ext e show ?thesis by (auto simp: run_to_prefix_def)
  next
    case None
    with run ext obtain r0 ses2 where r0: "run_to_completion ses1 = Some (r0, ses2)"
      and out: "(case r0 of Inl e \<Rightarrow> (Inl e, ses2)
        | Inr execution \<Rightarrow>
            if ex_stop_reason execution = AllSourcesExhausted
            then let order = complete_order (state ses2)
                 in (Inr (execution\<lparr>ex_point_ids := take topk order\<rparr>), ses2\<lparr>exhausted_order := Some order\<rparr>)
            else (Inr execution, ses2)) = (Inr ex, ses')"
      by (auto simp: run_to_prefix_def)
    note s = run_to_completion_sound [OF r0 e(1)]
    have "session_ok ses' \<and> state ses' = state ses2"
    proof (cases r0)
      case (Inr x)
      with s have "ex_stop_reason x = AllSourcesExhausted \<longrightarrow> all_sources_exhausted (state ses2)"
        by (auto simp: execution_of_def split: if_splits)
      with Inr s out show ?thesis by (auto simp: session_ok_def Let_def split: if_splits)
    qed (use out in simp)
    with s e show ?thesis by (simp add: session_config_def)
  qed
qed

section \<open>Properties\<close>

text \<open>A session over two lists in memory, used by the examples below.\<close>

definition demo_lists :: "point_id list list" where
  "demo_lists = [[NumId 1, NumId 2], [NumId 2, NumId 3]]"

definition demo_session :: "point_id list list dynamic_rrf_session" where
  "demo_session = (case new_with_inputs (map (PointSource \<circ> infallible_exact_rrf_stream) [0..<2]) demo_lists 1 1 2 None
     [Fin 1, Fin 1] default_policy of Inr ses \<Rightarrow> ses)"

lemma demo_session_new:
  "new_with_inputs (map (PointSource \<circ> infallible_exact_rrf_stream) [0..<2]) demo_lists 1 1 2 None
     [Fin 1, Fin 1] default_policy = Inr demo_session"
proof -
  have "\<exists>ses. new_with_inputs (map (PointSource \<circ> infallible_exact_rrf_stream) [0..<2]) demo_lists 1 1 2 None
     [Fin 1, Fin 1] default_policy = Inr ses"
    by (rule new_with_inputs_accepts) (auto simp: valid_weights_def valid_policy_def default_policy_def f_le_def)
  then show ?thesis unfolding demo_session_def by auto
qed

lemma demo_session_serving: "list_streams.serving 2 demo_session demo_lists"
  by (rule list_streams.new_session_serving [OF demo_session_new]) (auto simp: demo_lists_def less_Suc_eq)

lemmas demo_session_facts = new_with_inputs_ok [OF demo_session_new] state_new_config [OF new_with_inputs_ok(8) [OF demo_session_new]]

lemma demo_session_runs:
  assumes "1 \<le> topk"
  obtains ex ses' where "run_to_prefix topk demo_session = Some (Inr ex, ses')" "list_streams.serving 2 ses' demo_lists"
  using list_streams.run_to_prefix_serving [OF demo_session_serving, of topk] assms demo_session_facts by auto

text \<open>C2. Fail-closed fusion, for arbitrary sources. Whenever \<open>run_to_prefix\<close> returns a result, its identities are the
  exact head of the fused order of every family of streams that agrees with all that was observed; the sources may
  fail, lie about the future or share state.\<close>

theorem run_to_prefix_exact:
  assumes "session_ok ses" and "run_to_prefix topk ses = Some (Inr ex, ses')" and "continues ses' S"
  shows "ex_point_ids ex = take topk (reference_order (rrf_k (state ses)) (weights (state ses)) S) \<and> session_ok ses'"
  using run_to_prefix_sound [OF assms(2,1,3)] by simp

theorem run_to_prefix_exact_witness:
  "\<exists>ex ses'. run_to_prefix 1 demo_session = Some (Inr ex, ses') \<and> session_ok ses' \<and>
    ex_point_ids ex = take 1 (reference_order 2 [Fin 1, Fin 1] demo_lists)"
proof -
  obtain ex ses' where run: "run_to_prefix 1 demo_session = Some (Inr ex, ses')" "list_streams.serving 2 ses' demo_lists"
    by (rule demo_session_runs [of 1]) simp
  have "continues ses' demo_lists" using run(2) by (rule list_streams.serving_continues)
  from run_to_prefix_exact [OF demo_session_facts(1) run(1) this] run(1) demo_session_facts show ?thesis
    by (auto simp: numeral_2_eq_2)
qed

text \<open>C14. Progressive prefixes. A longer prefix asked of the same session later begins with the shorter one
  returned earlier, whatever the sources do.\<close>

theorem nested_prefixes:
  assumes "session_ok ses" and "run_to_prefix k1 ses = Some (Inr ex1, ses1)" and "run_to_prefix k2 ses1 = Some (Inr ex2, ses2)"
  shows "ex_point_ids ex1 = take k1 (ex_point_ids ex2)"
proof -
  let ?k = "rrf_k (state ses)" and ?w = "weights (state ses)"
  have ok1: "session_ok ses1"
    using run_to_prefix_config [OF assms(2,1)] by simp
  have ok2: "session_ok ses2"
    using run_to_prefix_config [OF assms(3) ok1] by simp
  let ?S = "source_history ses2"
  have c2: "continues ses2 ?S" by (rule history_continues [OF ok2])
  have c1: "continues ses1 ?S" by (rule run_to_prefix_continues [OF assms(3) ok1 c2])
  have cfg: "rrf_k (state ses1) = ?k" "weights (state ses1) = ?w" "top_k (state ses1) = k1"
    using run_to_prefix_config [OF assms(2,1)] by auto
  have "k1 \<le> k2"
    using assms(3) cfg(3) by (auto simp: run_to_prefix_def extend_top_k_def split: if_splits)
  with run_to_prefix_sound(2) [OF assms(2,1) c1] run_to_prefix_sound(2) [OF assms(3) ok1 c2] cfg show ?thesis
    by (simp add: min_def)
qed

theorem nested_prefixes_witness:
  "\<exists>ex1 ses1 ex2 ses2. run_to_prefix 1 demo_session = Some (Inr ex1, ses1) \<and> run_to_prefix 3 ses1 = Some (Inr ex2, ses2) \<and>
    ex_point_ids ex1 = take 1 (ex_point_ids ex2)"
proof -
  obtain ex1 ses1 where r1: "run_to_prefix 1 demo_session = Some (Inr ex1, ses1)" "list_streams.serving 2 ses1 demo_lists"
    by (rule demo_session_runs [of 1]) simp
  have "top_k (state ses1) \<le> 3" using run_to_prefix_config [OF r1(1) demo_session_facts(1)] by simp
  then obtain ex2 ses2 where r2: "run_to_prefix 3 ses1 = Some (Inr ex2, ses2)"
    using list_streams.run_to_prefix_serving [OF r1(2)] by blast
  from nested_prefixes [OF demo_session_facts(1) r1(1) r2] r1(1) r2 show ?thesis by blast
qed

text \<open>C3. Termination and equivalence with the batch computation. On finite in-memory streams every valid policy ends,
  without error, and returns the head of what \<open>exact_rrf_scoring\<close> computes from the complete responses.\<close>

theorem dynamic_rrf_equals_exact_scoring:
  assumes "responses \<noteq> []" and "\<forall>r\<in>set responses. distinct (map sp_id r)" and "1 \<le> k"
    and "length ws = length responses" and "\<forall>w\<in>set ws. valid_weight w" and "valid_policy pol"
  shows "\<exists>ex out. execute_dynamic_rrf_with_policy (map infallible_exact_rrf_stream [0..<length responses])
      (map (map sp_id) responses) topk k (Some ws) pol = Some (Inr ex) \<and>
    exact_rrf_scoring responses k (Some ws) = Inr out \<and> ex_point_ids ex = take topk (map sp_id out)"
proof -
  obtain out where out: "exact_rrf_scoring responses k (Some ws) = Inr out"
    "map sp_id out = reference_order k ws (map (map sp_id) responses)"
    using exact_rrf_scoring_order [OF assms(3,5,4,2) refl] by blast
  moreover have "\<exists>ex. execute_dynamic_rrf_with_policy (map infallible_exact_rrf_stream [0..<length (map (map sp_id) responses)])
      (map (map sp_id) responses) topk k (Some ws) pol = Some (Inr ex) \<and>
    ex_point_ids ex = take topk (reference_order k (unwrap_or (Some ws) (replicate (length (map (map sp_id) responses)) (Fin 1)))
      (map (map sp_id) responses))"
    using assms by (intro in_memory_execution) (auto simp: valid_weights_def list_all_iff)
  ultimately show ?thesis by auto
qed

theorem dynamic_rrf_equals_exact_scoring_witness:
  "\<exists>ex out. execute_dynamic_rrf_with_policy (map infallible_exact_rrf_stream [0..<2]) [[NumId 7], [NumId 3]] 1 2
      (Some [Fin 1, Fin 2]) default_policy = Some (Inr ex) \<and>
    exact_rrf_scoring one_response 2 (Some [Fin 1, Fin 2]) = Inr out \<and> ex_point_ids ex = take 1 (map sp_id out)"
  using dynamic_rrf_equals_exact_scoring [of one_response 2 "[Fin 1, Fin 2]" default_policy 1]
  by (auto simp: one_response_def valid_weight_def f_lt_def valid_policy_def default_policy_def numeral_2_eq_2)



text \<open>C16. A source is replaced only after the replacement has delivered exactly the observed prefix; otherwise the
  session keeps its sources, and in both cases its fusion state and history.\<close>

theorem replace_source_replays:
  assumes "session_ok ses" and "replace_source source nxt ses = (r, ses')"
  shows "state ses' = state ses \<and> source_history ses' = source_history ses \<and> session_ok ses' \<and>
    (r = Inr () \<longleftrightarrow> source < length (source_history ses) \<and> \<not> exhausted (state ses) ! source \<and>
       (\<exists>w. delivers nxt (world ses) (source_history ses ! source) w)) \<and>
    sources ses' = (if r = Inr () then (sources ses)[source := PointSource nxt] else sources ses)"
  using replace_source_ok [OF assms(2,1)] by auto

theorem replace_source_replays_witness:
  "\<exists>ses'. replace_source 0 (infallible_exact_rrf_stream 1) demo_session = (Inr (), ses') \<and>
    sources ses' = (sources demo_session)[0 := PointSource (infallible_exact_rrf_stream 1)]"
proof -
  obtain r ses' where run: "replace_source 0 (infallible_exact_rrf_stream 1) demo_session = (r, ses')" by fastforce
  from replace_source_replays [OF demo_session_facts(1) run] run demo_session_facts show ?thesis by auto
qed

text \<open>C17. Fairness. Once an unfinished source below its target has waited for the fairness window, the source chosen
  next is one that has waited at least as long.\<close>

theorem fairness_window_respected:
  assumes "fairness_after_actions_per_source (policy ses) = Some fairness" and "i < length (sources ses)"
    and "next_possible_contribution (state ses) i \<noteq> None" and "below_pause_target mp ses i"
    and "saturating_mul fairness (length (sources ses)) \<le> source_wait ses i"
  shows "\<exists>s. select_source_to_advance mp ses = Inr s \<and> source_wait ses i \<le> source_wait ses s"
  using assms by (rule fair_source_longest_wait)

theorem fairness_window_respected_witness:
  "\<exists>s. select_source_to_advance [None, None] (demo_session\<lparr>advance_actions := 16\<rparr>) = Inr s \<and>
     16 \<le> source_wait (demo_session\<lparr>advance_actions := 16\<rparr>) s"
proof -
  let ?ses = "demo_session\<lparr>advance_actions := 16\<rparr>"
  have f: "policy demo_session = default_policy" "source_last_advanced demo_session = [0, 0]"
    "next_positions (state demo_session) = [0, 0]"
    using demo_session_new by (auto simp: new_with_inputs_def state_new_def Let_def rbind_eq_Inr numeral_2_eq_2 split: if_splits)
      (erule subst, simp)+
  have "saturating_mul 8 (length (sources ?ses)) \<le> source_wait ?ses 0"
    using f demo_session_facts by (simp add: source_wait_def usize_simps)
  moreover have "source_wait ?ses 0 = 16" using f by (simp add: source_wait_def usize_simps)
  moreover have "length (weights (state demo_session)) = 2" using demo_session_facts by simp
  ultimately show ?thesis
    using fairness_window_respected [of ?ses 8 0 "[None, None]"] f demo_session_facts
    by (simp add: default_policy_def below_pause_target_def next_possible_contribution_def)
qed

end
