(* ===== verification/Rank_Stream.thy ===== *)
theory Rank_Stream
  imports Rrf_Session
begin

text \<open>
  The fail-closed merge of \<open>src/lib/segment/src/index/exact_rank_stream.rs\<close>: exact
  local score streams of one channel become one channel-global rank stream.

  As for the session, the captured state of the source closures is one threaded
  value \<open>kw_world\<close>. The binary heap of pending points is a list popped at a greatest
  element, the set of seen identities a list.
\<close>

section \<open>Data\<close>

record exact_scored_identity =
  si_id :: point_id
  si_score :: flt

record exact_score_batch =
  score_points :: "exact_scored_identity list"
  score_exhausted :: bool

datatype 's exact_score_source =
    ScorePoint "'s \<Rightarrow> (operation_error + exact_scored_identity) option \<times> 's"
  | ScoreBatch "nat \<Rightarrow> 's \<Rightarrow> (operation_error + exact_score_batch) \<times> 's" "exact_scored_identity list" bool

record exact_score_merge_telemetry =
  mt_source_pulls :: "nat list"
  mt_source_exhausted :: "bool list"
  points_emitted :: nat

record pending_exact_score =
  pe_source :: nat
  pe_point :: exact_scored_identity

definition pending_cmp :: "pending_exact_score \<Rightarrow> pending_exact_score \<Rightarrow> ordering" where
  "pending_cmp a b =
     then_with (then_with (cmp (si_score (pe_point a)) (si_score (pe_point b)))
                          (cmp (si_id (pe_point b)) (si_id (pe_point a))))
               (cmp (pe_source b) (pe_source a))"

definition pending_le :: "pending_exact_score \<Rightarrow> pending_exact_score \<Rightarrow> bool" where
  "pending_le a b = is_le (pending_cmp a b)"

record 's kway_exact_score_stream =
  kw_sources :: "'s exact_score_source list"
  kw_world :: 's
  source_refill_batch_size :: nat
  pending :: "pending_exact_score list"
  previous :: "exact_scored_identity option list"
  refill_source :: "nat option"
  seen :: "point_id list"
  merge_telemetry :: exact_score_merge_telemetry
  terminal_error :: "operation_error option"
  error_delivered :: bool

definition exact_score_order :: "exact_scored_identity \<Rightarrow> exact_scored_identity \<Rightarrow> ordering" where
  "exact_score_order left right =
     then_with (cmp (si_score right) (si_score left)) (cmp (si_id left) (si_id right))"

section \<open>Operations\<close>

definition fail_stream :: "operation_error \<Rightarrow> 's kway_exact_score_stream \<Rightarrow> 's kway_exact_score_stream" where
  "fail_stream e kw = kw\<lparr>terminal_error := Some e, pending := [], refill_source := None\<rparr>"

text \<open>The validation loop over a pulled batch; \<open>batch_ids\<close> are the identities already met in it.\<close>

fun check_score_batch ::
  "nat \<Rightarrow> point_id list \<Rightarrow> exact_scored_identity option \<Rightarrow> point_id list \<Rightarrow> exact_scored_identity list
     \<Rightarrow> operation_error option" where
  "check_score_batch source seen_ids prev batch_ids [] = None"
| "check_score_batch source seen_ids prev batch_ids (p # ps) =
     (if \<not> is_finite (si_score p) then Some (ValidationError (MsgMergeNonFinite source))
      else if (case prev of None \<Rightarrow> False | Some q \<Rightarrow> exact_score_order q p = Greater)
      then Some (ValidationError (MsgMergeOrderInBatch source))
      else if si_id p \<in> set seen_ids \<or> si_id p \<in> set batch_ids
      then Some (ValidationError (MsgMergeRepeatedInBatch source (si_id p)))
      else check_score_batch source seen_ids (Some p) (si_id p # batch_ids) ps)"

definition pop_front ::
  "nat \<Rightarrow> (nat \<Rightarrow> 's \<Rightarrow> (operation_error + exact_score_batch) \<times> 's) \<Rightarrow> exact_scored_identity list \<Rightarrow> bool
     \<Rightarrow> 's kway_exact_score_stream
     \<Rightarrow> (operation_error + exact_scored_identity option) \<times> 's kway_exact_score_stream" where
  "pop_front source pull buffer exhst kw =
     (Inr (case buffer of [] \<Rightarrow> None | p # _ \<Rightarrow> Some p),
      kw\<lparr>kw_sources := (kw_sources kw)[source := ScoreBatch pull (tl buffer) exhst]\<rparr>)"

text \<open>The next point of one source, pulling and validating a batch when its buffer is empty.\<close>

definition pull_point ::
  "nat \<Rightarrow> 's kway_exact_score_stream
     \<Rightarrow> (operation_error + exact_scored_identity option) \<times> 's kway_exact_score_stream" where
  "pull_point source kw =
     (case kw_sources kw ! source of
        ScorePoint nxt \<Rightarrow>
          (case nxt (kw_world kw) of
             (None, w) \<Rightarrow> (Inr None, kw\<lparr>kw_world := w\<rparr>)
           | (Some (Inl e), w) \<Rightarrow> (Inl e, kw\<lparr>kw_world := w\<rparr>)
           | (Some (Inr p), w) \<Rightarrow> (Inr (Some p), kw\<lparr>kw_world := w\<rparr>))
      | ScoreBatch pull buffer exhst \<Rightarrow>
          if buffer = [] \<and> \<not> exhst
          then case pull (source_refill_batch_size kw) (kw_world kw) of
                 (Inl e, w) \<Rightarrow> (Inl e, kw\<lparr>kw_world := w\<rparr>)
               | (Inr batch, w) \<Rightarrow>
                   let kw' = kw\<lparr>kw_world := w\<rparr>
                   in if source_refill_batch_size kw < length (score_points batch)
                      then (Inl (ValidationError (MsgMergeTooLarge source (length (score_points batch))
                              (source_refill_batch_size kw))), kw')
                      else if score_points batch = [] \<and> \<not> score_exhausted batch
                      then (Inl (ValidationError (MsgMergeEmptyBatch source)), kw')
                      else case check_score_batch source (seen kw) (previous kw ! source) [] (score_points batch) of
                             Some e \<Rightarrow> (Inl e, kw')
                           | None \<Rightarrow> pop_front source pull (score_points batch) (score_exhausted batch) kw'
          else pop_front source pull buffer exhst kw)"

definition refill ::
  "nat \<Rightarrow> 's kway_exact_score_stream \<Rightarrow> (operation_error + unit) \<times> 's kway_exact_score_stream" where
  "refill source kw =
     (if mt_source_exhausted (merge_telemetry kw) ! source then (Inr (), kw)
      else case pull_point source kw of
        (Inl e, kw') \<Rightarrow> (Inl e, kw')
      | (Inr None, kw') \<Rightarrow>
          (Inr (), kw'\<lparr>merge_telemetry := (merge_telemetry kw')
             \<lparr>mt_source_exhausted := (mt_source_exhausted (merge_telemetry kw'))[source := True]\<rparr>\<rparr>)
      | (Inr (Some point), kw') \<Rightarrow>
          if \<not> is_finite (si_score point) then (Inl (ValidationError (MsgMergeNonFinite source)), kw')
          else if (case previous kw' ! source of None \<Rightarrow> False | Some q \<Rightarrow> exact_score_order q point = Greater)
          then (Inl (ValidationError (MsgMergeOrder source)), kw')
          else (Inr (), kw'\<lparr>merge_telemetry := (merge_telemetry kw')
                   \<lparr>mt_source_pulls := (mt_source_pulls (merge_telemetry kw'))
                      [source := mt_source_pulls (merge_telemetry kw') ! source + 1]\<rparr>,
                  previous := (previous kw')[source := Some point],
                  pending := heap_push \<lparr>pe_source = source, pe_point = point\<rparr> (pending kw')\<rparr>))"

definition pop_pending ::
  "'s kway_exact_score_stream
     \<Rightarrow> (operation_error + exact_scored_identity option) \<times> 's kway_exact_score_stream" where
  "pop_pending kw =
     (case heap_pop pending_le (pending kw) of
        None \<Rightarrow> (Inr None, kw)
      | Some (p, rest) \<Rightarrow>
          let kw' = kw\<lparr>pending := rest, refill_source := Some (pe_source p)\<rparr>; point = pe_point p
          in if si_id point \<in> set (seen kw')
             then (Inl (ValidationError (MsgMergeDuplicate (si_id point))), kw')
             else (Inr (Some point),
                   kw'\<lparr>seen := si_id point # seen kw',
                       merge_telemetry := (merge_telemetry kw')
                         \<lparr>points_emitted := points_emitted (merge_telemetry kw') + 1\<rparr>\<rparr>))"

definition next_inner ::
  "'s kway_exact_score_stream
     \<Rightarrow> (operation_error + exact_scored_identity option) \<times> 's kway_exact_score_stream" where
  "next_inner kw =
     (case refill_source kw of
        None \<Rightarrow> pop_pending kw
      | Some source \<Rightarrow>
          (case refill source (kw\<lparr>refill_source := None\<rparr>) of
             (Inl e, kw') \<Rightarrow> (Inl e, kw')
           | (Inr _, kw') \<Rightarrow> pop_pending kw'))"

text \<open>The loop of \<open>next_rank_batch\<close>: at most \<open>n\<close> further identities, and whether the end was met.\<close>

fun collect_ranks ::
  "nat \<Rightarrow> 's kway_exact_score_stream
     \<Rightarrow> (operation_error + point_id list \<times> bool) \<times> 's kway_exact_score_stream" where
  "collect_ranks 0 kw = (Inr ([], False), kw)"
| "collect_ranks (Suc n) kw =
     (case next_inner kw of
        (Inr (Some point), kw') \<Rightarrow>
          (case collect_ranks n kw' of
             (Inr (ids, exhst), kw'') \<Rightarrow> (Inr (si_id point # ids, exhst), kw'')
           | (Inl e, kw'') \<Rightarrow> (Inl e, kw''))
      | (Inr None, kw') \<Rightarrow> (Inr ([], True), kw')
      | (Inl e, kw') \<Rightarrow> (Inl e, fail_stream e kw'))"

definition next_rank_batch ::
  "nat \<Rightarrow> 's kway_exact_score_stream
     \<Rightarrow> (operation_error + channel_rank_batch) \<times> 's kway_exact_score_stream" where
  "next_rank_batch max_results kw =
     (if max_results = 0 then (Inl (ValidationError MsgMergeBatchSize), kw)
      else case terminal_error kw of
        Some e \<Rightarrow> (Inl e, kw)
      | None \<Rightarrow>
          (case collect_ranks max_results kw of
             (Inl e, kw') \<Rightarrow> (Inl e, kw')
           | (Inr (ids, exhst), kw') \<Rightarrow>
               (Inr \<lparr>start_rank = points_emitted (merge_telemetry kw), point_ids = ids, batch_exhausted = exhst\<rparr>, kw')))"

definition stream_next ::
  "'s kway_exact_score_stream
     \<Rightarrow> (operation_error + exact_scored_identity) option \<times> 's kway_exact_score_stream" where
  "stream_next kw =
     (case terminal_error kw of
        Some e \<Rightarrow> if error_delivered kw then (None, kw) else (Some (Inl e), kw\<lparr>error_delivered := True\<rparr>)
      | None \<Rightarrow>
          (case next_inner kw of
             (Inr (Some point), kw') \<Rightarrow> (Some (Inr point), kw')
           | (Inr None, kw') \<Rightarrow> (None, kw')
           | (Inl e, kw') \<Rightarrow> (Some (Inl e), (fail_stream e kw')\<lparr>error_delivered := True\<rparr>)))"

definition into_rank_stream ::
  "'s kway_exact_score_stream \<Rightarrow> (operation_error + point_id) option \<times> 's kway_exact_score_stream" where
  "into_rank_stream kw =
     (case stream_next kw of
        (Some (Inr point), kw') \<Rightarrow> (Some (Inr (si_id point)), kw')
      | (Some (Inl e), kw') \<Rightarrow> (Some (Inl e), kw')
      | (None, kw') \<Rightarrow> (None, kw'))"

section \<open>Construction\<close>

fun prime_sources ::
  "nat list \<Rightarrow> 's kway_exact_score_stream \<Rightarrow> operation_error + 's kway_exact_score_stream" where
  "prime_sources [] kw = Inr kw"
| "prime_sources (source # rest) kw =
     (case refill source kw of (Inl e, _) \<Rightarrow> Inl e | (Inr _, kw') \<Rightarrow> prime_sources rest kw')"

definition empty_stream ::
  "'s exact_score_source list \<Rightarrow> 's \<Rightarrow> nat \<Rightarrow> 's kway_exact_score_stream" where
  "empty_stream srcs w batch_size =
     \<lparr>kw_sources = srcs, kw_world = w, source_refill_batch_size = batch_size, pending = [],
      previous = replicate (length srcs) None, refill_source = None, seen = [],
      merge_telemetry = \<lparr>mt_source_pulls = replicate (length srcs) 0,
        mt_source_exhausted = replicate (length srcs) False, points_emitted = 0\<rparr>,
      terminal_error = None, error_delivered = False\<rparr>"

definition new_with_sources ::
  "'s exact_score_source list \<Rightarrow> 's \<Rightarrow> nat \<Rightarrow> operation_error + 's kway_exact_score_stream" where
  "new_with_sources srcs w batch_size =
     (if srcs = [] then Inl (ValidationError MsgMergeNoSources)
      else if batch_size = 0 then Inl (ValidationError MsgMergeRefillSize)
      else prime_sources [0..<length srcs] (empty_stream srcs w batch_size))"

definition kway_new ::
  "('s \<Rightarrow> (operation_error + exact_scored_identity) option \<times> 's) list \<Rightarrow> 's
     \<Rightarrow> operation_error + 's kway_exact_score_stream" where
  "kway_new streams w = new_with_sources (map ScorePoint streams) w 1"

definition kway_new_batched ::
  "(nat \<Rightarrow> 's \<Rightarrow> (operation_error + exact_score_batch) \<times> 's) list \<Rightarrow> 's \<Rightarrow> nat
     \<Rightarrow> operation_error + 's kway_exact_score_stream" where
  "kway_new_batched streams w batch_size = new_with_sources (map (\<lambda>pull. ScoreBatch pull [] False) streams) w batch_size"

section \<open>The channel order\<close>

definition before :: "exact_scored_identity \<Rightarrow> exact_scored_identity \<Rightarrow> bool" where
  "before p q \<longleftrightarrow> ranks_before (si_score p, si_id p) (si_score q, si_id q)"

interpretation before: linear_rank before
proof
  fix a b :: exact_scored_identity
  assume "before a b" "before b a"
  then have "(si_score a, si_id a) = (si_score b, si_id b)"
    unfolding before_def by (rule ranks_before.rank_antisym)
  then show "a = b" by (cases a; cases b) simp
qed (auto simp: before_def intro: ranks_before.rank_trans ranks_before.rank_total [THEN disjE])

lemma exact_score_order_Greater [rank_simps]: "exact_score_order p q = Greater \<longleftrightarrow> \<not> before p q"
proof -
  have "is_le (exact_score_order p q) \<longleftrightarrow> before p q"
    by (auto simp: exact_score_order_def before_def ranks_before_def rank_simps)
  then show ?thesis by (cases "exact_score_order p q") (auto simp: is_le_def)
qed

lemma pending_le_iff [rank_simps]:
  "pending_le a b \<longleftrightarrow> si_score (pe_point a) < si_score (pe_point b) \<or> si_score (pe_point a) = si_score (pe_point b) \<and>
     (si_id (pe_point b) < si_id (pe_point a) \<or>
      si_id (pe_point a) = si_id (pe_point b) \<and> pe_source b \<le> pe_source a)"
  by (auto simp: pending_le_def pending_cmp_def rank_simps)

interpretation pending_le: total_rank pending_le
  by unfold_locales (auto simp: pending_le_iff)

lemma pending_le_before: "pending_le a b \<Longrightarrow> before (pe_point b) (pe_point a)"
  by (auto simp: pending_le_iff before_def ranks_before_def)

section \<open>The merge invariant\<close>

text \<open>
  \<open>merge_inv lst U kw\<close>, for arbitrary sources: \<open>lst\<close> is the point emitted lst and \<open>U\<close> the
  sources that still have to be refilled. Every other source is exhausted or has
  exactly one pending point, which is its latest and does not precede \<open>lst\<close>.
\<close>

abbreviation source_done :: "'s kway_exact_score_stream \<Rightarrow> nat \<Rightarrow> bool" where
  "source_done kw i \<equiv> mt_source_exhausted (merge_telemetry kw) ! i"

definition after_last :: "exact_scored_identity option \<Rightarrow> exact_scored_identity \<Rightarrow> bool" where
  "after_last lst q \<longleftrightarrow> (case lst of None \<Rightarrow> True | Some l \<Rightarrow> before l q)"

definition merge_inv :: "exact_scored_identity option \<Rightarrow> nat set \<Rightarrow> 's kway_exact_score_stream \<Rightarrow> bool" where
  "merge_inv lst U kw \<longleftrightarrow>
     (let n = length (kw_sources kw); srcs = map pe_source (pending kw)
      in length (previous kw) = n \<and> length (mt_source_pulls (merge_telemetry kw)) = n \<and>
         length (mt_source_exhausted (merge_telemetry kw)) = n \<and>
         distinct srcs \<and> (\<forall>p\<in>set (pending kw). pe_source p < n \<and> pe_source p \<notin> U \<and> \<not> source_done kw (pe_source p) \<and>
            previous kw ! pe_source p = Some (pe_point p) \<and> after_last lst (pe_point p)) \<and>
         (\<forall>i\<in>U. i < n \<and> \<not> source_done kw i \<and> previous kw ! i = lst) \<and>
         (\<forall>i<n. i \<in> U \<or> source_done kw i \<or> i \<in> set srcs) \<and>
         sum_list (mt_source_pulls (merge_telemetry kw)) = points_emitted (merge_telemetry kw) + length (pending kw) \<and>
         length (seen kw) = points_emitted (merge_telemetry kw))"

lemma pull_point_fields:
  assumes "pull_point source kw = (r, kw')"
  shows "pending kw' = pending kw" "previous kw' = previous kw" "refill_source kw' = refill_source kw"
    "seen kw' = seen kw" "merge_telemetry kw' = merge_telemetry kw" "terminal_error kw' = terminal_error kw"
    "source_refill_batch_size kw' = source_refill_batch_size kw" "length (kw_sources kw') = length (kw_sources kw)"
    "error_delivered kw' = error_delivered kw"
  using assms
  by (auto simp: pull_point_def pop_front_def Let_def
      split: exact_score_source.splits prod.splits option.splits sum.splits if_splits)

lemma refill_cases:
  assumes "refill source kw = (Inr (), kw')"
  obtains "source_done kw source" "kw' = kw"
  | kw1 where "pull_point source kw = (Inr None, kw1)" "\<not> source_done kw source"
      "kw' = kw1\<lparr>merge_telemetry := (merge_telemetry kw)
         \<lparr>mt_source_exhausted := (mt_source_exhausted (merge_telemetry kw))[source := True]\<rparr>\<rparr>"
  | kw1 p where "pull_point source kw = (Inr (Some p), kw1)" "\<not> source_done kw source" "is_finite (si_score p)"
      "after_last (previous kw ! source) p"
      "kw' = kw1\<lparr>merge_telemetry := (merge_telemetry kw)
           \<lparr>mt_source_pulls := (mt_source_pulls (merge_telemetry kw))
              [source := Suc (mt_source_pulls (merge_telemetry kw) ! source)]\<rparr>,
         previous := (previous kw)[source := Some p],
         pending := \<lparr>pe_source = source, pe_point = p\<rparr> # pending kw\<rparr>"
proof -
  obtain r kw1 where pull: "pull_point source kw = (r, kw1)" by fastforce
  note f = pull_point_fields [OF pull]
  show thesis
  proof (cases "source_done kw source")
    case True
    with assms have "kw' = kw" by (simp add: refill_def)
    with True show ?thesis by (rule that(1))
  next
    case False
    show ?thesis
    proof (cases r)
      case (Inl e)
      with assms False pull show ?thesis by (simp add: refill_def)
    next
      case (Inr op)
      show ?thesis
      proof (cases op)
        case None
        with assms False pull Inr f(5) have "kw' = kw1\<lparr>merge_telemetry := (merge_telemetry kw)
            \<lparr>mt_source_exhausted := (mt_source_exhausted (merge_telemetry kw))[source := True]\<rparr>\<rparr>"
          by (simp add: refill_def)
        with pull Inr None False show ?thesis using that(2) by blast
      next
        case (Some p)
        have ok: "is_finite (si_score p)" "after_last (previous kw ! source) p"
          using assms False pull Inr Some f
          by (auto simp: refill_def after_last_def rank_simps split: if_splits option.splits)
        then have "\<not> (case previous kw ! source of None \<Rightarrow> False | Some q \<Rightarrow> exact_score_order q p = Greater)"
          by (auto simp: after_last_def rank_simps split: option.splits)
        then have "kw' = kw1\<lparr>merge_telemetry := (merge_telemetry kw)
             \<lparr>mt_source_pulls := (mt_source_pulls (merge_telemetry kw))
                [source := Suc (mt_source_pulls (merge_telemetry kw) ! source)]\<rparr>,
           previous := (previous kw)[source := Some p],
           pending := \<lparr>pe_source = source, pe_point = p\<rparr> # pending kw\<rparr>"
          using assms False pull Inr Some f(1,2,5) ok by (simp add: refill_def heap_push_def)
        with pull Inr Some False ok show ?thesis using that(3) by blast
      qed
    qed
  qed
qed

lemma merge_inv_refill:
  assumes inv: "merge_inv lst U kw" and U: "source \<in> U" and run: "refill source kw = (Inr (), kw')"
  shows "merge_inv lst (U - {source}) kw'" and "seen kw' = seen kw" "refill_source kw' = refill_source kw"
proof -
  have src: "source < length (kw_sources kw)" "\<not> source_done kw source" "previous kw ! source = lst"
    using inv U by (auto simp: merge_inv_def Let_def)
  have "merge_inv lst (U - {source}) kw' \<and> seen kw' = seen kw \<and> refill_source kw' = refill_source kw"
    using run
  proof (cases rule: refill_cases)
    case 1
    with src show ?thesis by simp
  next
    case (2 kw1)
    note f = pull_point_fields [OF 2(1)]
    show ?thesis
      using inv src U unfolding merge_inv_def Let_def 2(3)
      by (auto simp: f nth_list_update)
  next
    case (3 kw1 p)
    note f = pull_point_fields [OF 3(1)]
    have "length (mt_source_pulls (merge_telemetry kw)) = length (kw_sources kw)" using inv by (simp add: merge_inv_def Let_def)
    with src have "sum_list ((mt_source_pulls (merge_telemetry kw))[source := Suc (mt_source_pulls (merge_telemetry kw) ! source)])
      = Suc (sum_list (mt_source_pulls (merge_telemetry kw)))" by (simp add: sum_list_update_Suc)
    with inv src U 3(4) show ?thesis unfolding merge_inv_def Let_def 3(5)
      by (auto simp: f nth_list_update)
  qed
  then show "merge_inv lst (U - {source}) kw'" "seen kw' = seen kw" "refill_source kw' = refill_source kw" by auto
qed

lemma merge_inv_pop:
  assumes inv: "merge_inv lst {} kw" and run: "pop_pending kw = (Inr (Some p), kw')"
  obtains s where "refill_source kw' = Some s" "merge_inv (Some p) {s} kw'" "after_last lst p"
    "si_id p \<notin> set (seen kw)" "seen kw' = si_id p # seen kw"
proof -
  obtain m rest where pop: "heap_pop pending_le (pending kw) = Some (m, rest)" "p = pe_point m" "si_id p \<notin> set (seen kw)"
    and kw': "kw' = kw\<lparr>pending := rest, refill_source := Some (pe_source m), seen := si_id p # seen kw,
       merge_telemetry := (merge_telemetry kw)\<lparr>points_emitted := Suc (points_emitted (merge_telemetry kw))\<rparr>\<rparr>"
    using run by (auto simp: pop_pending_def Let_def split: option.splits if_splits)
  have sets: "set (pending kw) = insert m (set rest)" "length (pending kw) = Suc (length rest)"
    using heap_pop_set [OF pop(1)] heap_pop_length [OF pop(1)] by auto
  have ms: "mset (map pe_source (pending kw)) = mset (pe_source m # map pe_source rest)"
    using heap_pop_mset [OF pop(1)] by simp
  have dist: "distinct (pe_source m # map pe_source rest)"
    using inv mset_eq_imp_distinct_iff [OF ms] by (simp add: merge_inv_def Let_def)
  have ord: "before p (pe_point q)" if "q \<in> set rest" for q
    using pending_le.heap_pop_ge [OF pop(1), of q] that sets pop(2) by (auto intro: pending_le_before)
  have "merge_inv (Some p) {pe_source m} kw'"
    using inv dist ord sets pop(2) unfolding merge_inv_def Let_def kw'
    by (auto simp: after_last_def) (metis image_eqI)
  moreover have "after_last lst p" using inv sets pop(2) by (simp add: merge_inv_def Let_def)
  ultimately show thesis using that pop(3) by (simp add: kw')
qed

definition kway_ok :: "exact_scored_identity option \<Rightarrow> 's kway_exact_score_stream \<Rightarrow> bool" where
  "kway_ok lst kw \<longleftrightarrow> merge_inv lst (set_option (refill_source kw)) kw"

lemma next_inner_refilled:
  assumes ok: "kway_ok lst kw" and run: "next_inner kw = (Inr r, kw')"
  obtains kw1 where "merge_inv lst {} kw1" "seen kw1 = seen kw" "refill_source kw1 = None" "pop_pending kw1 = (Inr r, kw')"
proof (cases "refill_source kw")
  case None
  with ok run that show ?thesis by (simp add: kway_ok_def next_inner_def)
next
  case (Some s)
  let ?kw = "kw\<lparr>refill_source := None\<rparr>"
  have inv: "merge_inv lst {s} ?kw"
    using ok Some by (simp add: kway_ok_def merge_inv_def)
  obtain r1 kw1 where kw1: "refill s ?kw = (r1, kw1)" by (metis surj_pair)
  have "next_inner kw = (case r1 of Inl e \<Rightarrow> (Inl e, kw1) | Inr _ \<Rightarrow> pop_pending kw1)"
    unfolding next_inner_def Some option.case kw1 prod.case by (cases r1) simp_all
  with run have "(case r1 of Inl e \<Rightarrow> (Inl e, kw1) | Inr _ \<Rightarrow> pop_pending kw1) = (Inr r, kw')" by simp
  then have r1: "r1 = Inr ()" and pop: "pop_pending kw1 = (Inr r, kw')"
    by (cases r1; simp)+
  from kw1 r1 have "refill s ?kw = (Inr (), kw1)" by simp
  from merge_inv_refill [OF inv _ this] pop show ?thesis by (intro that) simp_all
qed

lemma next_inner_Some:
  assumes ok: "kway_ok lst kw" and run: "next_inner kw = (Inr (Some p), kw')"
  shows "kway_ok (Some p) kw'" "after_last lst p" "si_id p \<notin> set (seen kw)" "seen kw' = si_id p # seen kw"
proof -
  obtain kw1 where k: "merge_inv lst {} kw1" "seen kw1 = seen kw" "pop_pending kw1 = (Inr (Some p), kw')"
    by (rule next_inner_refilled [OF ok run])
  obtain s where s: "refill_source kw' = Some s" "merge_inv (Some p) {s} kw'" "after_last lst p"
    "si_id p \<notin> set (seen kw1)" "seen kw' = si_id p # seen kw1"
    by (rule merge_inv_pop [OF k(1,3)])
  with k(2) show "kway_ok (Some p) kw'" "after_last lst p" "si_id p \<notin> set (seen kw)" "seen kw' = si_id p # seen kw"
    by (simp_all add: kway_ok_def)
qed

lemma next_inner_None:
  assumes ok: "kway_ok lst kw" and run: "next_inner kw = (Inr None, kw')"
  shows "pending kw' = []" "list_all (\<lambda>d. d) (mt_source_exhausted (merge_telemetry kw'))"
    "sum_list (mt_source_pulls (merge_telemetry kw')) = length (seen kw')" "seen kw' = seen kw" "kway_ok lst kw'"
proof -
  obtain kw1 where k: "merge_inv lst {} kw1" "seen kw1 = seen kw" "refill_source kw1 = None" "pop_pending kw1 = (Inr None, kw')"
    by (rule next_inner_refilled [OF ok run])
  then have "kw' = kw1" "pending kw1 = []"
    by (auto simp: pop_pending_def Let_def split: option.splits if_splits)
  with k(1-3) show "pending kw' = []" "list_all (\<lambda>d. d) (mt_source_exhausted (merge_telemetry kw'))"
    "sum_list (mt_source_pulls (merge_telemetry kw')) = length (seen kw')" "seen kw' = seen kw" "kway_ok lst kw'"
    by (simp_all add: kway_ok_def merge_inv_def Let_def list_all_length)
qed

lemma prime_sources_ok:
  assumes "prime_sources (map (\<lambda>d. n - d) (rev [1..<Suc m])) kw = Inr kw'" "m \<le> n" "n = length (kw_sources kw)"
    "merge_inv lst {n - m..<n} kw" "refill_source kw = None"
  shows "kway_ok lst kw' \<and> seen kw' = seen kw"
  using assms
proof (induction m arbitrary: kw)
  case 0
  then show ?case by (simp add: kway_ok_def)
next
  case (Suc m)
  let ?s = "n - Suc m"
  obtain kw1 where kw1: "refill ?s kw = (Inr (), kw1)" "prime_sources (map (\<lambda>d. n - d) (rev [1..<Suc m])) kw1 = Inr kw'"
  proof -
    obtain r1 kw1 where "refill ?s kw = (r1, kw1)" by (metis surj_pair)
    with Suc.prems(1) that show thesis by (cases r1) simp_all
  qed
  have s: "?s \<in> {n - Suc m..<n}" using Suc.prems(2) by auto
  note r = merge_inv_refill [OF Suc.prems(4) s kw1(1)]
  have "{n - Suc m..<n} - {?s} = {n - m..<n}" using Suc.prems(2) by auto
  moreover have "length (kw_sources kw1) = n"
  proof -
    from kw1(1) show ?thesis using pull_point_fields(8) Suc.prems(3) by (cases rule: refill_cases) auto
  qed
  ultimately show ?case using Suc.IH [OF kw1(2)] r Suc.prems by simp
qed

lemma upt_descending: "map (\<lambda>d. n - d) (rev [1..<Suc n]) = [0..<n]"
  by (rule nth_equalityI) (auto simp: rev_nth simp del: upt_Suc)

lemma new_with_sources_ok:
  assumes "new_with_sources srcs w batch_size = Inr kw"
  shows "kway_ok None kw" "seen kw = []"
proof -
  have run: "prime_sources [0..<length srcs] (empty_stream srcs w batch_size) = Inr kw"
    using assms by (auto simp: new_with_sources_def split: if_splits)
  have "merge_inv None {length srcs - length srcs..<length srcs} (empty_stream srcs w batch_size)"
    by (simp add: merge_inv_def empty_stream_def Let_def)
  then have "kway_ok None kw \<and> seen kw = seen (empty_stream srcs w batch_size)"
    by (intro prime_sources_ok [of "length srcs" "length srcs"] run [folded upt_descending])
      (simp_all add: empty_stream_def)
  then show "kway_ok None kw" "seen kw = []" by (simp_all add: empty_stream_def)
qed

section \<open>What the merge emits\<close>

text \<open>\<open>emits kw ps kw'\<close>: successive calls of \<open>next_inner\<close> return the points \<open>ps\<close> one after the other.\<close>

inductive emits ::
  "'s kway_exact_score_stream \<Rightarrow> exact_scored_identity list \<Rightarrow> 's kway_exact_score_stream \<Rightarrow> bool" where
  emits_Nil: "emits kw [] kw"
| emits_Cons: "next_inner kw = (Inr (Some p), kw') \<Longrightarrow> emits kw' ps kw'' \<Longrightarrow> emits kw (p # ps) kw''"

inductive_cases emits_NilE: "emits kw [] kw'"
inductive_cases emits_ConsE: "emits kw (p # ps) kw'"

lemma emits_ok:
  assumes "emits kw ps kw'" "kway_ok lst kw"
  shows "sorted_wrt before ps \<and> (\<forall>p\<in>set ps. after_last lst p) \<and> seen kw' = rev (map si_id ps) @ seen kw \<and>
    distinct (map si_id ps) \<and> set (map si_id ps) \<inter> set (seen kw) = {} \<and>
    kway_ok (if ps = [] then lst else Some (last ps)) kw'"
  using assms
proof (induction arbitrary: lst rule: emits.induct)
  case (emits_Nil kw)
  then show ?case by simp
next
  case (emits_Cons kw p kw' ps kw'')
  note n = next_inner_Some [OF emits_Cons.prems emits_Cons.hyps(1)]
  from emits_Cons.IH [OF n(1)] n(2-4) show ?case
    by (auto simp: after_last_def split: option.splits intro: before.rank_trans)
qed

lemma emits_drained:
  assumes "emits kw ps kw'" "kway_ok None kw" "seen kw = []" "next_inner kw' = (Inr None, kw'')"
  shows "list_all (\<lambda>d. d) (mt_source_exhausted (merge_telemetry kw''))"
    "length ps = sum_list (mt_source_pulls (merge_telemetry kw''))"
proof -
  note e = emits_ok [OF assms(1,2)]
  obtain lst where "kway_ok lst kw'" using e by blast
  from next_inner_None [OF this assms(4)] e assms(3)
  show "list_all (\<lambda>d. d) (mt_source_exhausted (merge_telemetry kw''))"
    "length ps = sum_list (mt_source_pulls (merge_telemetry kw''))" by simp_all
qed

section \<open>Merging sources that keep the score-stream contract\<close>

lemma check_score_batch_None:
  assumes "\<forall>p\<in>set ps. is_finite (si_score p) \<and> after_last prev p" "sorted_wrt before ps"
    "distinct (map si_id ps)" "set (map si_id ps) \<inter> (set seen_ids \<union> set batch_ids) = {}"
  shows "check_score_batch source seen_ids prev batch_ids ps = None"
  using assms
proof (induction ps arbitrary: prev batch_ids)
  case (Cons p ps)
  have "check_score_batch source seen_ids (Some p) (si_id p # batch_ids) ps = None"
    using Cons.prems by (intro Cons.IH) (auto simp: after_last_def)
  with Cons.prems(1,4) show ?case by (auto simp: after_last_def rank_simps split: option.splits)
qed simp

text \<open>
  The contract of an exact local score stream: \<open>serves w i xs\<close> says that in the world \<open>w\<close>
  source \<open>i\<close> will deliver exactly the points \<open>xs\<close>, in this order.
\<close>

locale exact_score_sources =
  fixes pulls :: "(nat \<Rightarrow> 's \<Rightarrow> (operation_error + exact_score_batch) \<times> 's) list"
    and serves :: "'s \<Rightarrow> nat \<Rightarrow> exact_scored_identity list \<Rightarrow> bool"
  assumes batch_serves: "i < length pulls \<Longrightarrow> serves w i xs \<Longrightarrow> 0 < n \<Longrightarrow>
    \<exists>b w' ys. (pulls ! i) n w = (Inr b, w') \<and> length (score_points b) \<le> n \<and>
      (score_points b \<noteq> [] \<or> score_exhausted b) \<and> xs = score_points b @ ys \<and> (score_exhausted b \<longrightarrow> ys = []) \<and>
      serves w' i ys \<and> (\<forall>j zs. j \<noteq> i \<longrightarrow> serves w j zs \<longrightarrow> serves w' j zs)"
begin

definition owes :: "'s kway_exact_score_stream \<Rightarrow> nat \<Rightarrow> exact_scored_identity list \<Rightarrow> bool" where
  "owes kw i xs \<longleftrightarrow> (\<exists>buf exh ys. kw_sources kw ! i = ScoreBatch (pulls ! i) buf exh \<and> xs = buf @ ys \<and>
     (if exh then ys = [] else serves (kw_world kw) i ys))"

lemma owes_mono:
  assumes "owes kw j ys" "kw_sources kw' ! j = kw_sources kw ! j"
    "\<And>zs. serves (kw_world kw) j zs \<Longrightarrow> serves (kw_world kw') j zs"
  shows "owes kw' j ys"
proof -
  obtain buf exh zs where "kw_sources kw ! j = ScoreBatch (pulls ! j) buf exh" "ys = buf @ zs"
    "if exh then zs = [] else serves (kw_world kw) j zs"
    using assms(1) by (auto simp: owes_def)
  with assms(2,3) show ?thesis
    unfolding owes_def by (intro exI [of _ buf] exI [of _ exh] exI [of _ zs]) auto
qed

definition deliverable :: "'s kway_exact_score_stream \<Rightarrow> nat \<Rightarrow> exact_scored_identity list \<Rightarrow> bool" where
  "deliverable kw i xs \<longleftrightarrow> sorted_wrt before xs \<and>
     (\<forall>x\<in>set xs. is_finite (si_score x) \<and> after_last (previous kw ! i) x) \<and>
     distinct (map si_id xs) \<and> set (map si_id xs) \<inter> set (seen kw) = {}"

lemma pull_point_owes:
  assumes i: "i < length pulls" "i < length (kw_sources kw)" and xs: "owes kw i xs" "deliverable kw i xs"
    and size: "0 < source_refill_batch_size kw"
  obtains kw' where "pull_point i kw = (Inr (case xs of [] \<Rightarrow> None | x # _ \<Rightarrow> Some x), kw')"
    "owes kw' i (tl xs)" "\<And>j zs. j \<noteq> i \<Longrightarrow> owes kw j zs \<Longrightarrow> owes kw' j zs"
proof -
  obtain buf exh ys where src: "kw_sources kw ! i = ScoreBatch (pulls ! i) buf exh" "xs = buf @ ys"
    "if exh then ys = [] else serves (kw_world kw) i ys"
    using xs(1) by (auto simp: owes_def)
  show thesis
  proof (cases "buf = [] \<and> \<not> exh")
    case False
    let ?kw = "kw\<lparr>kw_sources := (kw_sources kw)[i := ScoreBatch (pulls ! i) (tl buf) exh]\<rparr>"
    have "pull_point i kw = (Inr (case xs of [] \<Rightarrow> None | x # _ \<Rightarrow> Some x), ?kw)"
      using False src by (cases buf) (auto simp: pull_point_def pop_front_def)
    moreover have "owes ?kw i (tl xs)" using False src i by (cases buf) (auto simp: owes_def)
    moreover have "owes ?kw j zs" if "j \<noteq> i" "owes kw j zs" for j zs
      using that(2) by (rule owes_mono) (use that(1) in simp_all)
    ultimately show ?thesis by (rule that)
  next
    case True
    with src have "serves (kw_world kw) i xs" by simp
    from batch_serves [OF i(1) this size] obtain b w zs where
      b: "(pulls ! i) (source_refill_batch_size kw) (kw_world kw) = (Inr b, w)"
        "length (score_points b) \<le> source_refill_batch_size kw" "score_points b \<noteq> [] \<or> score_exhausted b"
        "xs = score_points b @ zs" "score_exhausted b \<longrightarrow> zs = []" "serves w i zs"
        "\<forall>j zs. j \<noteq> i \<longrightarrow> serves (kw_world kw) j zs \<longrightarrow> serves w j zs"
      by blast
    let ?kw = "kw\<lparr>kw_world := w, kw_sources := (kw_sources kw)[i := ScoreBatch (pulls ! i) (tl (score_points b)) (score_exhausted b)]\<rparr>"
    have "check_score_batch i (seen kw) (previous kw ! i) [] (score_points b) = None"
      using xs(2) b(4) by (intro check_score_batch_None) (auto simp: deliverable_def sorted_wrt_append)
    then have "pull_point i kw = (Inr (case xs of [] \<Rightarrow> None | x # _ \<Rightarrow> Some x), ?kw)"
      using True src(1) b(1-5)
      by (cases "score_points b") (auto simp: pull_point_def pop_front_def Let_def)
    moreover have "owes ?kw i (tl xs)"
      using i b(3-6) by (cases "score_points b") (auto simp: owes_def)
    moreover have "owes ?kw j ys" if "j \<noteq> i" "owes kw j ys" for j ys
      using that(2) by (rule owes_mono) (use that(1) b(7) in simp_all)
    ultimately show ?thesis by (rule that)
  qed
qed

text \<open>\<open>holding lst U kw Xs\<close>: beyond the pending points, source \<open>i\<close> owes exactly \<open>Xs ! i\<close>.\<close>

definition holding ::
  "exact_scored_identity option \<Rightarrow> nat set \<Rightarrow> 's kway_exact_score_stream \<Rightarrow> exact_scored_identity list list \<Rightarrow> bool" where
  "holding lst U kw Xs \<longleftrightarrow> merge_inv lst U kw \<and> 0 < source_refill_batch_size kw \<and> terminal_error kw = None \<and>
     length (kw_sources kw) = length pulls \<and> length Xs = length pulls \<and>
     (\<forall>i<length pulls. owes kw i (Xs ! i) \<and> (source_done kw i \<longrightarrow> Xs ! i = []) \<and> sorted_wrt before (Xs ! i) \<and>
        (\<forall>x\<in>set (Xs ! i). is_finite (si_score x) \<and> after_last (previous kw ! i) x)) \<and>
     distinct (seen kw @ map (si_id \<circ> pe_point) (pending kw) @ map si_id (concat Xs))"

lemma holding_deliverable:
  assumes "holding lst U kw Xs" "i < length pulls"
  shows "deliverable kw i (Xs ! i)"
proof -
  have "distinct (seen kw @ map (si_id \<circ> pe_point) (pending kw) @ map si_id (concat Xs))" and i: "i < length Xs"
    using assms by (simp_all add: holding_def)
  then have d: "distinct (map si_id (concat Xs))" "set (map si_id (concat Xs)) \<inter> set (seen kw) = {}"
    unfolding distinct_append set_append by blast+
  have "concat Xs = concat (take i Xs) @ Xs ! i @ concat (drop (Suc i) Xs)"
    using i by (subst id_take_nth_drop [of i Xs]) auto
  with d have "distinct (map si_id (Xs ! i))" "set (map si_id (Xs ! i)) \<inter> set (seen kw) = {}" by auto
  with assms show ?thesis by (auto simp: deliverable_def holding_def)
qed

lemma mset_concat_update:
  "i < length Xs \<Longrightarrow> Xs ! i = x # xs \<Longrightarrow> mset (concat Xs) = add_mset x (mset (concat (Xs[i := xs])))"
  by (induction Xs arbitrary: i) (auto split: nat.splits)

lemma refill_holding:
  assumes h: "holding lst U kw Xs" and U: "i \<in> U"
  obtains kw' Xs' where "refill i kw = (Inr (), kw')" "holding lst (U - {i}) kw' Xs'"
    "mset (map pe_point (pending kw') @ concat Xs') = mset (map pe_point (pending kw) @ concat Xs)"
    "refill_source kw' = refill_source kw" "points_emitted (merge_telemetry kw') = points_emitted (merge_telemetry kw)"
proof -
  have inv: "merge_inv lst U kw" and len: "length (kw_sources kw) = length pulls" "length Xs = length pulls"
    and size: "0 < source_refill_batch_size kw"
    using h by (auto simp: holding_def)
  have i: "i < length pulls" "\<not> source_done kw i" "previous kw ! i = lst"
    using inv U len by (auto simp: merge_inv_def Let_def)
  note dl = holding_deliverable [OF h i(1)]
  have "owes kw i (Xs ! i)" using h i by (simp add: holding_def)
  then obtain kw1 where pull: "pull_point i kw = (Inr (case Xs ! i of [] \<Rightarrow> None | x # _ \<Rightarrow> Some x), kw1)"
    and ow: "owes kw1 i (tl (Xs ! i))" "\<And>j zs. j \<noteq> i \<Longrightarrow> owes kw j zs \<Longrightarrow> owes kw1 j zs"
    using pull_point_owes i len dl size by metis
  note f = pull_point_fields [OF pull]
  have lens: "length (mt_source_exhausted (merge_telemetry kw)) = length pulls" "length (previous kw) = length pulls"
    using inv len by (auto simp: merge_inv_def Let_def)
  show thesis
  proof (cases "Xs ! i")
    case Nil
    let ?kw = "kw1\<lparr>merge_telemetry := (merge_telemetry kw)
       \<lparr>mt_source_exhausted := (mt_source_exhausted (merge_telemetry kw))[i := True]\<rparr>\<rparr>"
    have run: "refill i kw = (Inr (), ?kw)" using pull Nil i f by (simp add: refill_def)
    have "owes ?kw j zs = owes kw1 j zs" for j zs by (simp add: owes_def)
    then have hold: "holding lst (U - {i}) ?kw Xs"
      using h merge_inv_refill(1) [OF inv U run] f ow Nil i lens len
      unfolding holding_def by (auto simp: nth_list_update)
    show ?thesis by (rule that [OF run hold]) (simp_all add: f)
  next
    case (Cons x xs)
    let ?kw = "kw1\<lparr>merge_telemetry := (merge_telemetry kw)
         \<lparr>mt_source_pulls := (mt_source_pulls (merge_telemetry kw))[i := Suc (mt_source_pulls (merge_telemetry kw) ! i)]\<rparr>,
       previous := (previous kw)[i := Some x], pending := \<lparr>pe_source = i, pe_point = x\<rparr> # pending kw\<rparr>"
    have ok: "is_finite (si_score x)" "\<not> (case previous kw ! i of None \<Rightarrow> False | Some q \<Rightarrow> exact_score_order q x = Greater)"
      using dl Cons by (auto simp: deliverable_def after_last_def rank_simps split: option.splits)
    have run: "refill i kw = (Inr (), ?kw)" using pull Cons i f ok by (simp add: refill_def heap_push_def)
    have ms: "mset (concat Xs) = add_mset x (mset (concat (Xs[i := xs])))"
      using i len Cons by (intro mset_concat_update) simp_all
    have ow': "owes ?kw j zs = owes kw1 j zs" for j zs by (simp add: owes_def)
    have "mset (seen kw @ map (si_id \<circ> pe_point) (pending kw) @ map si_id (concat Xs)) =
        mset (seen kw @ map (si_id \<circ> pe_point) (pending ?kw) @ map si_id (concat (Xs[i := xs])))"
      using ms by (simp only: mset_append mset_map f) simp
    then have dist: "distinct (seen kw @ map (si_id \<circ> pe_point) (pending ?kw) @ map si_id (concat (Xs[i := xs])))"
      using h mset_eq_imp_distinct_iff unfolding holding_def by blast
    have per: "owes ?kw j (Xs[i := xs] ! j) \<and> (source_done ?kw j \<longrightarrow> Xs[i := xs] ! j = []) \<and> sorted_wrt before (Xs[i := xs] ! j) \<and>
        (\<forall>y\<in>set (Xs[i := xs] ! j). is_finite (si_score y) \<and> after_last (previous ?kw ! j) y)" if "j < length pulls" for j
    proof (cases "j = i")
      case True
      then show ?thesis using ow(1) Cons dl i lens len unfolding ow' by (auto simp: deliverable_def after_last_def)
    next
      case False
      then show ?thesis using ow(2) [OF False] h that f unfolding ow' holding_def by auto
    qed
    have hold: "holding lst (U - {i}) ?kw (Xs[i := xs])"
      using merge_inv_refill(1) [OF inv U run] h per dist f len unfolding holding_def by simp
    show ?thesis by (rule that [OF run hold]) (simp_all add: f ms)
  qed
qed

end

context exact_score_sources
begin

lemma holding_refill_source: "holding lst U (kw\<lparr>refill_source := r\<rparr>) Xs \<longleftrightarrow> holding lst U kw Xs"
proof -
  have "merge_inv lst U (kw\<lparr>refill_source := r\<rparr>) = merge_inv lst U kw" by (simp add: merge_inv_def)
  moreover have "owes (kw\<lparr>refill_source := r\<rparr>) i xs = owes kw i xs" for i xs by (simp add: owes_def)
  ultimately show ?thesis by (simp add: holding_def)
qed

text \<open>Once every source is refilled, the popped point precedes all that is still owed.\<close>

lemma pop_holding:
  assumes h: "holding lst {} kw Xs" and q: "sort_by before (map pe_point (pending kw) @ concat Xs) = p # q"
  obtains kw' s where "pop_pending kw = (Inr (Some p), kw')" "refill_source kw' = Some s" "holding (Some p) {s} kw' Xs"
    "sort_by before (map pe_point (pending kw') @ concat Xs) = q"
    "points_emitted (merge_telemetry kw') = Suc (points_emitted (merge_telemetry kw))"
proof -
  have inv: "merge_inv lst {} kw" and len: "length (kw_sources kw) = length pulls" "length Xs = length pulls"
    using h by (auto simp: holding_def)
  have pend: "\<exists>m\<in>set (pending kw). before (pe_point m) x" if x: "x \<in> set (concat Xs)" for x
  proof -
    obtain i where i: "i < length Xs" "x \<in> set (Xs ! i)" using x unfolding set_concat_nth by blast
    then have "\<not> source_done kw i" using h len by (auto simp: holding_def)
    then obtain m where "m \<in> set (pending kw)" "pe_source m = i"
      using inv i len by (auto simp: merge_inv_def Let_def)
    then show ?thesis using inv h i len by (auto simp: merge_inv_def holding_def after_last_def Let_def intro!: bexI [of _ m])
  qed
  have "map pe_point (pending kw) @ concat Xs \<noteq> []" using q by force
  then have "pending kw \<noteq> []" using pend by (cases "concat Xs") fastforce+
  then obtain m rest where pop: "heap_pop pending_le (pending kw) = Some (m, rest)"
    by (cases "heap_pop pending_le (pending kw)") auto
  have ms: "mset (pending kw) = add_mset m (mset rest)" and min: "m \<in> set (pending kw)"
    using heap_pop_mset [OF pop] heap_pop_in [OF pop] by auto
  have first: "before (pe_point m) x" if "x \<in> set (map pe_point (pending kw) @ concat Xs)" for x
  proof -
    have "before (pe_point m) (pe_point k)" if "k \<in> set (pending kw)" for k
      using pending_le.heap_pop_ge [OF pop that] by (rule pending_le_before)
    with that pend show ?thesis by (auto intro: before.rank_trans dest: pend)
  qed
  have "sort_by before (map pe_point (pending kw) @ concat Xs) = pe_point m # sort_by before (map pe_point rest @ concat Xs)"
  proof (rule before.sorted_unique)
    have "set rest \<subseteq> set (pending kw)" using ms by (metis set_mset_mset set_mset_add_mset_insert subset_insertI)
    then have "\<forall>x\<in>set (sort_by before (map pe_point rest @ concat Xs)). before (pe_point m) x"
      using first by auto
    then show "sorted_wrt before (pe_point m # sort_by before (map pe_point rest @ concat Xs))"
      by (simp add: before.sorted_sort_by)
  qed (use ms in \<open>simp_all add: before.sorted_sort_by\<close>)
  with q have p: "p = pe_point m" and rest: "sort_by before (map pe_point rest @ concat Xs) = q" by auto
  let ?kw = "kw\<lparr>pending := rest, refill_source := Some (pe_source m), seen := si_id p # seen kw,
     merge_telemetry := (merge_telemetry kw)\<lparr>points_emitted := Suc (points_emitted (merge_telemetry kw))\<rparr>\<rparr>"
  have dist: "distinct (seen kw @ map (si_id \<circ> pe_point) (pending kw) @ map si_id (concat Xs))"
    using h by (simp add: holding_def)
  then have "si_id p \<notin> set (seen kw)" using min p by auto
  then have run: "pop_pending kw = (Inr (Some p), ?kw)" using pop p by (simp add: pop_pending_def Let_def)
  have minv: "merge_inv (Some p) {pe_source m} ?kw"
    by (rule merge_inv_pop [OF inv run]) simp
  have "mset (seen kw @ map (si_id \<circ> pe_point) (pending kw) @ map si_id (concat Xs)) =
      mset (seen ?kw @ map (si_id \<circ> pe_point) (pending ?kw) @ map si_id (concat Xs))"
    using ms p by simp
  with dist have dist': "distinct (seen ?kw @ map (si_id \<circ> pe_point) (pending ?kw) @ map si_id (concat Xs))"
    using mset_eq_imp_distinct_iff by blast
  have "owes ?kw i xs = owes kw i xs" for i xs by (simp add: owes_def)
  with h minv dist' have "holding (Some p) {pe_source m} ?kw Xs" by (simp add: holding_def)
  from that [OF run _ this] rest show thesis by simp
qed

definition queue_of :: "'s kway_exact_score_stream \<Rightarrow> exact_scored_identity list \<Rightarrow> bool" where
  "queue_of kw q \<longleftrightarrow> (\<exists>lst Xs. holding lst (set_option (refill_source kw)) kw Xs \<and>
     q = sort_by before (map pe_point (pending kw) @ concat Xs))"

lemma next_inner_refines:
  assumes "queue_of kw q"
  obtains kw' where "next_inner kw = (Inr (case q of [] \<Rightarrow> None | p # _ \<Rightarrow> Some p), kw')" "queue_of kw' (tl q)"
    "points_emitted (merge_telemetry kw') = points_emitted (merge_telemetry kw) + (if q = [] then 0 else 1)"
proof -
  obtain lst Xs where h: "holding lst (set_option (refill_source kw)) kw Xs"
    "q = sort_by before (map pe_point (pending kw) @ concat Xs)"
    using assms by (auto simp: queue_of_def)
  obtain kw1 Xs1 where k: "next_inner kw = pop_pending kw1" "holding lst {} kw1 Xs1" "refill_source kw1 = None"
    "q = sort_by before (map pe_point (pending kw1) @ concat Xs1)"
    "points_emitted (merge_telemetry kw1) = points_emitted (merge_telemetry kw)"
  proof (cases "refill_source kw")
    case None
    with h show ?thesis by (intro that [of kw Xs]) (simp_all add: next_inner_def)
  next
    case (Some i)
    let ?kw = "kw\<lparr>refill_source := None\<rparr>"
    have "holding lst {i} ?kw Xs" using h(1) Some by (simp add: holding_refill_source)
    then obtain kw1 Xs1 where r: "refill i ?kw = (Inr (), kw1)" "holding lst ({i} - {i}) kw1 Xs1"
      "mset (map pe_point (pending kw1) @ concat Xs1) = mset (map pe_point (pending ?kw) @ concat Xs)"
      "refill_source kw1 = refill_source ?kw" "points_emitted (merge_telemetry kw1) = points_emitted (merge_telemetry ?kw)"
      by (rule refill_holding) simp
    have "q = sort_by before (map pe_point (pending kw1) @ concat Xs1)"
      unfolding h(2) using r(3) by (intro before.sort_by_mset) simp
    with r Some show ?thesis by (intro that [of kw1 Xs1]) (simp_all add: next_inner_def)
  qed
  show thesis
  proof (cases q)
    case Nil
    then have "map pe_point (pending kw1) @ concat Xs1 = []"
      using k(4) by (metis mset_sort_by mset_zero_iff)
    then have "pop_pending kw1 = (Inr None, kw1)" by (simp add: pop_pending_def heap_pop_def)
    moreover have "queue_of kw1 []" using k Nil by (auto simp: queue_of_def)
    ultimately show ?thesis using k Nil by (intro that [of kw1]) simp_all
  next
    case (Cons p ps)
    then have "sort_by before (map pe_point (pending kw1) @ concat Xs1) = p # ps" using k(4) by simp
    from pop_holding [OF k(2) this] obtain kw2 s where
      "pop_pending kw1 = (Inr (Some p), kw2)" "refill_source kw2 = Some s" "holding (Some p) {s} kw2 Xs1"
      "sort_by before (map pe_point (pending kw2) @ concat Xs1) = ps"
      "points_emitted (merge_telemetry kw2) = Suc (points_emitted (merge_telemetry kw1))" by blast
    then show ?thesis using k(1,5) Cons by (intro that [of kw2]) (auto simp: queue_of_def)
  qed
qed

lemma collect_ranks_refines:
  assumes "queue_of kw q"
  shows "\<exists>kw'. collect_ranks n kw = (Inr (map si_id (take n q), length q < n), kw') \<and> queue_of kw' (drop n q) \<and>
    points_emitted (merge_telemetry kw') = points_emitted (merge_telemetry kw) + length (take n q)"
  using assms
proof (induction n arbitrary: kw q)
  case 0
  then show ?case by simp
next
  case (Suc n)
  obtain kw1 where k: "next_inner kw = (Inr (case q of [] \<Rightarrow> None | p # _ \<Rightarrow> Some p), kw1)" "queue_of kw1 (tl q)"
    "points_emitted (merge_telemetry kw1) = points_emitted (merge_telemetry kw) + (if q = [] then 0 else 1)"
    by (rule next_inner_refines [OF Suc.prems])
  show ?case
  proof (cases q)
    case Nil
    with k show ?thesis by simp
  next
    case (Cons p ps)
    with Suc.IH [OF k(2)] k show ?thesis by auto
  qed
qed

text \<open>A batch of the merged stream is the next chunk of the global channel order.\<close>

lemma next_rank_batch_refines:
  assumes q: "queue_of kw q" and n: "0 < n"
  obtains kw' where "next_rank_batch n kw = (Inr \<lparr>start_rank = points_emitted (merge_telemetry kw),
      point_ids = map si_id (take n q), batch_exhausted = (length q < n)\<rparr>, kw')" "queue_of kw' (drop n q)"
    "points_emitted (merge_telemetry kw') = points_emitted (merge_telemetry kw) + length (take n q)"
proof -
  have "terminal_error kw = None" using q by (auto simp: queue_of_def holding_def)
  moreover obtain kw' where "collect_ranks n kw = (Inr (map si_id (take n q), length q < n), kw')" "queue_of kw' (drop n q)"
    "points_emitted (merge_telemetry kw') = points_emitted (merge_telemetry kw) + length (take n q)"
    using collect_ranks_refines [OF q] by blast
  ultimately show thesis using n by (intro that [of kw']) (simp_all add: next_rank_batch_def)
qed

lemma prime_sources_holding:
  assumes "m \<le> length pulls" "holding lst {length pulls - m..<length pulls} kw Xs" "refill_source kw = None"
  shows "\<exists>kw' Xs'. prime_sources (map (\<lambda>d. length pulls - d) (rev [1..<Suc m])) kw = Inr kw' \<and> holding lst {} kw' Xs' \<and>
    refill_source kw' = None \<and> mset (map pe_point (pending kw') @ concat Xs') = mset (map pe_point (pending kw) @ concat Xs) \<and>
    points_emitted (merge_telemetry kw') = points_emitted (merge_telemetry kw)"
  using assms
proof (induction m arbitrary: kw Xs)
  case 0
  then show ?case by auto
next
  case (Suc m)
  let ?n = "length pulls" let ?i = "?n - Suc m"
  have "?i \<in> {?n - Suc m..<?n}" using Suc.prems(1) by auto
  then obtain kw1 Xs1 where r: "refill ?i kw = (Inr (), kw1)" "holding lst ({?n - Suc m..<?n} - {?i}) kw1 Xs1"
    "mset (map pe_point (pending kw1) @ concat Xs1) = mset (map pe_point (pending kw) @ concat Xs)"
    "refill_source kw1 = refill_source kw" "points_emitted (merge_telemetry kw1) = points_emitted (merge_telemetry kw)"
    by (rule refill_holding [OF Suc.prems(2)])
  have "{?n - Suc m..<?n} - {?i} = {?n - m..<?n}" using Suc.prems(1) by auto
  with Suc.IH [of kw1 Xs1] Suc.prems r show ?case by auto
qed

lemma kway_new_batched_refines:
  assumes ne: "pulls \<noteq> []" "0 < bsize" and X: "length X = length pulls" "\<forall>i<length pulls. serves w i (X ! i)"
    "\<forall>xs\<in>set X. sorted_wrt before xs \<and> (\<forall>x\<in>set xs. is_finite (si_score x))" "distinct (map si_id (concat X))"
  obtains kw where "kway_new_batched pulls w bsize = Inr kw" "queue_of kw (sort_by before (concat X))"
    "points_emitted (merge_telemetry kw) = 0"
proof -
  let ?srcs = "map (\<lambda>pull. ScoreBatch pull [] False) pulls" let ?kw = "empty_stream ?srcs w bsize" let ?n = "length pulls"
  have "merge_inv None {?n - ?n..<?n} ?kw" by (simp add: merge_inv_def empty_stream_def Let_def)
  moreover have "owes ?kw i (X ! i)" if "i < ?n" for i using that X by (auto simp: owes_def empty_stream_def intro: exI [of _ False])
  moreover have "\<forall>i<?n. sorted_wrt before (X ! i) \<and> (\<forall>x\<in>set (X ! i). is_finite (si_score x))"
    using X(1,3) by (metis nth_mem)
  ultimately have "holding None {?n - ?n..<?n} ?kw X"
    using ne X(1,4) unfolding holding_def by (simp add: empty_stream_def after_last_def)
  from prime_sources_holding [OF order_refl this] obtain kw Xs where
    k: "prime_sources [0..<?n] ?kw = Inr kw" "holding None {} kw Xs" "refill_source kw = None"
      "mset (map pe_point (pending kw) @ concat Xs) = mset (map pe_point (pending ?kw) @ concat X)"
      "points_emitted (merge_telemetry kw) = points_emitted (merge_telemetry ?kw)"
    unfolding upt_descending by (auto simp: empty_stream_def)
  have "sort_by before (concat X) = sort_by before (map pe_point (pending kw) @ concat Xs)"
    using k(4) by (intro before.sort_by_mset) (simp add: empty_stream_def)
  with k have "queue_of kw (sort_by before (concat X))" by (auto simp: queue_of_def)
  with k ne that show thesis
    by (simp add: kway_new_batched_def new_with_sources_def empty_stream_def)
qed

end

lemma collect_ranks_error: "collect_ranks n kw = (Inl e, kw') \<Longrightarrow> terminal_error kw' = Some e"
proof (induction n arbitrary: kw)
  case (Suc n)
  obtain r kw1 where nx: "next_inner kw = (r, kw1)" by fastforce
  show ?case
  proof (cases r)
    case (Inl e')
    with Suc.prems nx show ?thesis by (simp add: fail_stream_def) auto
  next
    case (Inr op)
    show ?thesis
    proof (cases op)
      case None
      with Suc.prems nx Inr show ?thesis by simp
    next
      case (Some p)
      obtain r2 kw2 where rec: "collect_ranks n kw1 = (r2, kw2)" by fastforce
      with Suc.prems nx Inr Some have "r2 = Inl e \<and> kw2 = kw'" by (cases r2) auto
      with rec Suc.IH show ?thesis by simp
    qed
  qed
qed simp

section \<open>Properties\<close>

text \<open>C4. Merging is safe for arbitrary sources: whatever points a newly built merge emits before any error come in
  descending score order with ties by identity, and no identity is emitted twice.\<close>

theorem merge_emits_sorted:
  assumes "new_with_sources srcs w batch_size = Inr kw" and "emits kw ps kw'"
  shows "sorted_wrt before ps \<and> distinct (map si_id ps)"
  using emits_ok [OF assms(2) new_with_sources_ok(1) [OF assms(1)]] by simp

definition pop_score :: "exact_scored_identity list \<Rightarrow> (operation_error + exact_scored_identity) option \<times> exact_scored_identity list" where
  "pop_score w = (case w of [] \<Rightarrow> (None, []) | p # ps \<Rightarrow> (Some (Inr p), ps))"

definition two_points :: "exact_scored_identity list" where
  "two_points = [\<lparr>si_id = NumId 4, si_score = Fin 2\<rparr>, \<lparr>si_id = NumId 9, si_score = Fin 1\<rparr>]"

lemma two_points_run:
  obtains kw kw1 kw2 kw3 where "new_with_sources [ScorePoint pop_score] two_points 1 = Inr kw"
    "next_inner kw = (Inr (Some (two_points ! 0)), kw1)" "next_inner kw1 = (Inr (Some (two_points ! 1)), kw2)"
    "next_inner kw2 = (Inr None, kw3)"
  by (simp add: new_with_sources_def empty_stream_def refill_def pull_point_def pop_score_def two_points_def
      heap_push_def next_inner_def pop_pending_def heap_pop_def exact_score_order_def cmp_def then_with_def Let_def)

lemma two_points_emitted:
  obtains kw kw2 kw3 where "new_with_sources [ScorePoint pop_score] two_points 1 = Inr kw" "emits kw two_points kw2"
    "next_inner kw2 = (Inr None, kw3)"
proof -
  obtain kw kw1 kw2 kw3 where k: "new_with_sources [ScorePoint pop_score] two_points 1 = Inr kw"
    "next_inner kw = (Inr (Some (two_points ! 0)), kw1)" "next_inner kw1 = (Inr (Some (two_points ! 1)), kw2)"
    "next_inner kw2 = (Inr None, kw3)"
    by (rule two_points_run)
  have "emits kw [two_points ! 0, two_points ! 1] kw2"
    by (rule emits_Cons [OF k(2) emits_Cons [OF k(3) emits_Nil]])
  moreover have "[two_points ! 0, two_points ! 1] = two_points" by (simp add: two_points_def)
  ultimately show thesis using that k by simp
qed

theorem merge_emits_sorted_witness:
  "\<exists>kw kw'. new_with_sources [ScorePoint pop_score] two_points 1 = Inr kw \<and> emits kw two_points kw' \<and>
     sorted_wrt before two_points"
proof -
  obtain kw kw2 kw3 where k: "new_with_sources [ScorePoint pop_score] two_points 1 = Inr kw" "emits kw two_points kw2"
    "next_inner kw2 = (Inr None, kw3)"
    by (rule two_points_emitted)
  from merge_emits_sorted [OF k(1,2)] k show ?thesis by blast
qed




definition failing_source :: "bool \<Rightarrow> (operation_error + exact_scored_identity) option \<times> bool" where
  "failing_source fresh = (Some (if fresh then Inr \<lparr>si_id = NumId 1, si_score = Fin 1\<rparr> else Inl WrongSparse), False)"

lemma failing_source_run:
  obtains kw kw' where "kway_new [failing_source] True = Inr kw" "next_rank_batch 2 kw = (Inl WrongSparse, kw')"
  by (simp add: kway_new_def new_with_sources_def empty_stream_def refill_def pull_point_def failing_source_def
      heap_push_def next_rank_batch_def next_inner_def pop_pending_def heap_pop_def numeral_2_eq_2 Let_def)


definition resumed_after_failure :: "(operation_error + dynamic_rrf_execution) option \<times> (operation_error + dynamic_rrf_execution) option" where
  "resumed_after_failure =
     (case kway_new [failing_source] True of
        Inl e \<Rightarrow> (None, None)
      | Inr kw \<Rightarrow>
          (case session_new [into_rank_stream] kw 2 2 None default_policy of
             Inl e \<Rightarrow> (None, None)
           | Inr ses \<Rightarrow>
               (case run_to_completion ses of
                  None \<Rightarrow> (None, None)
                | Some (first, ses') \<Rightarrow> (Some first, map_option fst (run_to_completion ses')))))"


end
