(* ===== verification/Shard_Stream.thy ===== *)
theory Shard_Stream
  imports Types
begin


text \<open>
  The shard-level merge of \<open>src/lib/shard/src/exact_shard_stream.rs\<close>: the exact score
  streams of the frozen segments of one shard become one stream in which a point
  held by several segments appears once.

  A segment source is a closure over state it owns; the model keeps the function
  \<open>ss_pull\<close> and the captured state \<open>ss_captured\<close> side by side. The cancellation flag
  is set by another thread: \<open>sh_stopped n\<close> is the value the stream's \<open>n\<close>-th load of it
  returns, and \<open>sh_polls\<close> counts the loads.
\<close>

section \<open>Data\<close>

datatype exact_source_mode = Exact | ExhaustiveFallback

record exact_shard_stream_telemetry =
  st_sources :: nat
  visible_point_copies :: nat
  exact_sources_count :: nat
  exhaustive_fallback_sources :: nat
  points_pulled :: nat
  st_points_emitted :: nat
  duplicates_suppressed :: nat
  batch_requests :: nat
  points_received :: nat

record batch_reply =
  br_points :: "scored_point list"
  br_eof :: bool

record 'c segment_score_source =
  ss_pull :: "nat \<Rightarrow> 'c \<Rightarrow> (operation_error + batch_reply) \<times> 'c"
  ss_captured :: 'c
  ss_buffer :: "scored_point list"
  ss_eof :: bool
  ss_mode :: exact_source_mode
  ss_previous :: "scored_point option"

record source_pop =
  pop_point :: "scored_point option"
  pop_batch_requests :: nat
  pop_points_received :: nat

record pending_point =
  pp_source :: nat
  pp_point :: scored_point

record 'c exact_shard_merge_state =
  sh_sources :: "'c segment_score_source list"
  sh_pending :: "pending_point list"
  sh_seen :: "point_id list"
  sh_batch_size :: nat
  sh_stopped :: "nat \<Rightarrow> bool"
  sh_polls :: nat
  sh_channel :: string
  sh_telemetry :: exact_shard_stream_telemetry
  sh_terminal_error :: "operation_error option"

section \<open>One segment source\<close>

definition on_demand ::
  "(nat \<Rightarrow> 'c \<Rightarrow> (operation_error + batch_reply) \<times> 'c) \<Rightarrow> 'c \<Rightarrow> exact_source_mode \<Rightarrow> 'c segment_score_source" where
  "on_demand pull captured mode =
     \<lparr>ss_pull = pull, ss_captured = captured, ss_buffer = [], ss_eof = False, ss_mode = mode, ss_previous = None\<rparr>"

definition point_order :: "scored_point \<Rightarrow> scored_point \<Rightarrow> ordering" where
  "point_order left right =
     then_with (cmp (sp_score right) (sp_score left)) (cmp (sp_id left) (sp_id right))"

fun validate_source_batch ::
  "nat \<Rightarrow> scored_point option \<Rightarrow> scored_point list \<Rightarrow> operation_error + unit" where
  "validate_source_batch source prev [] = Inr ()"
| "validate_source_batch source prev (p # ps) =
     (if \<not> is_finite (sp_score p) then Inl (ValidationError (MsgShardNonFinite source))
      else if (case prev of None \<Rightarrow> False | Some q \<Rightarrow> point_order q p = Greater)
      then Inl (ValidationError (MsgShardOrder source))
      else validate_source_batch source (Some p) ps)"

text \<open>
  The loop of \<open>pop\<close>: it asks for batches until one has points or the source reports
  its end. A source may answer with empty batches for ever; then the loop does not return.
\<close>

partial_function (option) fill_buffer ::
  "nat \<Rightarrow> nat \<Rightarrow> nat \<times> nat \<Rightarrow> 'c segment_score_source
     \<Rightarrow> ((operation_error + nat \<times> nat) \<times> 'c segment_score_source) option" where
  "fill_buffer batch_size source counts src =
     (if ss_buffer src \<noteq> [] \<or> ss_eof src then Some (Inr counts, src)
      else case ss_pull src batch_size (ss_captured src) of
        (Inl e, c) \<Rightarrow> Some (Inl e, src\<lparr>ss_captured := c\<rparr>)
      | (Inr batch, c) \<Rightarrow>
          (case validate_source_batch source (ss_previous src) (br_points batch) of
             Inl e \<Rightarrow> Some (Inl e, src\<lparr>ss_captured := c, ss_eof := br_eof batch\<rparr>)
           | Inr _ \<Rightarrow>
               fill_buffer batch_size source
                 (saturating_add (fst counts) 1, saturating_add (snd counts) (length (br_points batch)))
                 (src\<lparr>ss_captured := c, ss_eof := br_eof batch, ss_buffer := br_points batch\<rparr>)))"

declare fill_buffer.simps [code]

text \<open>\<open>MsgNotReturning\<close> marks a call that does not return.\<close>

definition pop :: "nat \<Rightarrow> nat \<Rightarrow> 'c segment_score_source \<Rightarrow> (operation_error + source_pop) \<times> 'c segment_score_source" where
  "pop batch_size source src =
     (case fill_buffer batch_size source (0, 0) src of
        None \<Rightarrow> (Inl (Panicked MsgNotReturning), src)
      | Some (Inl e, src') \<Rightarrow> (Inl e, src')
      | Some (Inr counts, src') \<Rightarrow>
          (case ss_buffer src' of
             [] \<Rightarrow> (Inr \<lparr>pop_point = None, pop_batch_requests = fst counts, pop_points_received = snd counts\<rparr>, src')
           | p # rest \<Rightarrow>
               (Inr \<lparr>pop_point = Some p, pop_batch_requests = fst counts, pop_points_received = snd counts\<rparr>,
                src'\<lparr>ss_buffer := rest, ss_previous := Some p\<rparr>)))"

section \<open>The merge state\<close>

definition pending_point_cmp :: "pending_point \<Rightarrow> pending_point \<Rightarrow> ordering" where
  "pending_point_cmp a b =
     then_with (then_with (then_with
       (cmp (sp_score (pp_point a)) (sp_score (pp_point b)))
       (cmp (sp_id (pp_point b)) (sp_id (pp_point a))))
       (cmp (sp_version (pp_point a)) (sp_version (pp_point b))))
       (cmp (pp_source b) (pp_source a))"

definition pending_point_le :: "pending_point \<Rightarrow> pending_point \<Rightarrow> bool" where
  "pending_point_le a b = is_le (pending_point_cmp a b)"

definition shard_pull_source ::
  "nat \<Rightarrow> nat \<Rightarrow> 'c exact_shard_merge_state \<Rightarrow> (operation_error + unit) \<times> 'c exact_shard_merge_state" where
  "shard_pull_source source limit st =
     (if source < length (sh_sources st)
      then case pop limit source (sh_sources st ! source) of
        (Inl e, src) \<Rightarrow> (Inl e, st\<lparr>sh_sources := (sh_sources st)[source := src]\<rparr>)
      | (Inr result, src) \<Rightarrow>
          let tel = (sh_telemetry st)
                \<lparr>batch_requests := saturating_add (batch_requests (sh_telemetry st)) (pop_batch_requests result),
                 points_received := saturating_add (points_received (sh_telemetry st)) (pop_points_received result)\<rparr>;
              st' = st\<lparr>sh_sources := (sh_sources st)[source := src], sh_telemetry := tel\<rparr>
          in case pop_point result of
               None \<Rightarrow> (Inr (), st')
             | Some p \<Rightarrow>
                 (Inr (), st'\<lparr>sh_telemetry := tel\<lparr>points_pulled := points_pulled tel + 1\<rparr>,
                    sh_pending := heap_push \<lparr>pp_source = source, pp_point = p\<rparr> (sh_pending st')\<rparr>)
      else (Inl (Panicked MsgIndexOutOfBounds), st))"

fun pull_sources ::
  "nat list \<Rightarrow> nat \<Rightarrow> 'c exact_shard_merge_state \<Rightarrow> (operation_error + unit) \<times> 'c exact_shard_merge_state" where
  "pull_sources [] limit st = (Inr (), st)"
| "pull_sources (source # rest) limit st =
     (case shard_pull_source source limit st of
        (Inl e, st') \<Rightarrow> (Inl e, st')
      | (Inr _, st') \<Rightarrow> pull_sources rest limit st')"

text \<open>The loop that collects the copies of \<open>point\<close> other sources have at the head of the heap.\<close>

function pop_duplicates ::
  "scored_point \<Rightarrow> nat list \<Rightarrow> 'c exact_shard_merge_state
     \<Rightarrow> (operation_error + nat list) \<times> 'c exact_shard_merge_state" where
  "pop_duplicates point contributing st =
     (case heap_pop pending_point_le (sh_pending st) of
        None \<Rightarrow> (Inr contributing, st)
      | Some (duplicate, rest) \<Rightarrow>
          if sp_id (pp_point duplicate) = sp_id point \<and> f_eq (sp_score (pp_point duplicate)) (sp_score point)
          then if sp_version (pp_point duplicate) \<noteq> sp_version point
               then (Inl (InconsistentStorage (MsgShardConflict (sh_channel st) (sp_id point) (sp_version point)
                       (sp_version (pp_point duplicate)))), st\<lparr>sh_pending := rest\<rparr>)
               else pop_duplicates point (contributing @ [pp_source duplicate])
                      (st\<lparr>sh_pending := rest,
                          sh_telemetry := (sh_telemetry st)
                            \<lparr>duplicates_suppressed := duplicates_suppressed (sh_telemetry st) + 1\<rparr>\<rparr>)
          else (Inr contributing, st))"
  by pat_completeness auto
termination
  by (relation "measure (\<lambda>(_, _, st). length (sh_pending st))") (auto dest!: heap_pop_length)

declare pop_duplicates.simps [simp del]

definition emit_point ::
  "scored_point \<Rightarrow> 'c exact_shard_merge_state
     \<Rightarrow> (operation_error + scored_point option) \<times> 'c exact_shard_merge_state" where
  "emit_point point st =
     (if sp_id point \<in> set (sh_seen st)
      then (Inl (InconsistentStorage (MsgShardRepeated (sh_channel st) (sp_id point))), st)
      else (Inr (Some point),
            st\<lparr>sh_seen := sp_id point # sh_seen st,
               sh_telemetry := (sh_telemetry st)\<lparr>st_points_emitted := st_points_emitted (sh_telemetry st) + 1\<rparr>\<rparr>))"

definition shard_next_inner ::
  "'c exact_shard_merge_state \<Rightarrow> (operation_error + scored_point option) \<times> 'c exact_shard_merge_state" where
  "shard_next_inner st0 =
     (let st = st0\<lparr>sh_polls := sh_polls st0 + 1\<rparr>
      in if sh_stopped st (sh_polls st0) then (Inl (Cancelled (MsgShardCancelled (sh_channel st))), st)
         else case heap_pop pending_point_le (sh_pending st) of
           None \<Rightarrow> (Inr None, st)
         | Some (p, rest) \<Rightarrow>
             (case pop_duplicates (pp_point p) [pp_source p] (st\<lparr>sh_pending := rest\<rparr>) of
                (Inl e, st') \<Rightarrow> (Inl e, st')
              | (Inr contributing, st') \<Rightarrow>
                  (case pull_sources contributing (sh_batch_size st') st' of
                     (Inl e, st'') \<Rightarrow> (Inl e, st'')
                   | (Inr _, st'') \<Rightarrow> emit_point (pp_point p) st'')))"

text \<open>The loop of \<open>next_batch\<close>, for at most \<open>n\<close> further points.\<close>

fun collect_points ::
  "nat \<Rightarrow> 'c exact_shard_merge_state \<Rightarrow> (operation_error + scored_point list) \<times> 'c exact_shard_merge_state" where
  "collect_points 0 st = (Inr [], st)"
| "collect_points (Suc n) st =
     (case shard_next_inner st of
        (Inr (Some p), st') \<Rightarrow>
          (case collect_points n st' of
             (Inr ps, st'') \<Rightarrow> (Inr (p # ps), st'')
           | (Inl e, st'') \<Rightarrow> (Inl e, st''))
      | (Inr None, st') \<Rightarrow> (Inr [], st')
      | (Inl e, st') \<Rightarrow> (Inl e, st'\<lparr>sh_pending := [], sh_terminal_error := Some e\<rparr>))"

definition shard_next_batch ::
  "nat \<Rightarrow> 'c exact_shard_merge_state \<Rightarrow> (operation_error + scored_point list) \<times> 'c exact_shard_merge_state" where
  "shard_next_batch max_results st =
     (if max_results = 0 then (Inl (ValidationError (MsgShardOutputSize (sh_channel st))), st)
      else case sh_terminal_error st of
        Some e \<Rightarrow> (Inl e, st)
      | None \<Rightarrow> collect_points max_results st)"

definition initial_state ::
  "'c segment_score_source list \<Rightarrow> nat \<Rightarrow> nat \<Rightarrow> (nat \<Rightarrow> bool) \<Rightarrow> string \<Rightarrow> 'c exact_shard_merge_state" where
  "initial_state srcs copies batch_size stopped channel =
     \<lparr>sh_sources = srcs, sh_pending = [], sh_seen = [], sh_batch_size = batch_size, sh_stopped = stopped, sh_polls = 0,
      sh_channel = channel,
      sh_telemetry = \<lparr>st_sources = length srcs, visible_point_copies = copies,
        exact_sources_count = length (filter (\<lambda>s. ss_mode s = Exact) srcs),
        exhaustive_fallback_sources = length (filter (\<lambda>s. ss_mode s = ExhaustiveFallback) srcs),
        points_pulled = 0, st_points_emitted = 0, duplicates_suppressed = 0, batch_requests = 0, points_received = 0\<rparr>,
      sh_terminal_error = None\<rparr>"

definition merge_open ::
  "'c segment_score_source list \<Rightarrow> nat \<Rightarrow> nat \<Rightarrow> (nat \<Rightarrow> bool) \<Rightarrow> string
     \<Rightarrow> operation_error + 'c exact_shard_merge_state" where
  "merge_open srcs copies batch_size stopped channel =
     (if batch_size = 0 then Inl (ValidationError (MsgShardBatchSize channel))
      else case pull_sources [0..<length srcs] 1 (initial_state srcs copies batch_size stopped channel) of
        (Inl e, _) \<Rightarrow> Inl e
      | (Inr _, st) \<Rightarrow> Inr st)"

text \<open>
  \<open>ExactShardStream::open\<close>: \<open>open_segment\<close> is the channel plan, \<open>available\<close> the
  number of visible points of a segment.
\<close>

fun open_segments ::
  "(nat \<Rightarrow> 'g \<Rightarrow> operation_error + 'c segment_score_source) \<Rightarrow> nat \<Rightarrow> 'g list
     \<Rightarrow> operation_error + 'c segment_score_source list" where
  "open_segments open_segment source [] = Inr []"
| "open_segments open_segment source (g # gs) =
     rbind (open_segment source g) (\<lambda>src. rbind (open_segments open_segment (source + 1) gs) (\<lambda>srcs. Inr (src # srcs)))"

definition shard_stream_open ::
  "(nat \<Rightarrow> 'g \<Rightarrow> operation_error + 'c segment_score_source) \<Rightarrow> ('g \<Rightarrow> nat) \<Rightarrow> string \<Rightarrow> 'g list \<Rightarrow> nat \<Rightarrow> (nat \<Rightarrow> bool)
     \<Rightarrow> operation_error + 'c exact_shard_merge_state" where
  "shard_stream_open open_segment available channel segments batch_size stopped =
     rbind (open_segments open_segment 0 segments)
       (\<lambda>srcs. merge_open srcs (sum_list (map available segments)) batch_size stopped channel)"


section \<open>The stream order\<close>

definition point_before :: "scored_point \<Rightarrow> scored_point \<Rightarrow> bool" where
  "point_before p q \<longleftrightarrow> ranks_before (sp_score p, sp_id p) (sp_score q, sp_id q)"

interpretation point_before: total_rank point_before
  by unfold_locales (auto simp: point_before_def intro: ranks_before.rank_trans ranks_before.rank_total [THEN disjE])

lemma point_order_Greater [rank_simps]: "point_order p q = Greater \<longleftrightarrow> \<not> point_before p q"
proof -
  have "is_le (point_order p q) \<longleftrightarrow> point_before p q"
    by (auto simp: point_order_def point_before_def ranks_before_def rank_simps)
  then show ?thesis by (cases "point_order p q") (auto simp: is_le_def)
qed

lemma pending_point_le_iff [rank_simps]:
  "pending_point_le a b \<longleftrightarrow> sp_score (pp_point a) < sp_score (pp_point b) \<or>
     sp_score (pp_point a) = sp_score (pp_point b) \<and> (sp_id (pp_point b) < sp_id (pp_point a) \<or>
       sp_id (pp_point a) = sp_id (pp_point b) \<and> (sp_version (pp_point a) < sp_version (pp_point b) \<or>
         sp_version (pp_point a) = sp_version (pp_point b) \<and> pp_source b \<le> pp_source a))"
  by (auto simp: pending_point_le_def pending_point_cmp_def rank_simps)

interpretation pending_point_le: total_rank pending_point_le
  by unfold_locales (auto simp: pending_point_le_iff)

lemma pending_point_le_before: "pending_point_le a b \<Longrightarrow> point_before (pp_point b) (pp_point a)"
  by (auto simp: pending_point_le_iff point_before_def ranks_before_def)

definition after_point :: "scored_point option \<Rightarrow> scored_point \<Rightarrow> bool" where
  "after_point lst q \<longleftrightarrow> (case lst of None \<Rightarrow> True | Some l \<Rightarrow> point_before l q)"

lemma after_point_simps [simp]: "after_point None q" "after_point (Some l) q \<longleftrightarrow> point_before l q"
  by (simp_all add: after_point_def)

lemma after_point_trans: "after_point lst p \<Longrightarrow> point_before p q \<Longrightarrow> after_point lst q"
  by (cases lst) (auto intro: point_before.rank_trans)

lemma validate_source_batch_Inr:
  "validate_source_batch source prev ps = Inr u \<longleftrightarrow>
     sorted_wrt point_before ps \<and> (\<forall>p\<in>set ps. is_finite (sp_score p) \<and> after_point prev p)"
proof (induction ps arbitrary: prev)
  case (Cons p ps)
  have "after_point prev p \<Longrightarrow> \<forall>q\<in>set ps. point_before p q \<Longrightarrow> \<forall>q\<in>set ps. after_point prev q"
    by (auto intro: after_point_trans)
  with Cons.IH [of "Some p"] show ?case
    by (cases prev) (auto simp: rank_simps)
qed simp

section \<open>A source in isolation\<close>

definition source_ok :: "'c segment_score_source \<Rightarrow> bool" where
  "source_ok src \<longleftrightarrow> sorted_wrt point_before (ss_buffer src) \<and>
     (\<forall>p\<in>set (ss_buffer src). is_finite (sp_score p) \<and> after_point (ss_previous src) p)"

definition fill_post :: "'c segment_score_source \<Rightarrow> (operation_error + nat \<times> nat) \<times> 'c segment_score_source \<Rightarrow> bool" where
  "fill_post src res \<longleftrightarrow> (source_ok src \<longrightarrow> (case res of (Inl e, _) \<Rightarrow> True
     | (Inr c, src') \<Rightarrow> source_ok src' \<and> ss_previous src' = ss_previous src \<and> (ss_buffer src' \<noteq> [] \<or> ss_eof src')))"

lemma fill_buffer_post:
  assumes "fill_buffer batch_size source counts src = Some res"
  shows "fill_post src res"
proof (rule fill_buffer.raw_induct [where P = "\<lambda>b s c src res. fill_post src res", OF _ assms])
  fix fb b s and c :: "nat \<times> nat" and src :: "'a segment_score_source" and res
  assume IH: "\<And>b s c src res. fb b s c src = Some res \<Longrightarrow> fill_post src res"
    and eq: "(if ss_buffer src \<noteq> [] \<or> ss_eof src then Some (Inr c, src)
      else case ss_pull src b (ss_captured src) of
        (Inl e, cap) \<Rightarrow> Some (Inl e, src\<lparr>ss_captured := cap\<rparr>)
      | (Inr batch, cap) \<Rightarrow>
          (case validate_source_batch s (ss_previous src) (br_points batch) of
             Inl e \<Rightarrow> Some (Inl e, src\<lparr>ss_captured := cap, ss_eof := br_eof batch\<rparr>)
           | Inr _ \<Rightarrow> fb b s (saturating_add (fst c) 1, saturating_add (snd c) (length (br_points batch)))
                 (src\<lparr>ss_captured := cap, ss_eof := br_eof batch, ss_buffer := br_points batch\<rparr>))) = Some res"
  show "fill_post src res"
  proof (cases "ss_buffer src \<noteq> [] \<or> ss_eof src")
    case True
    with eq show ?thesis by (auto simp: fill_post_def)
  next
    case False
    obtain r cap where pull: "ss_pull src b (ss_captured src) = (r, cap)" by fastforce
    show ?thesis
    proof (cases r)
      case (Inl e)
      with eq False pull show ?thesis by (auto simp: fill_post_def)
    next
      case (Inr batch)
      let ?src = "src\<lparr>ss_captured := cap, ss_eof := br_eof batch, ss_buffer := br_points batch\<rparr>"
      show ?thesis
      proof (cases "validate_source_batch s (ss_previous src) (br_points batch)")
        case (Inl e)
        with eq False pull Inr show ?thesis by (auto simp: fill_post_def)
      next
        case v: (Inr u)
        then have "source_ok ?src" by (simp add: source_ok_def validate_source_batch_Inr)
        moreover have "fill_post ?src res" using eq False pull Inr v by (intro IH) simp
        ultimately show ?thesis by (auto simp: fill_post_def split: prod.splits sum.splits)
      qed
    qed
  qed
qed

lemma fill_buffer_ok:
  assumes "fill_buffer batch_size source counts src = Some (Inr counts', src')" "source_ok src"
  shows "source_ok src' \<and> ss_previous src' = ss_previous src \<and> (ss_buffer src' \<noteq> [] \<or> ss_eof src')"
  using fill_buffer_post [OF assms(1)] assms(2) by (simp add: fill_post_def)

lemma pop_cases:
  assumes run: "pop limit source src = (Inr result, src')" and ok: "source_ok src"
  obtains "pop_point result = None" "source_ok src'" "ss_previous src' = ss_previous src" "ss_buffer src' = []" "ss_eof src'"
  | p where "pop_point result = Some p" "source_ok src'" "ss_previous src' = Some p" "is_finite (sp_score p)"
      "after_point (ss_previous src) p"
proof -
  obtain counts s1 where fb: "fill_buffer limit source (0, 0) src = Some (Inr counts, s1)"
    using run by (auto simp: pop_def split: option.splits sum.splits)
  note f = fill_buffer_ok [OF fb ok]
  show thesis
  proof (cases "ss_buffer s1")
    case Nil
    with run fb f show ?thesis by (intro that(1)) (auto simp: pop_def)
  next
    case (Cons p rest)
    with run fb f show ?thesis by (intro that(2) [of p]) (auto simp: pop_def source_ok_def)
  qed
qed

section \<open>The merge invariant\<close>

text \<open>
  \<open>shard_inv lst U k st\<close>, for arbitrary sources: \<open>lst\<close> is the point popped last, \<open>U\<close> the
  sources that still have to be pulled and \<open>k\<close> the number of popped points not yet
  emitted. Every other source has ended or has exactly one pending point, its latest,
  which does not precede \<open>lst\<close>.
\<close>

definition source_drained :: "'c segment_score_source \<Rightarrow> bool" where
  "source_drained src \<longleftrightarrow> ss_buffer src = [] \<and> ss_eof src"

definition accounted :: "nat \<Rightarrow> 'c exact_shard_merge_state \<Rightarrow> bool" where
  "accounted k st \<longleftrightarrow> points_pulled (sh_telemetry st) = st_points_emitted (sh_telemetry st) +
     duplicates_suppressed (sh_telemetry st) + length (sh_pending st) + k \<and>
     length (sh_seen st) = st_points_emitted (sh_telemetry st)"

definition shard_inv :: "scored_point option \<Rightarrow> nat set \<Rightarrow> nat \<Rightarrow> 'c exact_shard_merge_state \<Rightarrow> bool" where
  "shard_inv lst U k st \<longleftrightarrow>
     distinct (map pp_source (sh_pending st)) \<and> accounted k st \<and> (\<forall>src\<in>set (sh_sources st). source_ok src) \<and>
     (\<forall>p\<in>set (sh_pending st). pp_source p < length (sh_sources st) \<and> pp_source p \<notin> U \<and> is_finite (sp_score (pp_point p)) \<and>
        ss_previous (sh_sources st ! pp_source p) = Some (pp_point p) \<and> after_point lst (pp_point p)) \<and>
     (\<forall>i\<in>U. i < length (sh_sources st) \<and> (\<forall>x. after_point (ss_previous (sh_sources st ! i)) x \<longrightarrow> after_point lst x)) \<and>
     (\<forall>i<length (sh_sources st). i \<in> U \<or> source_drained (sh_sources st ! i) \<or> i \<in> pp_source ` set (sh_pending st))"

definition same_outside :: "'c exact_shard_merge_state \<Rightarrow> 'c exact_shard_merge_state \<Rightarrow> bool" where
  "same_outside st st' \<longleftrightarrow> sh_seen st' = sh_seen st \<and> sh_terminal_error st' = sh_terminal_error st \<and>
     sh_batch_size st' = sh_batch_size st \<and> sh_stopped st' = sh_stopped st \<and> sh_polls st' = sh_polls st \<and>
     sh_channel st' = sh_channel st \<and> length (sh_sources st') = length (sh_sources st)"

lemma same_outside_refl [simp]: "same_outside st st" by (simp add: same_outside_def)

lemma same_outside_trans: "same_outside a b \<Longrightarrow> same_outside b c \<Longrightarrow> same_outside a c"
  by (simp add: same_outside_def)

lemma shard_pull_source_cases:
  assumes run: "shard_pull_source i limit st = (Inr u, st')"
  obtains src result where "i < length (sh_sources st)" "pop limit i (sh_sources st ! i) = (Inr result, src)"
    "same_outside st st'" "sh_sources st' = (sh_sources st)[i := src]"
    "case pop_point result of
       None \<Rightarrow> sh_pending st' = sh_pending st \<and> points_pulled (sh_telemetry st') = points_pulled (sh_telemetry st)
     | Some p \<Rightarrow> sh_pending st' = \<lparr>pp_source = i, pp_point = p\<rparr> # sh_pending st \<and>
         points_pulled (sh_telemetry st') = Suc (points_pulled (sh_telemetry st))"
    "st_points_emitted (sh_telemetry st') = st_points_emitted (sh_telemetry st)"
    "duplicates_suppressed (sh_telemetry st') = duplicates_suppressed (sh_telemetry st)"
proof -
  have i: "i < length (sh_sources st)" using run by (auto simp: shard_pull_source_def split: if_splits)
  obtain r src where pop: "pop limit i (sh_sources st ! i) = (r, src)" by fastforce
  then obtain result where r: "r = Inr result" using run i by (cases r) (auto simp: shard_pull_source_def)
  show thesis
    using run i pop r
    by (intro that [of result src])
      (auto simp: shard_pull_source_def same_outside_def heap_push_def Let_def split: option.splits)
qed

lemma shard_inv_pull:
  assumes inv: "shard_inv lst U k st" and U: "i \<in> U" and run: "shard_pull_source i limit st = (Inr u, st')"
  shows "shard_inv lst (U - {i}) k st' \<and> same_outside st st'"
proof -
  obtain src result where i: "i < length (sh_sources st)" "pop limit i (sh_sources st ! i) = (Inr result, src)"
    "same_outside st st'" "sh_sources st' = (sh_sources st)[i := src]"
    "case pop_point result of
       None \<Rightarrow> sh_pending st' = sh_pending st \<and> points_pulled (sh_telemetry st') = points_pulled (sh_telemetry st)
     | Some p \<Rightarrow> sh_pending st' = \<lparr>pp_source = i, pp_point = p\<rparr> # sh_pending st \<and>
         points_pulled (sh_telemetry st') = Suc (points_pulled (sh_telemetry st))"
    "st_points_emitted (sh_telemetry st') = st_points_emitted (sh_telemetry st)"
    "duplicates_suppressed (sh_telemetry st') = duplicates_suppressed (sh_telemetry st)"
    by (rule shard_pull_source_cases [OF run])
  have lst: "after_point (ss_previous (sh_sources st ! i)) x \<Longrightarrow> after_point lst x" for x
    using inv U by (auto simp: shard_inv_def)
  have ok: "source_ok (sh_sources st ! i)" using inv i(1) by (auto simp: shard_inv_def)
  have srcs: "source_ok src \<Longrightarrow> \<forall>s\<in>set (sh_sources st'). source_ok s"
    using inv i(4) set_update_subset_insert [of "sh_sources st" i src] by (auto simp: shard_inv_def)
  have notin: "pp_source p \<noteq> i" if "p \<in> set (sh_pending st)" for p
    using inv U that by (auto simp: shard_inv_def)
  show ?thesis
    using i(2) ok
  proof (cases rule: pop_cases)
    case 1
    then have pend: "sh_pending st' = sh_pending st" "points_pulled (sh_telemetry st') = points_pulled (sh_telemetry st)"
      using i(5) by auto
    have "accounted k st'" using inv pend i(3,6,7) by (simp add: shard_inv_def accounted_def same_outside_def)
    with inv pend 1 srcs i(1,3,4) notin show ?thesis
      unfolding shard_inv_def by (auto simp: nth_list_update source_drained_def)
  next
    case (2 p)
    then have pend: "sh_pending st' = \<lparr>pp_source = i, pp_point = p\<rparr> # sh_pending st"
      "points_pulled (sh_telemetry st') = Suc (points_pulled (sh_telemetry st))"
      using i(5) by auto
    have "accounted k st'" using inv pend i(3,6,7) by (simp add: shard_inv_def accounted_def same_outside_def)
    with inv pend 2 srcs i(1,3,4) notin lst show ?thesis
      unfolding shard_inv_def by (auto simp: nth_list_update)
  qed
qed


lemma shard_inv_pull_sources:
  assumes "shard_inv lst U k st" "distinct C" "set C \<subseteq> U" "pull_sources C limit st = (Inr u, st')"
  shows "shard_inv lst (U - set C) k st' \<and> same_outside st st'"
  using assms
proof (induction C arbitrary: st U)
  case (Cons i C)
  obtain r st1 where p: "shard_pull_source i limit st = (r, st1)" by fastforce
  then obtain v where r: "r = Inr v" and rest: "pull_sources C limit st1 = (Inr u, st')"
    using Cons.prems(4) by (cases r) auto
  from shard_inv_pull [OF Cons.prems(1) _ p [unfolded r]] Cons.prems(3)
  have one: "shard_inv lst (U - {i}) k st1" "same_outside st st1" by auto
  have "shard_inv lst (U - {i} - set C) k st' \<and> same_outside st1 st'"
    using Cons.prems(2,3) by (intro Cons.IH one(1) rest) auto
  moreover have "U - set (i # C) = U - {i} - set C" by auto
  ultimately show ?case using one(2) by (auto intro: same_outside_trans)
qed simp

lemma shard_inv_pop:
  assumes inv: "shard_inv lst U k st" and pop: "heap_pop pending_point_le (sh_pending st) = Some (m, rest)"
    and lst': "\<And>x. point_before (pp_point m) x \<Longrightarrow> after_point lst' x"
      "\<And>i x. i \<in> U \<Longrightarrow> after_point lst x \<Longrightarrow> after_point lst' x"
  shows "shard_inv lst' (insert (pp_source m) U) (Suc k) (st\<lparr>sh_pending := rest\<rparr>)"
proof -
  have sets: "set (sh_pending st) = insert m (set rest)" "length (sh_pending st) = Suc (length rest)"
    using heap_pop_set [OF pop] heap_pop_length [OF pop] by auto
  have ms: "mset (map pp_source (sh_pending st)) = mset (pp_source m # map pp_source rest)"
    using heap_pop_mset [OF pop] by simp
  have "distinct (pp_source m # map pp_source rest)"
    using inv mset_eq_imp_distinct_iff [OF ms] by (simp add: shard_inv_def)
  then have dist: "distinct (map pp_source rest)" "\<And>p. p \<in> set rest \<Longrightarrow> pp_source p \<noteq> pp_source m" by auto (metis image_eqI)
  have ord: "after_point lst' (pp_point q)" if "q \<in> set rest" for q
    using pending_point_le.heap_pop_ge [OF pop, of q] that sets by (auto intro: pending_point_le_before lst'(1))
  have prev: "ss_previous (sh_sources st ! pp_source m) = Some (pp_point m)" "pp_source m < length (sh_sources st)"
    using inv sets by (auto simp: shard_inv_def)
  show ?thesis
    using inv dist ord sets prev lst' unfolding shard_inv_def accounted_def by auto
qed

lemma shard_inv_pop_duplicates:
  assumes "pop_duplicates p C st = (Inr C', st')" "shard_inv (Some p) (set C) 1 st" "distinct C"
  shows "shard_inv (Some p) (set C') 1 st' \<and> distinct C' \<and> same_outside st st'"
  using assms
proof (induction p C st rule: pop_duplicates.induct)
  case (1 p C st)
  show ?case
  proof (cases "heap_pop pending_point_le (sh_pending st)")
    case None
    with 1(2-4) show ?thesis by (simp add: pop_duplicates.simps)
  next
    case (Some mr)
    obtain m rest where mr: "mr = (m, rest)" by fastforce
    note pop = Some [unfolded mr]
    let ?st = "st\<lparr>sh_pending := rest, sh_telemetry := (sh_telemetry st)
      \<lparr>duplicates_suppressed := duplicates_suppressed (sh_telemetry st) + 1\<rparr>\<rparr>"
    let ?same = "sp_id (pp_point m) = sp_id p \<and> f_eq (sp_score (pp_point m)) (sp_score p)"
    show ?thesis
    proof (cases ?same)
      case False
      with 1(2-4) pop show ?thesis by (simp add: pop_duplicates.simps)
    next
      case True
      then have eq: "sp_id (pp_point m) = sp_id p" "sp_score (pp_point m) = sp_score p" by (auto simp: f_eq_def)
      have v: "sp_version (pp_point m) = sp_version p" "pop_duplicates p (C @ [pp_source m]) ?st = (Inr C', st')"
        using 1(2) pop True by (auto simp: pop_duplicates.simps [of p C st] split: if_splits)
      have "shard_inv (Some p) (insert (pp_source m) (set C)) (Suc 1) (st\<lparr>sh_pending := rest\<rparr>)"
        using 1(3) pop by (rule shard_inv_pop) (use eq in \<open>auto simp: point_before_def\<close>)
      then have inv: "shard_inv (Some p) (set (C @ [pp_source m])) 1 ?st"
        unfolding shard_inv_def accounted_def by simp
      have "pp_source m \<notin> set C" using 1(3) heap_pop_in [OF pop] by (auto simp: shard_inv_def)
      with 1(4) have "distinct (C @ [pp_source m])" by simp
      from 1(1) [OF pop refl True _ v(2) inv this] v(1)
      show ?thesis by (auto simp: same_outside_def)
    qed
  qed
qed

section \<open>Steps of the stream\<close>

definition shard_ok :: "scored_point option \<Rightarrow> 'c exact_shard_merge_state \<Rightarrow> bool" where
  "shard_ok lst st \<longleftrightarrow> shard_inv lst {} 0 st"

lemma shard_next_inner_Some:
  assumes ok: "shard_ok lst st" and run: "shard_next_inner st = (Inr (Some p), st')"
  shows "shard_ok (Some p) st' \<and> after_point lst p \<and> sp_id p \<notin> set (sh_seen st) \<and> sh_seen st' = sp_id p # sh_seen st \<and>
    is_finite (sp_score p) \<and> sh_terminal_error st' = sh_terminal_error st"
proof -
  let ?st = "st\<lparr>sh_polls := sh_polls st + 1\<rparr>"
  have go: "\<not> sh_stopped st (sh_polls st)" using run by (auto simp: shard_next_inner_def Let_def split: if_splits)
  obtain m rest where pop: "heap_pop pending_point_le (sh_pending st) = Some (m, rest)"
    using run go by (auto simp: shard_next_inner_def Let_def split: option.splits)
  obtain r1 st1 where dup: "pop_duplicates (pp_point m) [pp_source m] (?st\<lparr>sh_pending := rest\<rparr>) = (r1, st1)" by fastforce
  then obtain C where r1: "r1 = Inr C" using run go pop by (cases r1) (simp_all add: shard_next_inner_def Let_def)
  obtain r2 st2 where pull: "pull_sources C (sh_batch_size st1) st1 = (r2, st2)" by fastforce
  then obtain u where r2: "r2 = Inr u"
    using run go pop dup r1 by (cases r2) (simp_all add: shard_next_inner_def Let_def)
  have emit: "emit_point (pp_point m) st2 = (Inr (Some p), st')"
    using run go pop dup r1 pull r2 by (simp add: shard_next_inner_def Let_def)
  have inv0: "shard_inv lst {} 0 ?st" using ok by (simp add: shard_ok_def shard_inv_def accounted_def)
  have m: "m \<in> set (sh_pending st)" using heap_pop_in [OF pop] .
  have "shard_inv (Some (pp_point m)) {pp_source m} (Suc 0) (?st\<lparr>sh_pending := rest\<rparr>)"
    using inv0 by (rule shard_inv_pop) (use pop in simp_all)
  then have "shard_inv (Some (pp_point m)) (set [pp_source m]) 1 (?st\<lparr>sh_pending := rest\<rparr>)" by simp
  from shard_inv_pop_duplicates [OF dup [unfolded r1] this]
  have s1: "shard_inv (Some (pp_point m)) (set C) 1 st1" "distinct C" "same_outside (?st\<lparr>sh_pending := rest\<rparr>) st1" by auto
  from shard_inv_pull_sources [OF s1(1,2) order_refl pull [unfolded r2]]
  have s2: "shard_inv (Some (pp_point m)) {} 1 st2" "same_outside st1 st2" by auto
  have p: "p = pp_point m" "sp_id p \<notin> set (sh_seen st2)" using emit by (auto simp: emit_point_def split: if_splits)
  have st': "st' = st2\<lparr>sh_seen := sp_id p # sh_seen st2,
     sh_telemetry := (sh_telemetry st2)\<lparr>st_points_emitted := st_points_emitted (sh_telemetry st2) + 1\<rparr>\<rparr>"
    using emit by (auto simp: emit_point_def split: if_splits)
  have "shard_ok (Some p) st'"
    using s2(1) p(1) unfolding shard_ok_def shard_inv_def accounted_def st' by simp
  moreover have "after_point lst p" "is_finite (sp_score p)" using ok m p(1) by (auto simp: shard_ok_def shard_inv_def)
  moreover have "sh_seen st2 = sh_seen st" "sh_terminal_error st2 = sh_terminal_error st"
    using s1(3) s2(2) by (simp_all add: same_outside_def)
  ultimately show ?thesis using p(2) st' by simp
qed

lemma shard_next_inner_None:
  assumes ok: "shard_ok lst st" and run: "shard_next_inner st = (Inr None, st')"
  shows "\<forall>src\<in>set (sh_sources st'). source_drained src"
    "points_pulled (sh_telemetry st') = length (sh_seen st) + duplicates_suppressed (sh_telemetry st')"
proof -
  have "sh_pending st = []" "st' = st\<lparr>sh_polls := sh_polls st + 1\<rparr>"
    using run by (auto simp: shard_next_inner_def emit_point_def Let_def split: if_splits option.splits prod.splits sum.splits)
  with ok show "\<forall>src\<in>set (sh_sources st'). source_drained src"
    "points_pulled (sh_telemetry st') = length (sh_seen st) + duplicates_suppressed (sh_telemetry st')"
    by (auto simp: shard_ok_def shard_inv_def accounted_def all_nth_iff)
qed

lemma merge_open_ok:
  assumes "merge_open srcs copies batch_size stopped channel = Inr st" "\<forall>src\<in>set srcs. source_ok src"
  shows "shard_ok None st" "sh_seen st = []"
proof -
  let ?st = "initial_state srcs copies batch_size stopped channel"
  obtain r st1 where pull: "pull_sources [0..<length srcs] 1 ?st = (r, st1)" by fastforce
  then obtain u where "r = Inr u" "st1 = st" using assms(1) by (cases r) (auto simp: merge_open_def split: if_splits)
  with pull have run: "pull_sources [0..<length srcs] 1 ?st = (Inr u, st)" by simp
  have "shard_inv None (set [0..<length srcs]) 0 ?st"
    using assms(2) by (simp add: shard_inv_def accounted_def initial_state_def)
  from shard_inv_pull_sources [OF this _ order_refl run] show "shard_ok None st" "sh_seen st = []"
    by (simp_all add: shard_ok_def same_outside_def initial_state_def)
qed

text \<open>\<open>shard_emits st ps st'\<close>: successive calls of \<open>next_inner\<close> return the points \<open>ps\<close> one after the other.\<close>

inductive shard_emits ::
  "'c exact_shard_merge_state \<Rightarrow> scored_point list \<Rightarrow> 'c exact_shard_merge_state \<Rightarrow> bool" where
  shard_emits_Nil: "shard_emits st [] st"
| shard_emits_Cons: "shard_next_inner st = (Inr (Some p), st') \<Longrightarrow> shard_emits st' ps st'' \<Longrightarrow> shard_emits st (p # ps) st''"

inductive_cases shard_emits_NilE: "shard_emits st [] st'"
inductive_cases shard_emits_ConsE: "shard_emits st (p # ps) st'"

lemma shard_emits_ok:
  assumes "shard_emits st ps st'" "shard_ok lst st"
  shows "sorted_wrt point_before ps \<and> (\<forall>p\<in>set ps. after_point lst p) \<and> sh_seen st' = rev (map sp_id ps) @ sh_seen st \<and>
    distinct (map sp_id ps) \<and> set (map sp_id ps) \<inter> set (sh_seen st) = {} \<and> (\<exists>lst'. shard_ok lst' st')"
  using assms
proof (induction arbitrary: lst rule: shard_emits.induct)
  case (shard_emits_Nil st)
  then show ?case by auto
next
  case (shard_emits_Cons st p st' ps st'')
  from shard_next_inner_Some [OF shard_emits_Cons.prems shard_emits_Cons.hyps(1)]
  have n: "shard_ok (Some p) st'" "after_point lst p" "sp_id p \<notin> set (sh_seen st)" "sh_seen st' = sp_id p # sh_seen st"
    by auto
  from shard_emits_Cons.IH [OF n(1)] n(2-4) show ?case by (auto intro: after_point_trans)
qed

text \<open>A batch is a run of the single-point step.\<close>

lemma collect_points_emits:
  assumes "collect_points n st = (Inr ps, st')"
  shows "\<exists>st1. shard_emits st ps st1 \<and> (length ps = n \<and> st' = st1 \<or> length ps < n \<and> shard_next_inner st1 = (Inr None, st'))"
  using assms
proof (induction n arbitrary: st ps)
  case 0
  then show ?case by (auto intro: shard_emits_Nil)
next
  case (Suc n)
  obtain r st1 where nx: "shard_next_inner st = (r, st1)" by fastforce
  with Suc.prems obtain op where r: "r = Inr op" by (cases r) auto
  show ?case
  proof (cases op)
    case None
    with Suc.prems nx r show ?thesis by (auto intro: shard_emits_Nil)
  next
    case (Some p)
    obtain r2 st2 where rec: "collect_points n st1 = (r2, st2)" by fastforce
    with Suc.prems nx r Some obtain qs where "r2 = Inr qs" "ps = p # qs" "st2 = st'" by (cases r2) auto
    with Suc.IH rec nx r Some show ?thesis by (fastforce intro: shard_emits_Cons)
  qed
qed

lemma collect_points_error: "collect_points n st = (Inl e, st') \<Longrightarrow> sh_terminal_error st' = Some e"
proof (induction n arbitrary: st)
  case (Suc n)
  obtain r st1 where nx: "shard_next_inner st = (r, st1)" by fastforce
  show ?case
  proof (cases r)
    case (Inl e')
    with Suc.prems nx show ?thesis by auto
  next
    case (Inr op)
    show ?thesis
    proof (cases op)
      case None
      with Suc.prems nx Inr show ?thesis by simp
    next
      case (Some p)
      obtain r2 st2 where rec: "collect_points n st1 = (r2, st2)" by fastforce
      with Suc.prems nx Inr Some have "r2 = Inl e \<and> st2 = st'" by (cases r2) auto
      with rec Suc.IH show ?thesis by simp
    qed
  qed
qed simp

section \<open>Sources that keep the segment contract\<close>

text \<open>
  Segments of one shard are coherent when each delivers its points once, in stream
  order and with finite scores, and copies of a point agree in version and score.
\<close>

definition coherent :: "scored_point list list \<Rightarrow> bool" where
  "coherent Ls \<longleftrightarrow> (\<forall>L\<in>set Ls. sorted_wrt point_before L \<and> distinct (map sp_id L) \<and> (\<forall>x\<in>set L. is_finite (sp_score x))) \<and>
     (\<forall>x\<in>set (concat Ls). \<forall>y\<in>set (concat Ls). sp_id x = sp_id y \<longrightarrow> x = y)"

lemma coherent_nth:
  "coherent Ls \<Longrightarrow> i < length Ls \<Longrightarrow>
     sorted_wrt point_before (Ls ! i) \<and> distinct (map sp_id (Ls ! i)) \<and> (\<forall>x\<in>set (Ls ! i). is_finite (sp_score x))"
  using nth_mem [of i Ls] unfolding coherent_def by blast

lemma coherent_agree:
  "coherent Ls \<Longrightarrow> x \<in> set (concat Ls) \<Longrightarrow> y \<in> set (concat Ls) \<Longrightarrow> sp_id x = sp_id y \<Longrightarrow> x = y"
  unfolding coherent_def by blast

lemma coherent_tl: "coherent Ls \<Longrightarrow> j < length Ls \<Longrightarrow> coherent (Ls[j := tl (Ls ! j)])"
proof -
  assume c: "coherent Ls" and j: "j < length Ls"
  have sub: "set (tl (Ls ! j)) \<subseteq> set (Ls ! j)" by (cases "Ls ! j") auto
  have "set (Ls[j := tl (Ls ! j)]) \<subseteq> insert (tl (Ls ! j)) (set Ls)" by (rule set_update_subset_insert)
  then have "\<forall>L\<in>set (Ls[j := tl (Ls ! j)]). L \<in> set Ls \<or> L = tl (Ls ! j)" by auto
  moreover have "sorted_wrt point_before (tl (Ls ! j)) \<and> distinct (map sp_id (tl (Ls ! j))) \<and>
      (\<forall>x\<in>set (tl (Ls ! j)). is_finite (sp_score x))"
    using coherent_nth [OF c j] by (cases "Ls ! j") auto
  moreover have "set (concat (Ls[j := tl (Ls ! j)])) \<subseteq> set (concat Ls)"
    using calculation(1) sub j nth_mem [OF j] by fastforce
  ultimately show ?thesis using c unfolding coherent_def by blast
qed

lemma concat_update_tl:
  "j < length Ls \<Longrightarrow> Ls ! j \<noteq> [] \<Longrightarrow> insert (hd (Ls ! j)) (set (concat (Ls[j := tl (Ls ! j)]))) = set (concat Ls)"
proof (induction Ls arbitrary: j)
  case (Cons L Ls)
  show ?case
  proof (cases j)
    case 0
    with Cons.prems show ?thesis by (cases L) auto
  next
    case (Suc k)
    with Cons.IH [of k] Cons.prems show ?thesis by auto
  qed
qed simp

text \<open>
  What the shard stream relies on: in captured state \<open>c\<close> with \<open>serves c xs\<close> the source
  delivers exactly \<open>xs\<close>, in this order, and an empty batch is its last.
\<close>

locale segment_contract =
  fixes pull :: "nat \<Rightarrow> 'c \<Rightarrow> (operation_error + batch_reply) \<times> 'c"
    and serves :: "'c \<Rightarrow> scored_point list \<Rightarrow> bool"
  assumes pull_serves: "serves c xs \<Longrightarrow> 0 < n \<Longrightarrow>
    \<exists>b c' ys. pull n c = (Inr b, c') \<and> xs = br_points b @ ys \<and> (br_eof b \<longrightarrow> ys = []) \<and>
      (br_points b = [] \<longrightarrow> br_eof b) \<and> serves c' ys"
begin

definition src_owes :: "'c segment_score_source \<Rightarrow> scored_point list \<Rightarrow> bool" where
  "src_owes src xs \<longleftrightarrow> ss_pull src = pull \<and>
     (\<exists>ys. xs = ss_buffer src @ ys \<and> (if ss_eof src then ys = [] else serves (ss_captured src) ys))"

lemma pop_owes:
  assumes owes: "src_owes src xs" and xs: "sorted_wrt point_before xs"
    "\<forall>x\<in>set xs. is_finite (sp_score x) \<and> after_point (ss_previous src) x" and n: "0 < n"
  obtains result src' where "pop n i src = (Inr result, src')" "pop_point result = (case xs of [] \<Rightarrow> None | x # _ \<Rightarrow> Some x)"
    "src_owes src' (tl xs)" "ss_previous src' = (case xs of [] \<Rightarrow> ss_previous src | x # _ \<Rightarrow> Some x)"
proof -
  obtain ys where ys: "ss_pull src = pull" "xs = ss_buffer src @ ys" "if ss_eof src then ys = [] else serves (ss_captured src) ys"
    using owes by (auto simp: src_owes_def)
  obtain counts src1 where fb: "fill_buffer n i (0, 0) src = Some (Inr counts, src1)" "src_owes src1 xs"
    "ss_buffer src1 \<noteq> [] \<or> ss_eof src1" "ss_previous src1 = ss_previous src"
  proof (cases "ss_buffer src \<noteq> [] \<or> ss_eof src")
    case True
    then have "fill_buffer n i (0, 0) src = Some (Inr (0, 0), src)" by (simp add: fill_buffer.simps)
    with True owes show ?thesis by (intro that) auto
  next
    case False
    with ys have "serves (ss_captured src) xs" by simp
    from pull_serves [OF this n] obtain b c' zs where b: "pull n (ss_captured src) = (Inr b, c')" "xs = br_points b @ zs"
      "br_eof b \<longrightarrow> zs = []" "br_points b = [] \<longrightarrow> br_eof b" "serves c' zs" by blast
    let ?src = "src\<lparr>ss_captured := c', ss_eof := br_eof b, ss_buffer := br_points b\<rparr>"
    have "validate_source_batch i (ss_previous src) (br_points b) = Inr ()"
      using xs b(2) by (simp add: validate_source_batch_Inr sorted_wrt_append)
    moreover have "ss_buffer ?src \<noteq> [] \<or> ss_eof ?src" using b(4) by auto
    then have "fill_buffer n i c ?src = Some (Inr c, ?src)" for c by (subst fill_buffer.simps) (rule if_P)
    ultimately have "\<exists>c. fill_buffer n i (0, 0) src = Some (Inr c, ?src)"
      using False b(1) ys(1) by (subst fill_buffer.simps) auto
    moreover have "src_owes ?src xs" using b ys(1) by (auto simp: src_owes_def)
    ultimately show ?thesis using b(4) that by auto
  qed
  obtain zs where zs: "ss_pull src1 = pull" "xs = ss_buffer src1 @ zs" "if ss_eof src1 then zs = [] else serves (ss_captured src1) zs"
    using fb(2) by (auto simp: src_owes_def)
  show thesis
  proof (cases "ss_buffer src1")
    case Nil
    with fb zs show ?thesis
      by (intro that [of "\<lparr>pop_point = None, pop_batch_requests = fst counts, pop_points_received = snd counts\<rparr>" src1])
        (auto simp: pop_def src_owes_def split: if_splits)
  next
    case (Cons p rest)
    with fb zs show ?thesis
      by (intro that [of "\<lparr>pop_point = Some p, pop_batch_requests = fst counts, pop_points_received = snd counts\<rparr>"
            "src1\<lparr>ss_buffer := rest, ss_previous := Some p\<rparr>"])
        (auto simp: pop_def src_owes_def)
  qed
qed

text \<open>
  \<open>shard_holds U st Ls\<close>: source \<open>i\<close> still has to contribute the points \<open>Ls ! i\<close>, the first of
  them pending unless \<open>i\<close> is among the sources \<open>U\<close> to be pulled.
\<close>

definition source_holds :: "bool \<Rightarrow> 'c segment_score_source \<Rightarrow> scored_point list \<Rightarrow> bool" where
  "source_holds waiting src L \<longleftrightarrow>
     (if waiting then src_owes src L \<and> (\<forall>x\<in>set L. after_point (ss_previous src) x)
      else src_owes src (tl L) \<and> (L \<noteq> [] \<longrightarrow> ss_previous src = Some (hd L)))"

definition shard_holds :: "nat set \<Rightarrow> 'c exact_shard_merge_state \<Rightarrow> scored_point list list \<Rightarrow> bool" where
  "shard_holds U st Ls \<longleftrightarrow>
     length Ls = length (sh_sources st) \<and> coherent Ls \<and> 0 < sh_batch_size st \<and> sh_terminal_error st = None \<and>
     (\<forall>n. \<not> sh_stopped st n) \<and> set (sh_seen st) \<inter> sp_id ` set (concat Ls) = {} \<and>
     (\<forall>i<length Ls. source_holds (i \<in> U) (sh_sources st ! i) (Ls ! i)) \<and> distinct (map pp_source (sh_pending st)) \<and>
     set (sh_pending st) = {\<lparr>pp_source = i, pp_point = hd (Ls ! i)\<rparr> | i. i < length Ls \<and> i \<notin> U \<and> Ls ! i \<noteq> []}"

lemma shard_holds_pull:
  assumes h: "shard_holds U st Ls" and i: "i \<in> U" "i < length Ls" and n: "0 < n"
  obtains st' where "shard_pull_source i n st = (Inr (), st')" "shard_holds (U - {i}) st' Ls" "same_outside st st'"
proof -
  have len: "length Ls = length (sh_sources st)" and c: "coherent Ls" using h by (auto simp: shard_holds_def)
  have src: "src_owes (sh_sources st ! i) (Ls ! i)" "\<forall>x\<in>set (Ls ! i). after_point (ss_previous (sh_sources st ! i)) x"
    using h i by (auto simp: shard_holds_def source_holds_def)
  have sorted: "sorted_wrt point_before (Ls ! i)"
    "\<forall>x\<in>set (Ls ! i). is_finite (sp_score x) \<and> after_point (ss_previous (sh_sources st ! i)) x"
    using coherent_nth [OF c i(2)] src(2) by blast+
  obtain result src' where p: "pop n i (sh_sources st ! i) = (Inr result, src')"
    "pop_point result = (case Ls ! i of [] \<Rightarrow> None | x # _ \<Rightarrow> Some x)" "src_owes src' (tl (Ls ! i))"
    "ss_previous src' = (case Ls ! i of [] \<Rightarrow> ss_previous (sh_sources st ! i) | x # _ \<Rightarrow> Some x)"
    by (rule pop_owes [OF src(1) sorted n])
  obtain st' where run: "shard_pull_source i n st = (Inr (), st')" "same_outside st st'"
    "sh_sources st' = (sh_sources st)[i := src']"
    "sh_pending st' = (case Ls ! i of [] \<Rightarrow> sh_pending st | x # _ \<Rightarrow> \<lparr>pp_source = i, pp_point = x\<rparr> # sh_pending st)"
  proof (cases "Ls ! i")
    case Nil
    with p i len that show ?thesis by (simp add: shard_pull_source_def same_outside_def Let_def)
  next
    case (Cons x xs)
    with p i len that show ?thesis by (simp add: shard_pull_source_def same_outside_def heap_push_def Let_def)
  qed
  have per: "source_holds (j \<in> U - {i}) (sh_sources st' ! j) (Ls ! j)" if j: "j < length Ls" for j
  proof (cases "j = i")
    case True
    with p(3,4) i len run(3) show ?thesis by (cases "Ls ! i") (auto simp: source_holds_def)
  next
    case False
    with h j run(3) show ?thesis by (simp add: shard_holds_def)
  qed
  have "i \<notin> pp_source ` set (sh_pending st)" using h i by (auto simp: shard_holds_def)
  then have dist: "distinct (map pp_source (sh_pending st'))"
    using h run(4) by (cases "Ls ! i") (auto simp: shard_holds_def)
  have "set (sh_pending st') = {\<lparr>pp_source = j, pp_point = hd (Ls ! j)\<rparr> | j. j < length Ls \<and> j \<notin> U - {i} \<and> Ls ! j \<noteq> []}"
  proof (cases "Ls ! i")
    case Nil
    with h run(4) show ?thesis by (auto simp: shard_holds_def)
  next
    case (Cons x xs)
    then have "set (sh_pending st') = insert \<lparr>pp_source = i, pp_point = hd (Ls ! i)\<rparr> (set (sh_pending st))"
      using run(4) by simp
    with h i(2) Cons show ?thesis by (auto simp: shard_holds_def)
  qed
  with h per dist run(2,3) have "shard_holds (U - {i}) st' Ls" by (simp add: shard_holds_def same_outside_def)
  with run that show thesis by blast
qed

lemma shard_holds_pull_sources:
  assumes "shard_holds U st Ls" "distinct C" "set C \<subseteq> U" "\<forall>i\<in>set C. i < length Ls" "0 < n"
  shows "\<exists>st'. pull_sources C n st = (Inr (), st') \<and> shard_holds (U - set C) st' Ls \<and> same_outside st st'"
  using assms
proof (induction C arbitrary: st U)
  case (Cons i C)
  obtain st1 where one: "shard_pull_source i n st = (Inr (), st1)" "shard_holds (U - {i}) st1 Ls" "same_outside st st1"
    using Cons.prems by (auto elim: shard_holds_pull)
  have "\<exists>st'. pull_sources C n st1 = (Inr (), st') \<and> shard_holds (U - {i} - set C) st' Ls \<and> same_outside st1 st'"
    using Cons.prems by (intro Cons.IH one(2)) auto
  moreover have "U - set (i # C) = U - {i} - set C" by auto
  ultimately show ?case using one by (auto intro: same_outside_trans)
qed simp

end

context segment_contract
begin

lemma shard_holds_pop:
  assumes h: "shard_holds U st Ls" and pop: "heap_pop pending_point_le (sh_pending st) = Some (m, rest)"
  shows "m = \<lparr>pp_source = pp_source m, pp_point = hd (Ls ! pp_source m)\<rparr>" (is ?eq)
    "pp_source m < length Ls" "pp_source m \<notin> U" "Ls ! pp_source m \<noteq> []"
    "shard_holds (insert (pp_source m) U) (st\<lparr>sh_pending := rest\<rparr>) (Ls[pp_source m := tl (Ls ! pp_source m)])"
proof -
  let ?j = "pp_source m"
  have "m \<in> set (sh_pending st)" by (rule heap_pop_in [OF pop])
  then show eq: ?eq and j: "?j < length Ls" "?j \<notin> U" "Ls ! ?j \<noteq> []"
    using h by (auto simp: shard_holds_def)
  let ?Ls = "Ls[?j := tl (Ls ! ?j)]"
  have sets: "set (sh_pending st) = insert m (set rest)" by (rule heap_pop_set [OF pop])
  have ms: "mset (map pp_source (sh_pending st)) = mset (?j # map pp_source rest)"
    using heap_pop_mset [OF pop] by simp
  have "distinct (?j # map pp_source rest)"
    using h mset_eq_imp_distinct_iff [OF ms] by (simp add: shard_holds_def)
  then have dist: "distinct (map pp_source rest)" and nj: "\<And>p. p \<in> set rest \<Longrightarrow> pp_source p \<noteq> ?j" by auto (metis image_eqI)
  have rest: "set rest = {\<lparr>pp_source = i, pp_point = hd (?Ls ! i)\<rparr> | i. i < length ?Ls \<and> i \<notin> insert ?j U \<and> ?Ls ! i \<noteq> []}"
  proof -
    have "set rest = {p \<in> set (sh_pending st). pp_source p \<noteq> ?j}" using sets nj by auto
    also have "\<dots> = {\<lparr>pp_source = i, pp_point = hd (Ls ! i)\<rparr> | i. i < length Ls \<and> i \<notin> insert ?j U \<and> Ls ! i \<noteq> []}"
      using h by (auto simp: shard_holds_def)
    also have "\<dots> = {\<lparr>pp_source = i, pp_point = hd (?Ls ! i)\<rparr> | i. i < length ?Ls \<and> i \<notin> insert ?j U \<and> ?Ls ! i \<noteq> []}"
      by (rule Collect_cong) auto
    finally show ?thesis .
  qed
  have src: "source_holds False (sh_sources st ! ?j) (Ls ! ?j)" and c: "coherent Ls" using h j by (auto simp: shard_holds_def)
  have per: "source_holds (i \<in> insert ?j U) (sh_sources st ! i) (?Ls ! i)" if i: "i < length ?Ls" for i
  proof (cases "i = ?j")
    case True
    with src j coherent_nth [OF c j(1)] show ?thesis by (cases "Ls ! ?j") (auto simp: source_holds_def)
  next
    case False
    with h i show ?thesis by (simp add: shard_holds_def)
  qed
  have "set (concat ?Ls) \<subseteq> set (concat Ls)" using concat_update_tl [OF j(1,3)] by blast
  then have "set (sh_seen st) \<inter> sp_id ` set (concat ?Ls) = {}" using h unfolding shard_holds_def by blast
  with h per dist rest coherent_tl [OF c j(1)]
  show "shard_holds (insert ?j U) (st\<lparr>sh_pending := rest\<rparr>) ?Ls" by (simp add: shard_holds_def)
qed

lemma shard_holds_telemetry: "shard_holds U (st\<lparr>sh_telemetry := t\<rparr>) Ls = shard_holds U st Ls"
  by (simp add: shard_holds_def)

text \<open>Every copy of \<open>p\<close> is found at the head of the heap: the remaining lists are sorted and \<open>p\<close> precedes all of them.\<close>

lemma shard_holds_copies:
  assumes h: "shard_holds U st Ls" and U: "\<forall>i\<in>U. i < length Ls \<longrightarrow> sp_id p \<notin> sp_id ` set (Ls ! i)"
    and p: "\<forall>x\<in>set (concat Ls). point_before p x \<and> (sp_id x = sp_id p \<longrightarrow> x = p)"
    and x: "x \<in> set (concat Ls)" "sp_id x = sp_id p"
  shows "\<exists>m\<in>set (sh_pending st). pp_point m = p"
proof -
  have xp: "x = p" using p x by blast
  obtain i where i: "i < length Ls" "p \<in> set (Ls ! i)" using x(1) xp by (auto simp: in_set_conv_nth [of _ Ls])
  then have nU: "i \<notin> U" and ne: "Ls ! i \<noteq> []" using U by auto
  have hd: "hd (Ls ! i) \<in> set (concat Ls)" using i ne by (auto intro!: bexI [of _ "Ls ! i"])
  have "point_before (hd (Ls ! i)) p"
    using coherent_nth [OF _ i(1)] h i(2) ne point_before.rank_refl by (cases "Ls ! i") (auto simp: shard_holds_def)
  moreover have "point_before p (hd (Ls ! i))" using p hd by blast
  ultimately have "sp_id (hd (Ls ! i)) = sp_id p" by (auto simp: point_before_def ranks_before_def)
  with p hd have "hd (Ls ! i) = p" by blast
  with h i nU ne show ?thesis by (auto simp: shard_holds_def intro!: bexI [of _ "\<lparr>pp_source = i, pp_point = p\<rparr>"])
qed

lemma shard_holds_pop_duplicates:
  assumes "shard_holds (set C) st Ls" "distinct C" "\<forall>i\<in>set C. i < length Ls \<and> sp_id p \<notin> sp_id ` set (Ls ! i)"
    "\<forall>x\<in>set (concat Ls). point_before p x \<and> (sp_id x = sp_id p \<longrightarrow> x = p)" "is_finite (sp_score p)"
  shows "\<exists>C' st' Ls'. pop_duplicates p C st = (Inr C', st') \<and> shard_holds (set C') st' Ls' \<and> distinct C' \<and>
    (\<forall>i\<in>set C'. i < length Ls') \<and> insert p (set (concat Ls')) = insert p (set (concat Ls)) \<and>
    sp_id p \<notin> sp_id ` set (concat Ls') \<and> same_outside st st'"
  using assms
proof (induction p C st arbitrary: Ls rule: pop_duplicates.induct)
  case (1 p C st)
  have stop: ?case if "pop_duplicates p C st = (Inr C, st)" "\<forall>m\<in>set (sh_pending st). pp_point m \<noteq> p"
  proof -
    have "sp_id p \<notin> sp_id ` set (concat Ls)"
      using shard_holds_copies [OF 1(2) _ 1(5)] 1(4) that(2) by (metis (no_types, lifting) imageE)
    with that(1) 1(2-4) show ?thesis by (intro exI [of _ C] exI [of _ st] exI [of _ Ls]) auto
  qed
  show ?case
  proof (cases "heap_pop pending_point_le (sh_pending st)")
    case None
    then have "sh_pending st = []" by simp
    then show ?thesis by (intro stop) (simp_all add: pop_duplicates.simps heap_pop_def)
  next
    case (Some mr)
    obtain m rest where mr: "mr = (m, rest)" by fastforce
    note pop = Some [unfolded mr]
    note hp = shard_holds_pop [OF 1(2) pop]
    let ?j = "pp_source m" let ?Ls = "Ls[?j := tl (Ls ! ?j)]"
    let ?same = "sp_id (pp_point m) = sp_id p \<and> f_eq (sp_score (pp_point m)) (sp_score p)"
    have hdm: "pp_point m = hd (Ls ! ?j)" using hp(1) by (metis pending_point.select_convs(2))
    have mem: "pp_point m \<in> set (concat Ls)" using hp(2,4) hdm by (auto intro!: bexI [of _ "Ls ! ?j"])
    show ?thesis
    proof (cases ?same)
      case False
      have "pp_point k \<noteq> p" if k: "k \<in> set (sh_pending st)" for k
      proof
        assume "pp_point k = p"
        then have "point_before (pp_point m) p"
          using pending_point_le_before [OF pending_point_le.heap_pop_ge [OF pop k]] by simp
        moreover have "point_before p (pp_point m)" using 1(5) mem by blast
        ultimately have "sp_id (pp_point m) = sp_id p" by (auto simp: point_before_def ranks_before_def)
        with 1(5) mem have "pp_point m = p" by blast
        with False 1(6) show False by (cases "sp_score p") (auto simp: f_eq_def)
      qed
      moreover have "pop_duplicates p C st = (Inr C, st)" using False pop by (subst pop_duplicates.simps) auto
      ultimately show ?thesis by (intro stop) blast+
    next
      case True
      with 1(5) mem have mp: "pp_point m = p" by blast
      let ?st = "st\<lparr>sh_pending := rest, sh_telemetry := (sh_telemetry st)
        \<lparr>duplicates_suppressed := duplicates_suppressed (sh_telemetry st) + 1\<rparr>\<rparr>"
      have h': "shard_holds (set (C @ [?j])) ?st ?Ls"
        using hp(5) by (simp add: shard_holds_def)
      have cc: "insert p (set (concat ?Ls)) = set (concat Ls)" using concat_update_tl [OF hp(2,4)] hdm mp by simp
      have sub: "set (concat ?Ls) \<subseteq> set (concat Ls)" using cc by blast
      have "distinct (map sp_id (Ls ! ?j))" using coherent_nth hp(2) 1(2) by (auto simp: shard_holds_def)
      then have "sp_id p \<notin> sp_id ` set (tl (Ls ! ?j))" using hp(4) hdm mp by (cases "Ls ! ?j") auto
      then have C: "\<forall>i\<in>set (C @ [?j]). i < length ?Ls \<and> sp_id p \<notin> sp_id ` set (?Ls ! i)"
        using 1(4) hp(2,3) by (auto simp: nth_list_update)
      have d: "distinct (C @ [?j])" using 1(3) hp(3) by simp
      have v: "\<not> sp_version (pp_point m) \<noteq> sp_version p" using mp by simp
      have "\<exists>C' st' Ls'. pop_duplicates p (C @ [?j]) ?st = (Inr C', st') \<and> shard_holds (set C') st' Ls' \<and> distinct C' \<and>
        (\<forall>i\<in>set C'. i < length Ls') \<and> insert p (set (concat Ls')) = insert p (set (concat ?Ls)) \<and>
        sp_id p \<notin> sp_id ` set (concat Ls') \<and> same_outside ?st st'"
        using 1(5) sub by (intro 1(1) [OF pop refl True v h' d C _ 1(6)]) blast
      moreover have "pop_duplicates p C st = pop_duplicates p (C @ [?j]) ?st"
        using pop True v by (simp add: pop_duplicates.simps [of p C st])
      moreover have "same_outside ?st x \<Longrightarrow> same_outside st x" for x by (simp add: same_outside_def)
      ultimately show ?thesis using cc by (metis insert_absorb2)
    qed
  qed
qed

end

text \<open>The abstract stream: every point some source holds, once, in stream order.\<close>

definition shard_order :: "scored_point list list \<Rightarrow> scored_point list" where
  "shard_order Ls = sort_by point_before (remdups (concat Ls))"

lemma shard_order_facts:
  "sorted_wrt point_before (shard_order Ls)" "distinct (shard_order Ls)" "set (shard_order Ls) = set (concat Ls)"
  by (simp_all add: shard_order_def point_before.sorted_sort_by)

context segment_contract
begin

definition stream_queue :: "'c exact_shard_merge_state \<Rightarrow> scored_point list \<Rightarrow> bool" where
  "stream_queue st q \<longleftrightarrow> sorted_wrt point_before q \<and> distinct q \<and>
     (\<exists>Ls. shard_holds {} st Ls \<and> set q = set (concat Ls))"

lemma shard_holds_polls: "shard_holds U (st\<lparr>sh_polls := n\<rparr>) Ls = shard_holds U st Ls"
  by (simp add: shard_holds_def)

lemma shard_holds_coherent: "shard_holds U st Ls \<Longrightarrow> coherent Ls"
  by (simp add: shard_holds_def)

lemma shard_holds_seen:
  assumes "shard_holds U st Ls" "x \<in> set (concat Ls)"
  shows "sp_id x \<notin> set (sh_seen st)"
proof -
  have "set (sh_seen st) \<inter> sp_id ` set (concat Ls) = {}" using assms(1) by (simp only: shard_holds_def)
  with assms(2) show ?thesis by blast
qed

lemma shard_holds_pending:
  assumes "shard_holds {} st Ls" "i < length Ls" "Ls ! i \<noteq> []"
  shows "\<lparr>pp_source = i, pp_point = hd (Ls ! i)\<rparr> \<in> set (sh_pending st)"
proof -
  have "set (sh_pending st) = {\<lparr>pp_source = i, pp_point = hd (Ls ! i)\<rparr> | i. i < length Ls \<and> i \<notin> {} \<and> Ls ! i \<noteq> []}"
    using assms(1) by (simp only: shard_holds_def)
  with assms(2,3) show ?thesis by auto
qed

lemma shard_holds_emit:
  assumes "shard_holds {} st Ls" "x \<notin> sp_id ` set (concat Ls)"
  shows "shard_holds {} (st\<lparr>sh_seen := x # sh_seen st, sh_telemetry := t\<rparr>) Ls"
  using assms by (simp add: shard_holds_def)

lemma shard_holds_first:
  assumes h: "shard_holds {} st Ls" and pop: "heap_pop pending_point_le (sh_pending st) = Some (m, rest)"
    and x: "x \<in> set (concat Ls)"
  shows "point_before (pp_point m) x"
proof -
  obtain i where i: "i < length Ls" "x \<in> set (Ls ! i)" using x by (auto simp: in_set_conv_nth [of _ Ls])
  have "\<lparr>pp_source = i, pp_point = hd (Ls ! i)\<rparr> \<in> set (sh_pending st)"
    using i(2) by (intro shard_holds_pending [OF h i(1)]) force
  from pending_point_le_before [OF pending_point_le.heap_pop_ge [OF pop this]]
  have "point_before (pp_point m) (hd (Ls ! i))" by simp
  moreover have "point_before (hd (Ls ! i)) x"
    using coherent_nth [OF shard_holds_coherent [OF h] i(1)] i(2) point_before.rank_refl by (cases "Ls ! i") auto
  ultimately show ?thesis by (rule point_before.rank_trans)
qed

lemma shard_next_inner_Nil:
  assumes "stream_queue st []"
  obtains st' where "shard_next_inner st = (Inr None, st')" "stream_queue st' []"
proof -
  obtain Ls where h: "shard_holds {} st Ls" "set (concat Ls) = {}" using assms by (auto simp: stream_queue_def)
  then have "\<forall>i<length Ls. Ls ! i = []" by (metis concat_eq_Nil_conv nth_mem set_empty)
  then have empty: "{\<lparr>pp_source = i, pp_point = hd (Ls ! i)\<rparr> | i. i < length Ls \<and> i \<notin> {} \<and> Ls ! i \<noteq> []} = {}" by simp
  have "set (sh_pending st) = {}" using h(1) unfolding shard_holds_def empty by (elim conjE)
  then have "sh_pending st = []" by simp
  then have "shard_next_inner st = (Inr None, st\<lparr>sh_polls := sh_polls st + 1\<rparr>)"
    using h(1) by (simp add: shard_next_inner_def heap_pop_def shard_holds_def Let_def)
  moreover have "stream_queue (st\<lparr>sh_polls := sh_polls st + 1\<rparr>) []"
    using assms by (simp add: stream_queue_def shard_holds_polls)
  ultimately show thesis by (rule that)
qed

lemma shard_next_inner_Cons:
  assumes q: "stream_queue st (p # q)"
  obtains st' where "shard_next_inner st = (Inr (Some p), st')" "stream_queue st' q"
proof -
  let ?st = "st\<lparr>sh_polls := sh_polls st + 1\<rparr>"
  obtain Ls where h: "shard_holds {} ?st Ls" "insert p (set q) = set (concat Ls)"
    using q by (auto simp: stream_queue_def shard_holds_polls)
  have agree: "x = y" if "x \<in> set (concat Ls)" "y \<in> set (concat Ls)" "sp_id x = sp_id y" for x y
    using coherent_agree [OF shard_holds_coherent [OF h(1)]] that by blast
  have "sh_pending st \<noteq> []"
  proof -
    have "p \<in> set (concat Ls)" using h(2) by blast
    then obtain i where "i < length Ls" "p \<in> set (Ls ! i)" by (auto simp: in_set_conv_nth [of _ Ls])
    then have "\<lparr>pp_source = i, pp_point = hd (Ls ! i)\<rparr> \<in> set (sh_pending ?st)" by (intro shard_holds_pending [OF h(1)]) force+
    then show ?thesis by force
  qed
  then obtain m rest where pop: "heap_pop pending_point_le (sh_pending ?st) = Some (m, rest)"
    by (cases "heap_pop pending_point_le (sh_pending st)") auto
  note hp = shard_holds_pop [OF h(1) pop]
  let ?j = "pp_source m" let ?Ls = "Ls[?j := tl (Ls ! ?j)]"
  have hdm: "pp_point m = hd (Ls ! ?j)" using hp(1) by (metis pending_point.select_convs(2))
  have mem: "pp_point m \<in> set (concat Ls)" using hp(2,4) hdm by (auto intro!: bexI [of _ "Ls ! ?j"])
  have first: "\<forall>x\<in>set (concat Ls). point_before (pp_point m) x" using shard_holds_first [OF h(1) pop] by blast
  have mp: "pp_point m = p"
  proof (rule agree [OF mem])
    show p: "p \<in> set (concat Ls)" using h(2) by blast
    have "pp_point m \<in> insert p (set q)" "\<forall>x\<in>set q. point_before p x"
      using mem q unfolding h(2) by (simp_all add: stream_queue_def)
    then have "point_before p (pp_point m)" using point_before.rank_refl by blast
    moreover have "point_before (pp_point m) p" using first p by blast
    ultimately show "sp_id (pp_point m) = sp_id p" by (auto simp: point_before_def ranks_before_def)
  qed
  have cc: "insert p (set (concat ?Ls)) = set (concat Ls)" using concat_update_tl [OF hp(2,4)] hdm mp by simp
  have fin: "is_finite (sp_score p)" and "distinct (map sp_id (Ls ! ?j))"
    using coherent_nth [OF shard_holds_coherent [OF h(1)] hp(2)] hp(4) hdm mp by auto
  then have "sp_id p \<notin> sp_id ` set (tl (Ls ! ?j))" using hp(4) hdm mp by (cases "Ls ! ?j") auto
  then have one: "\<forall>i\<in>set [?j]. i < length ?Ls \<and> sp_id p \<notin> sp_id ` set (?Ls ! i)" using hp(2) by simp
  have "\<forall>x\<in>set (concat ?Ls). point_before p x \<and> (sp_id x = sp_id p \<longrightarrow> x = p)"
    using first mp cc agree mem by blast
  from shard_holds_pop_duplicates [OF _ _ one this fin, of "?st\<lparr>sh_pending := rest\<rparr>"] hp(5)
  obtain C st1 Ls1 where d: "pop_duplicates p [?j] (?st\<lparr>sh_pending := rest\<rparr>) = (Inr C, st1)" "shard_holds (set C) st1 Ls1"
    "distinct C" "\<forall>i\<in>set C. i < length Ls1" "insert p (set (concat Ls1)) = insert p (set (concat ?Ls))"
    "sp_id p \<notin> sp_id ` set (concat Ls1)" "same_outside (?st\<lparr>sh_pending := rest\<rparr>) st1"
    by auto
  have "0 < sh_batch_size st1" using d(2) by (simp add: shard_holds_def)
  from shard_holds_pull_sources [OF d(2,3) order_refl d(4) this]
  obtain st2 where p2: "pull_sources C (sh_batch_size st1) st1 = (Inr (), st2)" "shard_holds {} st2 Ls1" "same_outside st1 st2"
    by auto
  have seen: "sp_id p \<notin> set (sh_seen st2)"
    using shard_holds_seen [OF h(1), of p] h(2) d(7) p2(3) by (auto simp: same_outside_def)
  let ?st' = "st2\<lparr>sh_seen := sp_id p # sh_seen st2,
     sh_telemetry := (sh_telemetry st2)\<lparr>st_points_emitted := st_points_emitted (sh_telemetry st2) + 1\<rparr>\<rparr>"
  have run: "shard_next_inner st = (Inr (Some p), ?st')"
    using h(1) pop mp d(1) p2(1) seen by (simp add: shard_next_inner_def emit_point_def shard_holds_def Let_def)
  have hold: "shard_holds {} ?st' Ls1" by (rule shard_holds_emit [OF p2(2) d(6)])
  have "p \<notin> set (concat Ls1)" using d(6) by blast
  moreover have "p \<notin> set q" using q by (simp add: stream_queue_def)
  ultimately have "set q = set (concat Ls1)" using d(5) [unfolded cc] unfolding h(2) [symmetric] by (metis insert_ident)
  with hold have "stream_queue ?st' q" using q unfolding stream_queue_def by auto
  with run that show thesis by blast
qed

lemma collect_points_refines:
  assumes "stream_queue st q"
  shows "\<exists>st'. collect_points n st = (Inr (take n q), st') \<and> stream_queue st' (drop n q)"
  using assms
proof (induction n arbitrary: st q)
  case (Suc n)
  show ?case
  proof (cases q)
    case Nil
    with Suc.prems obtain st1 where "shard_next_inner st = (Inr None, st1)" "stream_queue st1 []"
      by (auto elim: shard_next_inner_Nil)
    with Nil show ?thesis by simp
  next
    case (Cons p ps)
    with Suc.prems obtain st1 where st1: "shard_next_inner st = (Inr (Some p), st1)" "stream_queue st1 ps"
      by (auto elim: shard_next_inner_Cons)
    from Suc.IH [OF st1(2)] st1(1) Cons show ?thesis by auto
  qed
qed simp

lemma stream_queue_ready: "stream_queue st q \<Longrightarrow> sh_terminal_error st = None"
  by (auto simp: stream_queue_def shard_holds_def)

lemma shard_next_batch_refines:
  assumes q: "stream_queue st q" and n: "0 < n"
  obtains st' where "shard_next_batch n st = (Inr (take n q), st')" "stream_queue st' (drop n q)"
proof -
  obtain st' where "collect_points n st = (Inr (take n q), st')" "stream_queue st' (drop n q)"
    using collect_points_refines [OF q] by blast
  then show thesis using that n stream_queue_ready [OF q] by (simp add: shard_next_batch_def)
qed

lemma merge_open_refines:
  assumes srcs: "length srcs = length Ls" "\<forall>i<length Ls. ss_pull (srcs ! i) = pull \<and> ss_buffer (srcs ! i) = [] \<and>
      \<not> ss_eof (srcs ! i) \<and> ss_previous (srcs ! i) = None \<and> serves (ss_captured (srcs ! i)) (Ls ! i)"
    and c: "coherent Ls" and bs: "0 < batch_size" and go: "\<forall>n. \<not> stopped n"
  obtains st where "merge_open srcs copies batch_size stopped channel = Inr st" "stream_queue st (shard_order Ls)"
proof -
  let ?st = "initial_state srcs copies batch_size stopped channel"
  have "source_holds True (srcs ! i) (Ls ! i)" if "i < length Ls" for i
    using srcs(2) that by (auto simp: source_holds_def src_owes_def)
  then have "shard_holds (set [0..<length srcs]) ?st Ls"
    using srcs(1) c bs go by (auto simp: shard_holds_def initial_state_def)
  from shard_holds_pull_sources [OF this _ order_refl, of 1] srcs(1)
  obtain st where st: "pull_sources [0..<length srcs] 1 ?st = (Inr (), st)" "shard_holds {} st Ls"
    by auto
  then have "merge_open srcs copies batch_size stopped channel = Inr st" using bs by (simp add: merge_open_def)
  moreover have "stream_queue st (shard_order Ls)" using st(2) shard_order_facts by (auto simp: stream_queue_def)
  ultimately show thesis by (rule that)
qed

end

text \<open>Successive batches; the sizes do not matter.\<close>

fun run_batches ::
  "nat list \<Rightarrow> 'c exact_shard_merge_state \<Rightarrow> operation_error + scored_point list" where
  "run_batches [] st = Inr []"
| "run_batches (n # ns) st =
     (case shard_next_batch n st of
        (Inl e, _) \<Rightarrow> Inl e
      | (Inr ps, st') \<Rightarrow> rbind (run_batches ns st') (\<lambda>qs. Inr (ps @ qs)))"

context segment_contract
begin

lemma run_batches_refines:
  "stream_queue st q \<Longrightarrow> \<forall>n\<in>set ns. 0 < n \<Longrightarrow> run_batches ns st = Inr (take (sum_list ns) q)"
proof (induction ns arbitrary: st q)
  case (Cons n ns)
  obtain st' where "shard_next_batch n st = (Inr (take n q), st')" "stream_queue st' (drop n q)"
    using Cons.prems by (auto elim: shard_next_batch_refines)
  with Cons.IH [of st' "drop n q"] Cons.prems(2) show ?case by (simp add: take_add)
qed simp

end

section \<open>The exhaustive fallback\<close>

text \<open>
  \<open>src/lib/shard/src/exact_rank_fallback.rs\<close>: a segment without an exact rank state is
  searched exhaustively once; \<open>search\<close> is the answer of \<open>search_batch\<close>. The captured
  state is the sorted answer and the offset of the next point.
\<close>

definition fallback_le :: "scored_point \<Rightarrow> scored_point \<Rightarrow> bool" where
  "fallback_le left right =
     is_le (then_with (then_with (cmp (sp_score right) (sp_score left)) (cmp (sp_id left) (sp_id right)))
                      (cmp (sp_version right) (sp_version left)))"

definition materialized_pull ::
  "nat \<Rightarrow> scored_point list \<times> nat \<Rightarrow> (operation_error + batch_reply) \<times> (scored_point list \<times> nat)" where
  "materialized_pull limit state =
     (let points = fst state; start = snd state; stop = min (saturating_add start limit) (length points)
      in (Inr \<lparr>br_points = take (stop - start) (drop start points), br_eof = (stop = length points)\<rparr>, (points, stop)))"

definition materialized_exact_source ::
  "operation_error + scored_point list list \<Rightarrow> operation_error + (scored_point list \<times> nat) segment_score_source" where
  "materialized_exact_source search =
     rbind search (\<lambda>answers. Inr (on_demand materialized_pull
       (sort_by fallback_le (if answers = [] then [] else last answers), 0) ExhaustiveFallback))"

interpretation fallback_le: linear_rank fallback_le
proof
  fix a b :: scored_point
  assume "fallback_le a b" "fallback_le b a"
  then have "sp_score a = sp_score b \<and> sp_id a = sp_id b \<and> sp_version a = sp_version b"
    by (auto simp: fallback_le_def rank_simps)
  then show "a = b" by (cases a; cases b) simp
qed (auto simp: fallback_le_def rank_simps)

lemma fallback_le_before: "fallback_le a b \<Longrightarrow> point_before a b"
  by (auto simp: fallback_le_def point_before_def ranks_before_def rank_simps)

definition materialized_serves :: "scored_point list \<times> nat \<Rightarrow> scored_point list \<Rightarrow> bool" where
  "materialized_serves state xs \<longleftrightarrow> length (fst state) \<le> usize_max \<and> snd state \<le> length (fst state) \<and> xs = drop (snd state) (fst state)"

interpretation materialized: segment_contract materialized_pull materialized_serves
proof
  fix c :: "scored_point list \<times> nat" and xs n
  assume s: "materialized_serves c xs" and n: "0 < (n::nat)"
  obtain pts k where c: "c = (pts, k)" by fastforce
  let ?e = "min (saturating_add k n) (length pts)"
  have e: "k \<le> ?e" "?e \<le> length pts" "?e = k \<longrightarrow> k = length pts"
    using s n by (auto simp: c materialized_serves_def saturating_add_def min_def)
  have "xs = take (?e - k) (drop k pts) @ drop ?e pts"
    using s e(1) append_take_drop_id [of "?e - k" "drop k pts"] by (simp add: c materialized_serves_def)
  moreover have "take (?e - k) (drop k pts) = [] \<longrightarrow> ?e = length pts" using e by auto
  ultimately show "\<exists>b c' ys. materialized_pull n c = (Inr b, c') \<and> xs = br_points b @ ys \<and> (br_eof b \<longrightarrow> ys = []) \<and>
      (br_points b = [] \<longrightarrow> br_eof b) \<and> materialized_serves c' ys"
    using s by (auto simp: c materialized_pull_def materialized_serves_def Let_def)
qed

section \<open>Captured state of the channel plans\<close>

text \<open>
  The closures of \<open>dense_rank_plan.rs\<close> and \<open>sparse_rank_plan.rs\<close>: a live rank state that
  is advanced under the segment's read lock, or the stored answer of the fallback.
\<close>

datatype 'd captured = Live 'd | Stored "scored_point list \<times> nat"

definition live_pull ::
  "(nat \<Rightarrow> 'd \<Rightarrow> (operation_error + scored_point list) \<times> 'd) \<Rightarrow> nat \<Rightarrow> 'd \<Rightarrow> (operation_error + batch_reply) \<times> 'd" where
  "live_pull advance limit d =
     (case advance limit d of
        (Inl e, d') \<Rightarrow> (Inl e, d')
      | (Inr points, d') \<Rightarrow> (Inr \<lparr>br_points = points, br_eof = (points = [])\<rparr>, d'))"

definition captured_pull ::
  "(nat \<Rightarrow> 'd \<Rightarrow> (operation_error + scored_point list) \<times> 'd) \<Rightarrow> nat \<Rightarrow> 'd captured
     \<Rightarrow> (operation_error + batch_reply) \<times> 'd captured" where
  "captured_pull advance limit c =
     (case c of
        Live d \<Rightarrow> (case live_pull advance limit d of (r, d') \<Rightarrow> (r, Live d'))
      | Stored s \<Rightarrow> (case materialized_pull limit s of (r, s') \<Rightarrow> (r, Stored s')))"

text \<open>The fallback source as a source of a channel plan.\<close>

definition stored_source ::
  "(nat \<Rightarrow> 'd \<Rightarrow> (operation_error + scored_point list) \<times> 'd) \<Rightarrow> (scored_point list \<times> nat) segment_score_source
     \<Rightarrow> 'd captured segment_score_source" where
  "stored_source advance src = on_demand (captured_pull advance) (Stored (ss_captured src)) (ss_mode src)"

text \<open>
  The contract of a segment's rank state: \<open>ranks d xs\<close> says that from state \<open>d\<close> the
  segment's ranking continues with \<open>xs\<close>; each call delivers the next chunk of it.
\<close>

locale rank_advance =
  fixes advance :: "nat \<Rightarrow> 'd \<Rightarrow> (operation_error + scored_point list) \<times> 'd"
    and ranks :: "'d \<Rightarrow> scored_point list \<Rightarrow> bool"
  assumes advance_ranks: "ranks d xs \<Longrightarrow> 0 < n \<Longrightarrow> \<exists>d'. advance n d = (Inr (take n xs), d') \<and> ranks d' (drop n xs)"
begin

definition captured_serves :: "'d captured \<Rightarrow> scored_point list \<Rightarrow> bool" where
  "captured_serves c xs = (case c of Live d \<Rightarrow> ranks d xs | Stored s \<Rightarrow> materialized_serves s xs)"

end

sublocale rank_advance \<subseteq> captured: segment_contract "captured_pull advance" captured_serves
proof
  fix c :: "'d captured" and xs and n :: nat
  assume s: "captured_serves c xs" and n: "0 < n"
  show "\<exists>b c' ys. captured_pull advance n c = (Inr b, c') \<and> xs = br_points b @ ys \<and> (br_eof b \<longrightarrow> ys = []) \<and>
      (br_points b = [] \<longrightarrow> br_eof b) \<and> captured_serves c' ys"
  proof (cases c)
    case (Live d)
    with s have "ranks d xs" by (simp add: captured_serves_def)
    from advance_ranks [OF this n] obtain d' where d': "advance n d = (Inr (take n xs), d')" "ranks d' (drop n xs)" by blast
    have "captured_pull advance n c = (Inr \<lparr>br_points = take n xs, br_eof = (take n xs = [])\<rparr>, Live d')"
      using d'(1) Live by (simp add: captured_pull_def live_pull_def)
    moreover have "captured_serves (Live d') (drop n xs)" using d'(2) by (simp add: captured_serves_def)
    moreover have "take n xs = [] \<longrightarrow> drop n xs = []" using n by simp
    ultimately show ?thesis
      by (intro exI [of _ "\<lparr>br_points = take n xs, br_eof = (take n xs = [])\<rparr>"] exI [of _ "Live d'"] exI [of _ "drop n xs"]) simp
  next
    case (Stored p)
    with s have "materialized_serves p xs" by (simp add: captured_serves_def)
    from materialized.pull_serves [OF this n] obtain b p' ys where b: "materialized_pull n p = (Inr b, p')" "xs = br_points b @ ys"
      "br_eof b \<longrightarrow> ys = []" "br_points b = [] \<longrightarrow> br_eof b" "materialized_serves p' ys" by blast
    then show ?thesis using Stored
      by (intro exI [of _ b] exI [of _ "Stored p'"] exI [of _ ys]) (simp add: captured_pull_def captured_serves_def)
  qed
qed

section \<open>Conflicting copies\<close>

lemma pop_duplicates_conflict:
  assumes "\<forall>k\<in>set (sh_pending st). point_before p (pp_point k)" "is_finite (sp_score p)"
    "\<exists>k\<in>set (sh_pending st). sp_id (pp_point k) = sp_id p \<and> sp_score (pp_point k) = sp_score p \<and>
       sp_version (pp_point k) \<noteq> sp_version p"
  shows "\<exists>v st'. pop_duplicates p C st =
    (Inl (InconsistentStorage (MsgShardConflict (sh_channel st) (sp_id p) (sp_version p) v)), st')"
  using assms
proof (induction p C st rule: pop_duplicates.induct)
  case (1 p C st)
  obtain k where k: "k \<in> set (sh_pending st)" "sp_id (pp_point k) = sp_id p" "sp_score (pp_point k) = sp_score p"
    "sp_version (pp_point k) \<noteq> sp_version p" using 1(4) by blast
  then obtain m rest where pop: "heap_pop pending_point_le (sh_pending st) = Some (m, rest)"
    by (cases "heap_pop pending_point_le (sh_pending st)") auto
  have sets: "set (sh_pending st) = insert m (set rest)" by (rule heap_pop_set [OF pop])
  have "point_before (pp_point m) p"
    using pending_point_le_before [OF pending_point_le.heap_pop_ge [OF pop k(1)]] k(2,3)
    by (simp add: point_before_def)
  moreover have "point_before p (pp_point m)" using 1(2) sets by simp
  ultimately have eq: "sp_id (pp_point m) = sp_id p" "sp_score (pp_point m) = sp_score p"
    by (auto simp: point_before_def ranks_before_def)
  then have same: "sp_id (pp_point m) = sp_id p \<and> f_eq (sp_score (pp_point m)) (sp_score p)"
    using 1(3) by (cases "sp_score p") (auto simp: f_eq_def)
  let ?st = "st\<lparr>sh_pending := rest, sh_telemetry := (sh_telemetry st)
    \<lparr>duplicates_suppressed := duplicates_suppressed (sh_telemetry st) + 1\<rparr>\<rparr>"
  show ?case
  proof (cases "sp_version (pp_point m) = sp_version p")
    case False
    with pop same show ?thesis by (simp add: pop_duplicates.simps)
  next
    case True
    with k sets have "k \<in> set rest" by auto
    then have "\<exists>v st'. pop_duplicates p (C @ [pp_source m]) ?st =
        (Inl (InconsistentStorage (MsgShardConflict (sh_channel ?st) (sp_id p) (sp_version p) v)), st')"
      using 1(2,3) k(2-4) sets by (intro 1(1) [OF pop refl same _]) (auto simp: True)
    moreover have "pop_duplicates p C st = pop_duplicates p (C @ [pp_source m]) ?st"
      using pop same True by (subst pop_duplicates.simps) simp
    ultimately show ?thesis by simp
  qed
qed

lemma shard_next_inner_conflict:
  assumes go: "\<not> sh_stopped st (sh_polls st)" and fin: "\<forall>k\<in>set (sh_pending st). is_finite (sp_score (pp_point k))"
    and pop: "heap_pop pending_point_le (sh_pending st) = Some (m, rest)"
    and k: "k \<in> set rest" "sp_id (pp_point k) = sp_id (pp_point m)" "sp_score (pp_point k) = sp_score (pp_point m)"
      "sp_version (pp_point k) \<noteq> sp_version (pp_point m)"
  shows "\<exists>v st'. shard_next_inner st = (Inl (InconsistentStorage (MsgShardConflict (sh_channel st) (sp_id (pp_point m))
    (sp_version (pp_point m)) v)), st')"
proof -
  let ?st = "st\<lparr>sh_polls := sh_polls st + 1, sh_pending := rest\<rparr>"
  have sets: "set (sh_pending st) = insert m (set rest)" by (rule heap_pop_set [OF pop])
  have "\<exists>v st'. pop_duplicates (pp_point m) [pp_source m] ?st =
      (Inl (InconsistentStorage (MsgShardConflict (sh_channel ?st) (sp_id (pp_point m)) (sp_version (pp_point m)) v)), st')"
    using fin sets k pending_point_le.heap_pop_ge [OF pop]
    by (intro pop_duplicates_conflict) (auto intro: pending_point_le_before)
  with go pop show ?thesis by (auto simp: shard_next_inner_def Let_def)
qed

section \<open>Properties\<close>

lemma fresh_source_ok: "source_ok (on_demand pull c mode)"
  by (simp add: on_demand_def source_ok_def)

text \<open>C21. The shard stream is safe for arbitrary segment sources: whatever a newly opened stream emits before any
  error comes in descending score order with ties by identity, and no identity is emitted twice.\<close>

theorem shard_emits_sorted:
  assumes "merge_open srcs copies batch_size stopped channel = Inr st"
    and "\<forall>src\<in>set srcs. \<exists>pull c mode. src = on_demand pull c mode" and "shard_emits st ps st'"
  shows "sorted_wrt point_before ps \<and> distinct (map sp_id ps)"
proof -
  have "\<forall>src\<in>set srcs. source_ok src" using assms(2) by (metis fresh_source_ok)
  from shard_emits_ok [OF assms(3) merge_open_ok(1) [OF assms(1) this]] show ?thesis by simp
qed

definition demo_points :: "scored_point list list" where
  "demo_points =
     [[\<lparr>sp_id = NumId 7, sp_version = 1, sp_score = Fin 3\<rparr>, \<lparr>sp_id = NumId 2, sp_version = 4, sp_score = Fin 1\<rparr>],
      [\<lparr>sp_id = NumId 2, sp_version = 4, sp_score = Fin 1\<rparr>, \<lparr>sp_id = NumId 9, sp_version = 2, sp_score = Fin 0\<rparr>]]"

definition stored_sources :: "scored_point list list \<Rightarrow> (scored_point list \<times> nat) segment_score_source list" where
  "stored_sources Ls = map (\<lambda>L. on_demand materialized_pull (L, 0) ExhaustiveFallback) Ls"

definition demo_stream :: "operation_error + (scored_point list \<times> nat) exact_shard_merge_state" where
  "demo_stream = merge_open (stored_sources demo_points) 4 2 (\<lambda>_. False) ''Dense''"

lemma demo_order: "shard_order demo_points = [demo_points ! 0 ! 0, demo_points ! 0 ! 1, demo_points ! 1 ! 1]"
  by code_simp

lemma coherent_code [code]:
  "coherent Ls \<longleftrightarrow> (\<forall>L\<in>set Ls. sorted_wrt point_before L \<and> distinct (map sp_id L) \<and> (\<forall>x\<in>set L. is_finite (sp_score x))) \<and>
     list_all (\<lambda>x. list_all (\<lambda>y. sp_id x = sp_id y \<longrightarrow> x = y) (concat Ls)) (concat Ls)"
  by (simp add: coherent_def list_all_iff)

lemma coherent_demo: "coherent demo_points"
  by code_simp

lemma stored_sources_queue:
  assumes "coherent Ls" "\<forall>L\<in>set Ls. length L \<le> usize_max" "0 < batch_size" "\<forall>n. \<not> stopped n"
  obtains st where "merge_open (stored_sources Ls) copies batch_size stopped channel = Inr st"
    "materialized.stream_queue st (shard_order Ls)"
proof -
  have "\<forall>i<length Ls. ss_pull (stored_sources Ls ! i) = materialized_pull \<and> ss_buffer (stored_sources Ls ! i) = [] \<and>
      \<not> ss_eof (stored_sources Ls ! i) \<and> ss_previous (stored_sources Ls ! i) = None \<and>
      materialized_serves (ss_captured (stored_sources Ls ! i)) (Ls ! i)"
    using assms(2) by (simp add: stored_sources_def on_demand_def materialized_serves_def)
  then show thesis
    using materialized.merge_open_refines [OF _ _ assms(1,3,4), of "stored_sources Ls"] that by (auto simp: stored_sources_def)
qed

lemma demo_stream_queue:
  obtains st where "demo_stream = Inr st" "materialized.stream_queue st (shard_order demo_points)"
proof (rule stored_sources_queue [OF coherent_demo, of 2 "\<lambda>_. False" 4 "''Dense''"])
  show "\<forall>L\<in>set demo_points. length L \<le> usize_max" by (simp add: demo_points_def usize_max_def)
qed (use that in \<open>auto simp: demo_stream_def\<close>)

lemma demo_emits:
  obtains st st' st'' where "demo_stream = Inr st" "shard_emits st (shard_order demo_points) st'"
    "shard_next_inner st' = (Inr None, st'')"
proof -
  obtain st where st: "demo_stream = Inr st" "materialized.stream_queue st (shard_order demo_points)"
    by (rule demo_stream_queue)
  from materialized.collect_points_refines [OF st(2), of 4]
  obtain st4 where "collect_points 4 st = (Inr (take 4 (shard_order demo_points)), st4)" by blast
  from collect_points_emits [OF this] obtain st1 where
    "shard_emits st (take 4 (shard_order demo_points)) st1"
    "length (take 4 (shard_order demo_points)) = 4 \<and> st4 = st1 \<or> shard_next_inner st1 = (Inr None, st4)" by blast
  moreover have "take 4 (shard_order demo_points) = shard_order demo_points" "length (shard_order demo_points) = 3"
    by (simp_all add: demo_order)
  ultimately show thesis using that st(1) by (metis nat.inject numeral_eq_iff semiring_norm(89))
qed

lemma demo_sources_fresh: "\<forall>src\<in>set (stored_sources demo_points). \<exists>pull c mode. src = on_demand pull c mode"
  by (auto simp: stored_sources_def)

theorem shard_emits_sorted_witness:
  "\<exists>st st'. demo_stream = Inr st \<and> shard_emits st (shard_order demo_points) st' \<and>
     distinct (map sp_id (shard_order demo_points))"
proof -
  obtain st st' st'' where s: "demo_stream = Inr st" "shard_emits st (shard_order demo_points) st'" by (rule demo_emits)
  from shard_emits_sorted [OF s(1) [unfolded demo_stream_def] demo_sources_fresh s(2)] s show ?thesis by blast
qed



text \<open>C23. Failures of a shard stream are sticky: after \<open>next_batch\<close> has failed with a positive size, every further call
  with a positive size fails with the same error and changes nothing.\<close>

theorem shard_next_batch_error_sticky:
  assumes "shard_next_batch n st = (Inl e, st')" and "0 < n" and "0 < m"
  shows "shard_next_batch m st' = (Inl e, st')"
proof (cases "sh_terminal_error st")
  case (Some e')
  with assms show ?thesis by (auto simp: shard_next_batch_def)
next
  case None
  with assms(1,2) have "collect_points n st = (Inl e, st')" by (simp add: shard_next_batch_def)
  from collect_points_error [OF this] assms(3) show ?thesis by (simp add: shard_next_batch_def)
qed

definition cancelled_stream :: "unit exact_shard_merge_state" where
  "cancelled_stream = initial_state [] 0 1 (\<lambda>n. n = 0) ''Sparse''"

theorem shard_next_batch_error_sticky_witness:
  "\<exists>st'. shard_next_batch 3 cancelled_stream = (Inl (Cancelled (MsgShardCancelled ''Sparse'')), st') \<and>
     shard_next_batch 5 st' = (Inl (Cancelled (MsgShardCancelled ''Sparse'')), st')"
proof -
  have "\<exists>st'. shard_next_batch 3 cancelled_stream = (Inl (Cancelled (MsgShardCancelled ''Sparse'')), st')"
    by (simp add: cancelled_stream_def initial_state_def shard_next_batch_def numeral_3_eq_3 shard_next_inner_def)
  then obtain st' where "shard_next_batch 3 cancelled_stream = (Inl (Cancelled (MsgShardCancelled ''Sparse'')), st')" ..
  from shard_next_batch_error_sticky [OF this, of 5] this show ?thesis by simp
qed



text \<open>C24. Conflicting copies are refused: when the next point of a running stream has a pending copy with the same
  identity and score but another version, the step fails with an inconsistent-storage error naming the point.\<close>

theorem shard_conflict_refused:
  assumes "\<not> sh_stopped st (sh_polls st)" and "\<forall>k\<in>set (sh_pending st). is_finite (sp_score (pp_point k))"
    and "heap_pop pending_point_le (sh_pending st) = Some (m, rest)" and "k \<in> set rest"
    and "sp_id (pp_point k) = sp_id (pp_point m)" and "sp_score (pp_point k) = sp_score (pp_point m)"
    and "sp_version (pp_point k) \<noteq> sp_version (pp_point m)"
  shows "\<exists>v st'. shard_next_inner st = (Inl (InconsistentStorage (MsgShardConflict (sh_channel st) (sp_id (pp_point m))
    (sp_version (pp_point m)) v)), st')"
  using assms by (rule shard_next_inner_conflict)

definition conflict_state :: "unit exact_shard_merge_state" where
  "conflict_state = (initial_state [] 0 1 (\<lambda>_. False) ''Dense'')
     \<lparr>sh_pending := [\<lparr>pp_source = 0, pp_point = \<lparr>sp_id = NumId 1, sp_version = 5, sp_score = Fin 1\<rparr>\<rparr>,
        \<lparr>pp_source = 1, pp_point = \<lparr>sp_id = NumId 1, sp_version = 4, sp_score = Fin 1\<rparr>\<rparr>]\<rparr>"

theorem shard_conflict_refused_witness:
  "\<exists>v st'. shard_next_inner conflict_state =
     (Inl (InconsistentStorage (MsgShardConflict ''Dense'' (NumId 1) 5 v)), st')"
proof -
  let ?m = "\<lparr>pp_source = 0, pp_point = \<lparr>sp_id = NumId 1, sp_version = 5, sp_score = Fin 1\<rparr>\<rparr>"
  let ?k = "\<lparr>pp_source = 1, pp_point = \<lparr>sp_id = NumId 1, sp_version = 4, sp_score = Fin 1\<rparr>\<rparr>"
  have pop: "heap_pop pending_point_le (sh_pending conflict_state) = Some (?m, [?k])" by code_simp
  show ?thesis
    using shard_conflict_refused [OF _ _ pop, of ?k] by (simp add: conflict_state_def initial_state_def)
qed

end
