(* ===== verification/Float_Step.thy ===== *)
theory Float_Step
  imports Float_Model
begin

text \<open>
  Neighbours of a floating-point number (\<open>next_up\<close>, \<open>next_down\<close> of the Rust standard
  library), absolute value and narrowing, with the fact the certificates rest on: the
  upper neighbour of a rounded result bounds the exact value from above, the lower
  neighbour from below.
\<close>

section \<open>Definitions\<close>

text \<open>The least number of the format above \<open>r\<close>, not yet limited by the largest exponent.\<close>

definition up_val :: "float_format \<Rightarrow> rat \<Rightarrow> rat" where
  "up_val fm r =
     (if r = 0 then 2 powi min_exp fm
      else if r < 0 \<and> \<bar>r\<bar> = 2 powi ilog2 \<bar>r\<bar> \<and> min_exp fm < quantum fm r then r + 2 powi (quantum fm r - 1)
      else r + 2 powi quantum fm r)"

definition max_finite :: "float_format \<Rightarrow> rat" where
  "max_finite fm = (2 ^ precision fm - 1) * 2 powi (max_exp fm - int (precision fm))"

definition f_next_up :: "float_format \<Rightarrow> flt \<Rightarrow> flt" where
  "f_next_up fm x =
     (case x of
        Fin r \<Rightarrow> (let u = up_val fm r in if 2 powi max_exp fm \<le> u then PInf else Fin u)
      | NInf \<Rightarrow> Fin (- max_finite fm)
      | _ \<Rightarrow> x)"

definition f_next_down :: "float_format \<Rightarrow> flt \<Rightarrow> flt" where
  "f_next_down fm x = f_neg (f_next_up fm (f_neg x))"

fun f_abs :: "flt \<Rightarrow> flt" where
  "f_abs (Fin a) = Fin \<bar>a\<bar>"
| "f_abs NInf = PInf"
| "f_abs x = x"

text \<open>The cast \<open>value as f32\<close>.\<close>

fun f_cast :: "float_format \<Rightarrow> flt \<Rightarrow> flt" where
  "f_cast fm (Fin a) = round_to fm a"
| "f_cast fm x = x"

section \<open>The neighbour is a number of the format\<close>

lemma on_grid:
  assumes "wf_format fm" "representable fm r" "r \<noteq> 0"
  obtains k where "r = of_int k * 2 powi quantum fm r" "\<bar>k\<bar> < 2 ^ precision fm" "k \<noteq> 0"
proof -
  let ?q = "quantum fm r"
  have r: "r = of_int (rne (r / 2 powi ?q)) * 2 powi ?q"
    using round_val_exact [OF assms(1,2)] assms(3) by (simp add: round_val_def)
  define k where "k = rne (r / 2 powi ?q)"
  have "\<bar>r\<bar> < 2 powi (ilog2 \<bar>r\<bar> + 1)" using assms(3) ilog2_bounds [of "\<bar>r\<bar>"] by simp
  also have "(2::rat) powi (ilog2 \<bar>r\<bar> + 1) \<le> 2 powi (int (precision fm) + ?q)" by (simp add: quantum_def)
  also have "\<dots> = of_int (2 ^ precision fm) * 2 powi ?q" by (simp add: power_int_add)
  finally have "\<bar>of_int k * 2 powi ?q\<bar> < (of_int (2 ^ precision fm) :: rat) * 2 powi ?q"
    using r by (simp add: k_def)
  then have "of_int \<bar>k\<bar> * (2::rat) powi ?q < of_int (2 ^ precision fm) * 2 powi ?q" by (simp add: abs_mult)
  then have "(of_int \<bar>k\<bar> :: rat) < of_int (2 ^ precision fm)" by (simp only: mult_less_cancel_right_pos two_powi_pos)
  then have "\<bar>k\<bar> < 2 ^ precision fm" by (simp only: of_int_less_iff)
  moreover have "k \<noteq> 0" using r assms(3) by (auto simp: k_def)
  ultimately show thesis using that r by (simp add: k_def)
qed

lemma quantum_min: "min_exp fm \<le> quantum fm r"
  by (simp add: quantum_def)

lemma representableI: "x = of_int m * 2 powi q \<Longrightarrow> \<bar>m\<bar> \<le> 2 ^ precision fm \<Longrightarrow> min_exp fm \<le> q \<Longrightarrow> representable fm x"
  by (auto simp: representable_def)

lemma up_val_representable:
  assumes wf: "wf_format fm" and rep: "representable fm r"
  shows "representable fm (up_val fm r)"
proof (cases "r = 0")
  case True
  then show ?thesis by (intro representableI [of _ 1 "min_exp fm"]) (simp_all add: up_val_def)
next
  case False
  let ?q = "quantum fm r"
  obtain k where k: "r = of_int k * 2 powi ?q" "\<bar>k\<bar> < 2 ^ precision fm" "k \<noteq> 0"
    by (rule on_grid [OF wf rep False])
  show ?thesis
  proof (cases "r < 0 \<and> \<bar>r\<bar> = 2 powi ilog2 \<bar>r\<bar> \<and> min_exp fm < ?q")
    case True
    have q: "?q = ilog2 \<bar>r\<bar> - (int (precision fm) - 1)" using True by (auto simp: quantum_def)
    have "ilog2 \<bar>r\<bar> = (?q - 1) + int (precision fm)" using q by simp
    then have "(2::rat) powi ilog2 \<bar>r\<bar> = 2 powi (?q - 1) * 2 ^ precision fm"
      by (simp add: power_int_add)
    moreover have "\<bar>r\<bar> = 2 powi ilog2 \<bar>r\<bar>" using True by blast
    moreover have "\<bar>r\<bar> = - r" using True by simp
    ultimately have "- r = 2 powi (?q - 1) * 2 ^ precision fm" by metis
    then have "r = - (2 ^ precision fm) * 2 powi (?q - 1)" by (simp add: algebra_simps minus_equation_iff)
    then have "up_val fm r = of_int (1 - 2 ^ precision fm) * 2 powi (?q - 1)"
    proof -
      assume r: "r = - (2 ^ precision fm) * 2 powi (?q - 1)"
      have "up_val fm r = r + 2 powi (?q - 1)" unfolding up_val_def if_not_P [OF False] if_P [OF True] ..
      also have "\<dots> = - (2 ^ precision fm) * 2 powi (?q - 1) + 2 powi (?q - 1)" using r by (rule arg_cong)
      finally show ?thesis by (simp add: algebra_simps)
    qed
    then show ?thesis
    proof (rule representableI)
      have "(1::int) \<le> 2 ^ precision fm" by simp
      then show "\<bar>1 - 2 ^ precision fm\<bar> \<le> (2 ^ precision fm :: int)" by linarith
    qed (use True in simp)
  next
    case no: False
    then have "up_val fm r = of_int (k + 1) * 2 powi ?q"
      using False k(1) by (auto simp: up_val_def algebra_simps)
    then show ?thesis by (rule representableI) (use k(2) quantum_min in auto)
  qed
qed

lemma up_val_greater: "r < up_val fm r"
  by (auto simp: up_val_def)

text \<open>The upper neighbour of the rounded value is not below the exact value.\<close>

lemma round_up_bound:
  assumes wf: "wf_format fm"
  shows "x \<le> up_val fm (round_val fm x)"
proof (rule ccontr)
  let ?u = "up_val fm (round_val fm x)"
  assume "\<not> x \<le> ?u"
  then have "round_val fm ?u \<le> round_val fm x" by (intro round_val_mono wf) simp
  moreover have "round_val fm ?u = ?u"
    by (intro round_val_exact wf up_val_representable round_val_representable)
  ultimately show False using up_val_greater [of "round_val fm x" fm] by simp
qed

lemma next_up_ge:
  assumes "wf_format fm" "round_to fm x = Fin r" "f_next_up fm (Fin r) = Fin u"
  shows "x \<le> u"
proof -
  have "r = round_val fm x" "u = up_val fm r"
    using assms(2,3) by (auto simp: round_to_def f_next_up_def Let_def split: if_splits)
  with round_up_bound [OF assms(1)] show ?thesis by simp
qed

lemma round_to_minus: "round_to fm (- x) = f_neg (round_to fm x)"
proof -
  have "(0::rat) < 2 powi max_exp fm" by simp
  then have "\<not> (2 powi max_exp fm \<le> round_val fm x \<and> 2 powi max_exp fm \<le> - round_val fm x)" by linarith
  then show ?thesis by (auto simp: round_to_def round_val_minus Let_def)
qed

lemma next_down_le:
  assumes "wf_format fm" "round_to fm x = Fin r" "f_next_down fm (Fin r) = Fin d"
  shows "d \<le> x"
proof -
  have "f_next_up fm (Fin (- r)) = Fin (- d)"
    using assms(3) by (cases "f_next_up fm (Fin (- r))") (auto simp: f_next_down_def)
  moreover have "round_to fm (- x) = Fin (- r)" using assms(2) by (simp add: round_to_minus)
  ultimately show ?thesis using next_up_ge [OF assms(1)] by fastforce
qed

lemma next_up_greater: "f_next_up fm (Fin r) = Fin u \<Longrightarrow> r < u"
  using up_val_greater [of r fm] by (auto simp: f_next_up_def Let_def split: if_splits)

section \<open>Evaluation\<close>

lemma up_val_code [code]:
  "up_val fm r =
     (if r = 0 then (if 0 \<le> min_exp fm then of_int (ipow2 (min_exp fm)) else 1 / of_int (ipow2 (- min_exp fm)))
      else let q = quantum fm r; l = ilog2 \<bar>r\<bar>;
               p2 = (\<lambda>e. if 0 \<le> e then of_int (ipow2 e) else 1 / of_int (ipow2 (- e)))
           in if r < 0 \<and> \<bar>r\<bar> = p2 l \<and> min_exp fm < q then r + p2 (q - 1) else r + p2 q)"
  unfolding up_val_def Let_def powi_ipow2 ..

end
