(* ===== verification/Dense_Rank.thy ===== *)
theory Dense_Rank
  imports Types Float_Step "HOL-Library.AList"
begin

text \<open>
  The exact dense ranking of one segment, \<open>src/lib/segment/src/index/dense_rank_state/\<close>:
  points are ranked by an exact score; a certificate plan keeps for every point an
  interval around its score and computes the exact score only of the points it must.

  The scorer a caller lends for one call is a function from offsets to scores. Point
  offsets (\<open>u32\<close>) are naturals; the hash map of exact scores is an association list.
  What the plans read of the vector storage and of the quantized vectors is a record;
  the functions in it belong to the storage engine.
\<close>

section \<open>Data\<close>

datatype distance = Cosine | Euclid | Dot | Manhattan

datatype vector_storage_datatype = Float32 | Float16 | Uint8 | Turbo4

datatype dense_physical_plan = ScalarCertificate | PerVectorScalarCertificate | ExactScan

record dense_execution_policy =
  scalar_min_points :: nat
  force_exact_scan :: bool

definition DEFAULT_DENSE_SCALAR_MIN_POINTS :: nat where
  "DEFAULT_DENSE_SCALAR_MIN_POINTS = 4096"

definition default_dense_policy :: dense_execution_policy where
  "default_dense_policy = \<lparr>scalar_min_points = DEFAULT_DENSE_SCALAR_MIN_POINTS, force_exact_scan = False\<rparr>"

record dense_execution_telemetry =
  dt_plan :: "dense_physical_plan option"
  eligible_points :: nat
  accepted_prefix_points :: nat
  quantized_scores :: nat
  exact_scores_count :: nat
  dt_points_emitted :: nat

definition default_telemetry :: dense_execution_telemetry where
  "default_telemetry = \<lparr>dt_plan = None, eligible_points = 0, accepted_prefix_points = 0, quantized_scores = 0,
     exact_scores_count = 0, dt_points_emitted = 0\<rparr>"

record scored_point_offset =
  so_idx :: nat
  so_score :: flt

record pending_bound =
  pb_id :: nat
  pb_lower :: flt
  pb_value :: flt

definition pending_bound_cmp :: "pending_bound \<Rightarrow> pending_bound \<Rightarrow> ordering" where
  "pending_bound_cmp a b = then_with (cmp (pb_value a) (pb_value b)) (cmp (pb_id b) (pb_id a))"

definition pending_bound_le :: "pending_bound \<Rightarrow> pending_bound \<Rightarrow> bool" where
  "pending_bound_le a b = is_le (pending_bound_cmp a b)"

definition pending_exact_cmp :: "scored_point_offset \<Rightarrow> scored_point_offset \<Rightarrow> ordering" where
  "pending_exact_cmp a b = then_with (cmp (so_score a) (so_score b)) (cmp (so_idx b) (so_idx a))"

definition pending_exact_le :: "scored_point_offset \<Rightarrow> scored_point_offset \<Rightarrow> bool" where
  "pending_exact_le a b = is_le (pending_exact_cmp a b)"

record certificate_state =
  exact_refine_batch :: nat
  cs_bounds :: "pending_bound list"
  cs_exact :: "scored_point_offset list"
  cs_exact_scores :: "(nat \<times> flt) list"

record exact_scan_state =
  scan_points :: "scored_point_offset list option"
  scan_next :: nat

datatype dense_rank_state_inner = Certificate certificate_state | Scan exact_scan_state

datatype eligible_universe = Explicit "nat list" | Contiguous nat

record dense_rank_state =
  dr_inner :: dense_rank_state_inner
  dr_eligible :: eligible_universe
  dr_telemetry :: dense_execution_telemetry

record scalar_reconstruction_stats =
  original_norm :: flt
  reconstructed_norm :: flt
  residual_norm :: flt

record vector_storage =
  vs_distance :: distance
  vs_datatype :: vector_storage_datatype
  preprocess_vector :: "flt list \<Rightarrow> flt list"

record quantized_vectors =
  qv_distance :: distance
  qv_datatype :: vector_storage_datatype
  scalar_reconstruction_table :: "scalar_reconstruction_stats list option"
  scalar_query_reconstruction_stats :: "flt list \<Rightarrow> scalar_reconstruction_stats option"
  raw_scorer :: "flt list \<Rightarrow> operation_error + (nat list \<Rightarrow> flt list)"
  per_vector_scalar :: "(nat list \<Rightarrow> flt list \<Rightarrow> nat \<Rightarrow> operation_error + dense_rank_state) option"

section \<open>Construction\<close>

text \<open>\<open>xs.windows(2).any(|pair| pair[0] == pair[1])\<close>.\<close>

fun adjacent_equal :: "nat list \<Rightarrow> bool" where
  "adjacent_equal (x # y # xs) = (x = y \<or> adjacent_equal (y # xs))"
| "adjacent_equal _ = False"

definition bound_valid :: "nat \<times> flt \<times> flt \<Rightarrow> bool" where
  "bound_valid b = (case b of (_, lower, upper) \<Rightarrow> is_finite lower \<and> is_finite upper \<and> \<not> f_lt upper lower)"

definition certificate_rank_state ::
  "nat \<Rightarrow> pending_bound list \<Rightarrow> eligible_universe \<Rightarrow> nat \<Rightarrow> dense_physical_plan \<Rightarrow> nat \<Rightarrow> dense_rank_state" where
  "certificate_rank_state refine bounds universe point_count plan quantized =
     \<lparr>dr_inner = Certificate \<lparr>exact_refine_batch = refine, cs_bounds = bounds, cs_exact = [], cs_exact_scores = []\<rparr>,
      dr_eligible = universe,
      dr_telemetry = default_telemetry\<lparr>dt_plan := Some plan, eligible_points := point_count, quantized_scores := quantized\<rparr>\<rparr>"

definition from_certificate_bounds_batched ::
  "nat list \<Rightarrow> (nat \<times> flt \<times> flt) list \<Rightarrow> nat \<Rightarrow> dense_physical_plan \<Rightarrow> nat \<Rightarrow> operation_error + dense_rank_state" where
  "from_certificate_bounds_batched eligible bounds refine plan quantized =
     (if refine = 0 then Inl (ValidationError (Text ''exact Dense exact-refine batch must be positive''))
      else if adjacent_equal (sort eligible)
      then Inl (InconsistentStorage (Text ''exact Dense session received duplicate eligible point offsets''))
      else if sort (map fst bounds) \<noteq> sort eligible \<or> \<not> list_all bound_valid bounds
      then Inl (InconsistentStorage (Text ''exact Dense session bounds do not match its eligible universe''))
      else Inr (certificate_rank_state refine
             (map (\<lambda>(point, lower, upper). \<lparr>pb_id = point, pb_lower = lower, pb_value = upper\<rparr>) bounds)
             (Explicit (sort eligible)) (length eligible) plan quantized))"

definition u32_max :: nat where
  "u32_max = 2 ^ 32 - 1"

definition from_contiguous_pending_batched ::
  "nat \<Rightarrow> pending_bound list \<Rightarrow> nat \<Rightarrow> dense_physical_plan \<Rightarrow> nat \<Rightarrow> operation_error + dense_rank_state" where
  "from_contiguous_pending_batched point_count bounds refine plan quantized =
     (if refine = 0 then Inl (ValidationError (Text ''exact Dense exact-refine batch must be positive''))
      else if u32_max + 1 < point_count
      then Inl (InconsistentStorage (Text ''contiguous exact Dense universe exceeds PointOffsetType''))
      else if length bounds \<noteq> point_count \<or>
              list_ex (\<lambda>(ordinal, b). pb_id b \<noteq> ordinal \<or> \<not> bound_valid (pb_id b, pb_lower b, pb_value b))
                (zip [0..<length bounds] bounds)
      then Inl (InconsistentStorage (Text ''exact Dense Pending bounds do not match the contiguous eligible universe''))
      else Inr (certificate_rank_state refine bounds (Contiguous point_count) point_count plan quantized))"

definition build_exact_scan_state :: "nat list \<Rightarrow> operation_error + dense_rank_state" where
  "build_exact_scan_state eligible =
     Inr \<lparr>dr_inner = Scan \<lparr>scan_points = None, scan_next = 0\<rparr>, dr_eligible = Explicit eligible,
          dr_telemetry = default_telemetry\<lparr>dt_plan := Some ExactScan, eligible_points := length eligible\<rparr>\<rparr>"

section \<open>Plan selection\<close>

definition supported_distance :: "distance \<Rightarrow> bool" where
  "supported_distance d \<longleftrightarrow> d = Dot \<or> d = Cosine"

definition select_dense_plan ::
  "vector_storage \<Rightarrow> quantized_vectors option \<Rightarrow> nat list \<Rightarrow> dense_execution_policy \<Rightarrow> dense_physical_plan" where
  "select_dense_plan storage quantized eligible policy =
     (let base = \<not> force_exact_scan policy \<and> scalar_min_points policy \<le> length eligible \<and>
            supported_distance (vs_distance storage)
      in if base \<and> vs_datatype storage = Float32 \<and>
            (case quantized of None \<Rightarrow> False | Some q \<Rightarrow> per_vector_scalar q \<noteq> None)
         then PerVectorScalarCertificate
         else if base \<and>
            (case quantized of None \<Rightarrow> False
             | Some q \<Rightarrow> supported_distance (qv_distance q) \<and> qv_datatype q = Float32 \<and>
                 (case scalar_reconstruction_table q of None \<Rightarrow> False
                  | Some table \<Rightarrow> list_all (\<lambda>point. point < length table) eligible))
         then ScalarCertificate
         else ExactScan)"

section \<open>The scalar certificate\<close>

definition f32_epsilon :: flt where
  "f32_epsilon = Fin (1 / 2 ^ 23)"

definition floating_guard :: "flt \<Rightarrow> nat \<Rightarrow> flt" where
  "floating_guard scale dimension =
     (let gamma = f_mul F64 f32_epsilon (f_add F64 (f_mul F64 (Fin 8) (f_of_nat F64 dimension)) (Fin 64))
      in if f_lt gamma (Fin 1) then f_div F64 (f_mul F64 scale gamma) (f_sub F64 (Fin 1) gamma) else PInf)"

definition check_stopped :: "(nat \<Rightarrow> bool) \<Rightarrow> nat \<Rightarrow> operation_error + unit" where
  "check_stopped stopped poll =
     (if stopped poll then Inl (Cancelled (Text ''Operation is stopped externally'')) else Inr ())"

definition DENSE_SCORE_CHUNK_SIZE :: nat where
  "DENSE_SCORE_CHUNK_SIZE = 4096"

text \<open>The slice a scorer writes is a vector of zeroes as long as the offsets.\<close>

definition fill_scores :: "(nat list \<Rightarrow> flt list) \<Rightarrow> nat list \<Rightarrow> flt list" where
  "fill_scores scorer ids =
     map (\<lambda>i. if i < length (scorer ids) then scorer ids ! i else Fin 0) [0..<length ids]"

function score_chunks ::
  "nat \<Rightarrow> (nat \<Rightarrow> bool) \<Rightarrow> nat \<Rightarrow> (nat list \<Rightarrow> flt list) \<Rightarrow> nat list \<Rightarrow> operation_error + flt list" where
  "score_chunks chunk_size stopped poll scorer points =
     (if points = [] \<or> chunk_size = 0 then Inr []
      else rbind (check_stopped stopped poll) (\<lambda>_.
        rbind (score_chunks chunk_size stopped (poll + 1) scorer (drop chunk_size points)) (\<lambda>rest.
          Inr (fill_scores scorer (take chunk_size points) @ rest))))"
  by pat_completeness auto
termination
  by (relation "measure (\<lambda>(_, _, _, _, points). length points)") auto

declare score_chunks.simps [simp del]

definition scalar_bound ::
  "scalar_reconstruction_stats \<Rightarrow> scalar_reconstruction_stats \<Rightarrow> nat \<Rightarrow> flt \<Rightarrow> flt \<times> flt" where
  "scalar_bound query document dimension approximate =
     (let error = f_add F64 (f_mul F64 (residual_norm query) (original_norm document))
                            (f_mul F64 (reconstructed_norm query) (residual_norm document));
          guard = floating_guard (f_add F64 (f_add F64 (f_abs approximate) error)
                    (f_mul F64 (original_norm query) (original_norm document))) dimension
      in (f_next_down F64 (f_sub F64 (f_sub F64 approximate error) guard),
          f_next_up F64 (f_add F64 (f_add F64 approximate error) guard)))"

definition build_scalar_certificate_state ::
  "vector_storage \<Rightarrow> quantized_vectors \<Rightarrow> nat list \<Rightarrow> flt list \<Rightarrow> (nat \<Rightarrow> bool) \<Rightarrow> nat \<Rightarrow> nat
     \<Rightarrow> operation_error + dense_rank_state" where
  "build_scalar_certificate_state storage quantized eligible query stopped poll refine =
     (case scalar_reconstruction_table quantized of
        None \<Rightarrow> Inl (Panicked (Text ''Scalar plan availability checked''))
      | Some table \<Rightarrow>
          (case scalar_query_reconstruction_stats quantized (preprocess_vector storage query) of
             None \<Rightarrow> Inl (InconsistentStorage
               (Text ''Scalar quantization did not expose Query reconstruction statistics''))
           | Some query_stats \<Rightarrow>
               rbind (raw_scorer quantized query) (\<lambda>scorer.
               rbind (score_chunks DENSE_SCORE_CHUNK_SIZE stopped poll scorer eligible) (\<lambda>approximate.
                 if list_all (\<lambda>point. point < length table) eligible
                 then from_certificate_bounds_batched eligible
                        (map (\<lambda>(point, approx). (point, scalar_bound query_stats (table ! point) (length query) approx))
                          (zip eligible approximate))
                        refine ScalarCertificate (length eligible)
                 else Inl (Panicked MsgIndexOutOfBounds)))))"

definition PRODUCTION_PVS_EXACT_REFINE_BATCH :: nat where
  "PRODUCTION_PVS_EXACT_REFINE_BATCH = 16"

definition build_per_vector_scalar_certificate_state ::
  "quantized_vectors \<Rightarrow> nat list \<Rightarrow> flt list \<Rightarrow> nat \<Rightarrow> operation_error + dense_rank_state" where
  "build_per_vector_scalar_certificate_state quantized eligible query refine =
     (case per_vector_scalar quantized of
        None \<Rightarrow> Inl (InconsistentStorage (Text ''PerVectorScalar plan was selected without a persisted index''))
      | Some rank_state \<Rightarrow> rank_state eligible query (max refine PRODUCTION_PVS_EXACT_REFINE_BATCH))"

definition dense_rank_state_new ::
  "vector_storage \<Rightarrow> quantized_vectors option \<Rightarrow> nat list \<Rightarrow> flt list \<Rightarrow> dense_execution_policy \<Rightarrow> (nat \<Rightarrow> bool)
     \<Rightarrow> operation_error + dense_rank_state" where
  "dense_rank_state_new storage quantized eligible query policy stopped =
     rbind (check_stopped stopped 0) (\<lambda>_.
       if query = [] \<or> \<not> list_all is_finite query
       then Inl (ValidationError (Text ''exact Dense stream requires a non-empty finite Query''))
       else let sorted = sort eligible
            in if adjacent_equal sorted
               then Inl (InconsistentStorage (Text ''exact Dense stream received duplicate eligible point offsets''))
               else case select_dense_plan storage quantized sorted policy of
                 ScalarCertificate \<Rightarrow>
                   (case quantized of
                      None \<Rightarrow> Inl (Panicked (Text ''Scalar plan requires quantized vectors''))
                    | Some q \<Rightarrow> build_scalar_certificate_state storage q sorted query stopped 1 1)
               | PerVectorScalarCertificate \<Rightarrow>
                   (case quantized of
                      None \<Rightarrow> Inl (Panicked (Text ''PerVectorScalar plan requires quantized vectors''))
                    | Some q \<Rightarrow> build_per_vector_scalar_certificate_state q sorted query 1)
               | ExactScan \<Rightarrow> build_exact_scan_state sorted)"

section \<open>Advancing\<close>

fun insert_scores ::
  "(nat \<times> flt) list \<Rightarrow> certificate_state \<Rightarrow> dense_execution_telemetry
     \<Rightarrow> (operation_error + unit) \<times> certificate_state \<times> dense_execution_telemetry" where
  "insert_scores [] cs tel = (Inr (), cs, tel)"
| "insert_scores ((point, score) # rest) cs tel =
     (if \<not> is_finite score then (Inl (InconsistentStorage (MsgDenseNonFinitePoint point)), cs, tel)
      else insert_scores rest (cs\<lparr>cs_exact_scores := AList.update point score (cs_exact_scores cs)\<rparr>)
             (tel\<lparr>exact_scores_count := exact_scores_count tel + 1\<rparr>))"

fun push_exact ::
  "pending_bound list \<Rightarrow> certificate_state \<Rightarrow> (operation_error + unit) \<times> certificate_state" where
  "push_exact [] cs = (Inr (), cs)"
| "push_exact (b # bs) cs =
     (case map_of (cs_exact_scores cs) (pb_id b) of
        None \<Rightarrow> (Inl (Panicked MsgIndexOutOfBounds), cs)
      | Some score \<Rightarrow>
          if f_lt score (pb_lower b) \<or> f_lt (pb_value b) score
          then (Inl (InconsistentStorage (MsgDenseCertificate (pb_id b) score (pb_lower b) (pb_value b))), cs)
          else push_exact bs (cs\<lparr>cs_exact := heap_push \<lparr>so_idx = pb_id b, so_score = score\<rparr> (cs_exact cs)\<rparr>))"

definition refine_bounds_with ::
  "(nat list \<Rightarrow> flt list) \<Rightarrow> pending_bound list \<Rightarrow> certificate_state \<Rightarrow> dense_execution_telemetry
     \<Rightarrow> (operation_error + unit) \<times> certificate_state \<times> dense_execution_telemetry" where
  "refine_bounds_with scorer bounds cs tel =
     (let unresolved = filter (\<lambda>point. map_of (cs_exact_scores cs) point = None) (map pb_id bounds)
      in case (if unresolved = [] then (Inr (), cs, tel)
               else insert_scores (zip unresolved (fill_scores scorer unresolved)) cs tel) of
           (Inl e, cs', tel') \<Rightarrow> (Inl e, cs', tel')
         | (Inr _, cs', tel') \<Rightarrow> (case push_exact bounds cs' of (r, cs'') \<Rightarrow> (r, cs'', tel')))"

text \<open>Up to \<open>n\<close> further bounds from the heap.\<close>

fun pop_bounds :: "nat \<Rightarrow> pending_bound list \<Rightarrow> pending_bound list \<times> pending_bound list" where
  "pop_bounds 0 h = ([], h)"
| "pop_bounds (Suc n) h =
     (case heap_pop pending_bound_le h of
        None \<Rightarrow> ([], h)
      | Some (b, h') \<Rightarrow> (case pop_bounds n h' of (bs, h'') \<Rightarrow> (b # bs, h'')))"

definition exact_is_fixed :: "certificate_state \<Rightarrow> bool" where
  "exact_is_fixed cs =
     (case select_max pending_exact_le (cs_exact cs) of
        None \<Rightarrow> False
      | Some exact \<Rightarrow>
          (case select_max pending_bound_le (cs_bounds cs) of
             None \<Rightarrow> True
           | Some bound \<Rightarrow> f_lt (pb_value bound) (so_score exact) \<or>
               f_eq (so_score exact) (pb_value bound) \<and> so_idx exact < pb_id bound))"

definition pop_exact :: "certificate_state \<Rightarrow> scored_point_offset option \<times> certificate_state" where
  "pop_exact cs =
     (case heap_pop pending_exact_le (cs_exact cs) of
        None \<Rightarrow> (None, cs)
      | Some (p, rest) \<Rightarrow> (Some p, cs\<lparr>cs_exact := rest\<rparr>))"

lemma pop_bounds_length: "pop_bounds n h = (bs, h') \<Longrightarrow> length h' \<le> length h"
proof (induction n arbitrary: h bs)
  case (Suc n)
  then show ?case by (auto split: option.splits prod.splits dest!: heap_pop_length) (metis le_SucI)
qed simp

lemma insert_scores_bounds: "insert_scores xs cs tel = (r, cs', tel') \<Longrightarrow> cs_bounds cs' = cs_bounds cs"
  by (induction xs arbitrary: cs tel) (auto split: if_splits)

lemma push_exact_bounds: "push_exact bs cs = (r, cs') \<Longrightarrow> cs_bounds cs' = cs_bounds cs"
  by (induction bs arbitrary: cs) (auto split: option.splits if_splits)

lemma refine_bounds_with_bounds:
  "refine_bounds_with scorer bs cs tel = (r, cs', tel') \<Longrightarrow> cs_bounds cs' = cs_bounds cs"
  by (auto simp: refine_bounds_with_def Let_def split: if_splits prod.splits sum.splits
      dest!: insert_scores_bounds push_exact_bounds)

text \<open>The loop that settles the next rank of a certificate state.\<close>

function certificate_next ::
  "(nat list \<Rightarrow> flt list) \<Rightarrow> certificate_state \<Rightarrow> dense_execution_telemetry
     \<Rightarrow> (operation_error + scored_point_offset option) \<times> certificate_state \<times> dense_execution_telemetry" where
  "certificate_next scorer cs tel =
     (if exact_is_fixed cs then (case pop_exact cs of (p, cs') \<Rightarrow> (Inr p, cs', tel))
      else case heap_pop pending_bound_le (cs_bounds cs) of
        None \<Rightarrow> (case pop_exact cs of (p, cs') \<Rightarrow> (Inr p, cs', tel))
      | Some (bound, rest) \<Rightarrow>
          (case pop_bounds (exact_refine_batch cs - 1) rest of
             (further, rest') \<Rightarrow>
               (case refine_bounds_with scorer (bound # further) (cs\<lparr>cs_bounds := rest'\<rparr>) tel of
                  (Inl e, cs', tel') \<Rightarrow> (Inl e, cs', tel')
                | (Inr _, cs', tel') \<Rightarrow> certificate_next scorer cs' tel')))"
  by pat_completeness auto
termination
  by (relation "measure (\<lambda>(_, cs, _). length (cs_bounds cs))")
    (auto dest!: heap_pop_length refine_bounds_with_bounds [OF sym], metis le_imp_less_Suc pop_bounds_length)

declare certificate_next.simps [simp del]

definition eligible_ids :: "eligible_universe \<Rightarrow> nat list" where
  "eligible_ids universe = (case universe of Explicit ids \<Rightarrow> ids | Contiguous point_count \<Rightarrow> [0..<point_count])"

definition exact_order_le :: "scored_point_offset \<Rightarrow> scored_point_offset \<Rightarrow> bool" where
  "exact_order_le left right =
     is_le (then_with (cmp (so_score right) (so_score left)) (cmp (so_idx left) (so_idx right)))"

text \<open>Scoring and sorting everything at the first call of a scan.\<close>

definition scan_initialize ::
  "(nat list \<Rightarrow> flt list) \<Rightarrow> dense_rank_state \<Rightarrow> operation_error + dense_rank_state" where
  "scan_initialize scorer st =
     (case dr_inner st of
        Certificate _ \<Rightarrow> Inr st
      | Scan scan \<Rightarrow>
          if scan_points scan \<noteq> None then Inr st
          else let ids = eligible_ids (dr_eligible st); scores = fill_scores scorer ids
               in if list_ex (\<lambda>score. \<not> is_finite score) scores
                  then Inl (InconsistentStorage (Text ''exact Dense scorer returned a non-finite score''))
                  else let ranked = sort_by exact_order_le
                             (map (\<lambda>(point, score). \<lparr>so_idx = point, so_score = score\<rparr>) (zip ids scores))
                       in Inr (st\<lparr>dr_inner := Scan (scan\<lparr>scan_points := Some ranked\<rparr>),
                              dr_telemetry := (dr_telemetry st)\<lparr>exact_scores_count := length ranked\<rparr>\<rparr>))"

definition next_ranked ::
  "(nat list \<Rightarrow> flt list) \<Rightarrow> dense_rank_state
     \<Rightarrow> (operation_error + scored_point_offset option) \<times> dense_rank_state" where
  "next_ranked scorer st =
     (case dr_inner st of
        Scan scan \<Rightarrow>
          (case scan_points scan of
             None \<Rightarrow> (Inl (Panicked (Text ''exact scan initialized'')), st)
           | Some points \<Rightarrow>
               if scan_next scan < length points
               then (Inr (Some (points ! scan_next scan)), st\<lparr>dr_inner := Scan (scan\<lparr>scan_next := scan_next scan + 1\<rparr>)\<rparr>)
               else (Inr None, st))
      | Certificate cs \<Rightarrow>
          (case certificate_next scorer cs (dr_telemetry st) of
             (r, cs', tel) \<Rightarrow> (r, st\<lparr>dr_inner := Certificate cs', dr_telemetry := tel\<rparr>)))"

fun collect_ranked ::
  "(nat list \<Rightarrow> flt list) \<Rightarrow> nat \<Rightarrow> dense_rank_state
     \<Rightarrow> (operation_error + scored_point_offset list) \<times> dense_rank_state" where
  "collect_ranked scorer 0 st = (Inr [], st)"
| "collect_ranked scorer (Suc n) st =
     (case next_ranked scorer st of
        (Inl e, st') \<Rightarrow> (Inl e, st')
      | (Inr None, st') \<Rightarrow> (Inr [], st')
      | (Inr (Some p), st') \<Rightarrow>
          (case collect_ranked scorer n
                  (st'\<lparr>dr_telemetry := (dr_telemetry st')\<lparr>dt_points_emitted := dt_points_emitted (dr_telemetry st') + 1\<rparr>\<rparr>) of
             (Inl e, st'') \<Rightarrow> (Inl e, st'')
           | (Inr ps, st'') \<Rightarrow> (Inr (p # ps), st'')))"

definition next_batch_with ::
  "(nat list \<Rightarrow> flt list) \<Rightarrow> nat \<Rightarrow> dense_rank_state
     \<Rightarrow> (operation_error + scored_point_offset list) \<times> dense_rank_state" where
  "next_batch_with scorer max_results st =
     (if max_results = 0 then (Inl (ValidationError (Text ''exact Dense rank batch must be positive'')), st)
      else case scan_initialize scorer st of
        Inl e \<Rightarrow> (Inl e, st)
      | Inr st' \<Rightarrow> collect_ranked scorer max_results st')"

definition eligible_len :: "dense_rank_state \<Rightarrow> nat" where
  "eligible_len st = (case dr_eligible st of Explicit points \<Rightarrow> length points | Contiguous point_count \<Rightarrow> point_count)"

section \<open>The ranking the state promises\<close>

definition scored :: "(nat \<Rightarrow> flt) \<Rightarrow> nat \<Rightarrow> scored_point_offset" where
  "scored f point = \<lparr>so_idx = point, so_score = f point\<rparr>"

definition dense_order :: "(nat \<Rightarrow> flt) \<Rightarrow> nat list \<Rightarrow> scored_point_offset list" where
  "dense_order f ids = sort_by exact_order_le (map (scored f) ids)"

lemma exact_order_le_iff [rank_simps]:
  "exact_order_le p q \<longleftrightarrow> so_score q < so_score p \<or> so_score p = so_score q \<and> so_idx p \<le> so_idx q"
  by (auto simp: exact_order_le_def rank_simps)

interpretation exact_order_le: linear_rank exact_order_le
proof
  fix a b :: scored_point_offset
  assume "exact_order_le a b" "exact_order_le b a"
  then have "so_score a = so_score b \<and> so_idx a = so_idx b" by (auto simp: rank_simps)
  then show "a = b" by (cases a; cases b) simp
qed (auto simp: rank_simps)

lemma pending_exact_le_iff: "pending_exact_le a b \<longleftrightarrow> exact_order_le b a"
  by (auto simp: pending_exact_le_def pending_exact_cmp_def rank_simps)

interpretation pending_exact_le: linear_rank pending_exact_le
  by unfold_locales (auto simp: pending_exact_le_iff intro: exact_order_le.rank_trans exact_order_le.rank_antisym
      exact_order_le.rank_total [THEN disjE])

lemma pending_bound_le_iff [rank_simps]:
  "pending_bound_le a b \<longleftrightarrow> pb_value a < pb_value b \<or> pb_value a = pb_value b \<and> pb_id b \<le> pb_id a"
  by (auto simp: pending_bound_le_def pending_bound_cmp_def rank_simps)

interpretation pending_bound_le: total_rank pending_bound_le
  by unfold_locales (auto simp: pending_bound_le_iff)

lemma so_idx_scored [simp]: "so_idx (scored f i) = i" and so_score_scored [simp]: "so_score (scored f i) = f i"
  by (simp_all add: scored_def)

lemma adjacent_equal_sorted: "sorted xs \<Longrightarrow> adjacent_equal xs \<longleftrightarrow> \<not> distinct xs"
proof (induction xs rule: adjacent_equal.induct)
  case (1 x y xs)
  then have IH: "adjacent_equal (y # xs) \<longleftrightarrow> \<not> distinct (y # xs)" by simp
  show ?case
  proof (cases "x = y")
    case False
    with 1(2) have "x \<notin> set (y # xs)" by fastforce
    with IH False show ?thesis by simp
  qed simp
qed simp_all

lemma adjacent_equal_sort [simp]: "adjacent_equal (sort xs) \<longleftrightarrow> \<not> distinct xs"
  by (simp add: adjacent_equal_sorted)

section \<open>Advancing with an exact scorer\<close>

text \<open>
  The interface of the scorer lent to the state: the score of a point depends on the
  point alone.
\<close>

locale exact_scorer =
  fixes scorer :: "nat list \<Rightarrow> flt list" and f :: "nat \<Rightarrow> flt"
  assumes scorer_pointwise: "scorer ids = map f ids"
begin

lemma fill_scores_map: "fill_scores scorer ids = map f ids"
  by (rule nth_equalityI) (simp_all add: fill_scores_def scorer_pointwise)

text \<open>
  \<open>certificate_holds cs tel q\<close>: the ranking continues with \<open>q\<close>; every point still bounded
  has its score inside its interval and has not been scored yet.
\<close>

definition bound_ok :: "pending_bound \<Rightarrow> bool" where
  "bound_ok b \<longleftrightarrow> is_finite (f (pb_id b)) \<and> pb_lower b \<le> f (pb_id b) \<and> f (pb_id b) \<le> pb_value b \<and>
     pb_value b \<noteq> NaN \<and> pb_lower b \<noteq> NaN"

definition certificate_holds :: "certificate_state \<Rightarrow> dense_execution_telemetry \<Rightarrow> scored_point_offset list \<Rightarrow> bool" where
  "certificate_holds cs tel q \<longleftrightarrow>
     sorted_wrt exact_order_le q \<and> mset q = mset (map (\<lambda>b. scored f (pb_id b)) (cs_bounds cs)) + mset (cs_exact cs) \<and>
     (\<forall>b\<in>set (cs_bounds cs). bound_ok b) \<and> distinct (map pb_id (cs_bounds cs)) \<and>
     (\<forall>p\<in>set (cs_exact cs). is_finite (so_score p)) \<and>
     fst ` set (cs_exact_scores cs) \<inter> pb_id ` set (cs_bounds cs) = {} \<and>
     exact_scores_count tel + length (cs_bounds cs) = eligible_points tel"

lemma insert_scores_ok:
  assumes "\<forall>i\<in>set ids. is_finite (f i)"
  shows "\<exists>cache. insert_scores (zip ids (map f ids)) cs tel =
      (Inr (), cs\<lparr>cs_exact_scores := cache\<rparr>, tel\<lparr>exact_scores_count := exact_scores_count tel + length ids\<rparr>) \<and>
    fst ` set cache = set ids \<union> fst ` set (cs_exact_scores cs) \<and>
    map_of cache = (\<lambda>i. if i \<in> set ids then Some (f i) else map_of (cs_exact_scores cs) i)"
  using assms
proof (induction ids arbitrary: cs tel)
  case Nil
  then show ?case by (intro exI [of _ "cs_exact_scores cs"]) simp
next
  case (Cons i ids)
  let ?cs = "cs\<lparr>cs_exact_scores := AList.update i (f i) (cs_exact_scores cs)\<rparr>"
  let ?tel = "tel\<lparr>exact_scores_count := exact_scores_count tel + 1\<rparr>"
  from Cons.prems have "\<forall>i\<in>set ids. is_finite (f i)" by simp
  from Cons.IH [OF this, of ?cs ?tel] obtain cache where c:
    "insert_scores (zip ids (map f ids)) ?cs ?tel =
      (Inr (), ?cs\<lparr>cs_exact_scores := cache\<rparr>, ?tel\<lparr>exact_scores_count := exact_scores_count ?tel + length ids\<rparr>)"
    "fst ` set cache = set ids \<union> fst ` set (cs_exact_scores ?cs)"
    "map_of cache = (\<lambda>i. if i \<in> set ids then Some (f i) else map_of (cs_exact_scores ?cs) i)" by blast
  have "map_of cache = (\<lambda>j. if j \<in> set (i # ids) then Some (f j) else map_of (cs_exact_scores cs) j)"
    using c(3) by (auto simp: update_conv')
  moreover have "fst ` set cache = set (i # ids) \<union> fst ` set (cs_exact_scores cs)"
    using c(2) dom_update [of i "f i" "cs_exact_scores cs"] by auto
  ultimately show ?case using c(1) Cons.prems by (intro exI [of _ cache]) simp
qed

lemma push_exact_ok:
  assumes "\<forall>b\<in>set bs. map_of (cs_exact_scores cs) (pb_id b) = Some (f (pb_id b)) \<and> bound_ok b"
  shows "\<exists>ex. push_exact bs cs = (Inr (), cs\<lparr>cs_exact := ex\<rparr>) \<and> mset ex = mset (map (\<lambda>b. scored f (pb_id b)) bs) + mset (cs_exact cs)"
  using assms
proof (induction bs arbitrary: cs)
  case Nil
  then show ?case by (intro exI [of _ "cs_exact cs"]) simp
next
  case (Cons b bs)
  let ?cs = "cs\<lparr>cs_exact := heap_push (scored f (pb_id b)) (cs_exact cs)\<rparr>"
  have "\<exists>ex. push_exact bs ?cs = (Inr (), ?cs\<lparr>cs_exact := ex\<rparr>) \<and> mset ex = mset (map (\<lambda>b. scored f (pb_id b)) bs) + mset (cs_exact ?cs)"
    using Cons.prems by (intro Cons.IH) simp
  then obtain ex where ex: "push_exact bs ?cs = (Inr (), ?cs\<lparr>cs_exact := ex\<rparr>)"
    "mset ex = mset (map (\<lambda>b. scored f (pb_id b)) bs) + mset (cs_exact ?cs)" by blast
  have "\<not> (f_lt (f (pb_id b)) (pb_lower b) \<or> f_lt (pb_value b) (f (pb_id b)))"
    using Cons.prems by (auto simp: bound_ok_def f_lt_def)
  with Cons.prems have "push_exact (b # bs) cs = push_exact bs ?cs" by (simp add: scored_def)
  with ex show ?case by (intro exI [of _ ex]) simp
qed

lemma refine_bounds_with_ok:
  assumes bs: "\<forall>b\<in>set bs. bound_ok b" "distinct (map pb_id bs)" "fst ` set (cs_exact_scores cs) \<inter> pb_id ` set bs = {}"
  obtains cache ex where "refine_bounds_with scorer bs cs tel =
      (Inr (), cs\<lparr>cs_exact_scores := cache, cs_exact := ex\<rparr>, tel\<lparr>exact_scores_count := exact_scores_count tel + length bs\<rparr>)"
    "mset ex = mset (map (\<lambda>b. scored f (pb_id b)) bs) + mset (cs_exact cs)"
    "fst ` set cache = pb_id ` set bs \<union> fst ` set (cs_exact_scores cs)"
proof -
  have "map_of (cs_exact_scores cs) (pb_id b) = None" if "b \<in> set bs" for b
    using bs(3) that by (auto simp: map_of_eq_None_iff)
  then have un: "filter (\<lambda>point. map_of (cs_exact_scores cs) point = None) (map pb_id bs) = map pb_id bs"
    by (intro filter_True) auto
  from bs(1) have "\<forall>i\<in>set (map pb_id bs). is_finite (f i)" by (auto simp: bound_ok_def)
  from insert_scores_ok [OF this, of cs tel] obtain cache where c:
    "insert_scores (zip (map pb_id bs) (map f (map pb_id bs))) cs tel =
      (Inr (), cs\<lparr>cs_exact_scores := cache\<rparr>, tel\<lparr>exact_scores_count := exact_scores_count tel + length (map pb_id bs)\<rparr>)"
    "fst ` set cache = set (map pb_id bs) \<union> fst ` set (cs_exact_scores cs)"
    "map_of cache = (\<lambda>i. if i \<in> set (map pb_id bs) then Some (f i) else map_of (cs_exact_scores cs) i)" by blast
  have "\<forall>b\<in>set bs. map_of (cs_exact_scores (cs\<lparr>cs_exact_scores := cache\<rparr>)) (pb_id b) = Some (f (pb_id b)) \<and> bound_ok b"
    using c(3) bs(1) by simp
  from push_exact_ok [OF this] obtain ex where ex:
    "push_exact bs (cs\<lparr>cs_exact_scores := cache\<rparr>) = (Inr (), cs\<lparr>cs_exact_scores := cache, cs_exact := ex\<rparr>)"
    "mset ex = mset (map (\<lambda>b. scored f (pb_id b)) bs) + mset (cs_exact cs)" by auto
  have "refine_bounds_with scorer bs cs tel =
      (Inr (), cs\<lparr>cs_exact_scores := cache, cs_exact := ex\<rparr>, tel\<lparr>exact_scores_count := exact_scores_count tel + length bs\<rparr>)"
  proof (cases "bs = []")
    case True
    with c ex show ?thesis by (simp add: refine_bounds_with_def un)
  next
    case False
    with c ex show ?thesis by (simp add: refine_bounds_with_def un fill_scores_map)
  qed
  with ex(2) c(2) show thesis by (intro that) auto
qed

lemma pop_bounds_mset: "pop_bounds n h = (bs, h') \<Longrightarrow> mset h = mset bs + mset h'"
proof (induction n arbitrary: h bs)
  case (Suc n)
  then show ?case by (fastforce split: option.splits prod.splits dest!: heap_pop_mset)
qed simp

end

lemma sorted_head:
  assumes "sorted_wrt exact_order_le q" "mset q = add_mset m M" "\<forall>x\<in>#M. exact_order_le m x"
  shows "\<exists>q'. q = m # q' \<and> mset q' = M"
proof -
  obtain ys where ys: "mset ys = M" by (metis ex_mset)
  have "q = m # sort_by exact_order_le ys"
    using assms ys by (intro exact_order_le.sorted_unique) (auto simp: exact_order_le.sorted_sort_by)
  with ys show ?thesis by simp
qed

context exact_scorer
begin

lemma fixed_first:
  assumes h: "certificate_holds cs tel q" and fixed: "exact_is_fixed cs"
    and e: "heap_pop pending_exact_le (cs_exact cs) = Some (e, rest)"
    and x: "x \<in> set (map (\<lambda>b. scored f (pb_id b)) (cs_bounds cs)) \<union> set rest"
  shows "exact_order_le e x"
proof -
  have sel: "select_max pending_exact_le (cs_exact cs) = Some e"
    using e by (auto simp: heap_pop_def split: option.splits)
  consider (rest) "x \<in> set rest" | (bound) b where "b \<in> set (cs_bounds cs)" "x = scored f (pb_id b)"
    using x by auto
  then show ?thesis
  proof cases
    case rest
    then have "x \<in> set (cs_exact cs)" using heap_pop_set [OF e] by simp
    from pending_exact_le.heap_pop_ge [OF e this] show ?thesis by (simp add: pending_exact_le_iff)
  next
    case bound
    then obtain t where t: "select_max pending_bound_le (cs_bounds cs) = Some t"
      by (cases "select_max pending_bound_le (cs_bounds cs)") auto
    have "pending_bound_le b t" using pending_bound_le.select_max_ge [OF t] bound(1) by blast
    moreover have "f_lt (pb_value t) (so_score e) \<or> f_eq (so_score e) (pb_value t) \<and> so_idx e < pb_id t"
      using fixed sel t by (simp add: exact_is_fixed_def)
    moreover have "f (pb_id b) \<le> pb_value b" using h bound(1) by (auto simp: certificate_holds_def bound_ok_def)
    ultimately show ?thesis unfolding bound(2)
      by (auto simp: rank_simps f_lt_def f_eq_def)
  qed
qed

lemma certificate_next_refines:
  assumes "certificate_holds cs tel q"
  shows "\<exists>cs' tel'. certificate_next scorer cs tel = (Inr (case q of [] \<Rightarrow> None | p # _ \<Rightarrow> Some p), cs', tel') \<and>
    certificate_holds cs' tel' (tl q) \<and> dt_points_emitted tel' = dt_points_emitted tel"
  using assms
proof (induction "length (cs_bounds cs)" arbitrary: cs tel rule: less_induct)
  case less
  note h = less.prems
  consider (fixed) "exact_is_fixed cs" | (spent) "\<not> exact_is_fixed cs" "cs_bounds cs = []"
    | (refine) b rest where "\<not> exact_is_fixed cs" "heap_pop pending_bound_le (cs_bounds cs) = Some (b, rest)"
    by (cases "heap_pop pending_bound_le (cs_bounds cs)") (auto simp: heap_pop_None)
  then show ?case
  proof cases
    case fixed
    then obtain e rest where e: "heap_pop pending_exact_le (cs_exact cs) = Some (e, rest)"
      by (auto simp: exact_is_fixed_def heap_pop_def split: option.splits)
    have ms: "mset (cs_exact cs) = add_mset e (mset rest)" by (rule heap_pop_mset [OF e])
    have "mset q = add_mset e (mset (map (\<lambda>b. scored f (pb_id b)) (cs_bounds cs)) + mset rest)"
      using h ms by (simp add: certificate_holds_def)
    from sorted_head [OF _ this] fixed_first [OF h fixed e] h obtain q' where
      q': "q = e # q'" "mset q' = mset (map (\<lambda>b. scored f (pb_id b)) (cs_bounds cs)) + mset rest"
      by (auto simp: certificate_holds_def)
    have "certificate_holds (cs\<lparr>cs_exact := rest\<rparr>) tel q'"
      using h q' heap_pop_set [OF e] unfolding certificate_holds_def by auto
    with q' fixed e show ?thesis by (simp add: certificate_next.simps pop_exact_def)
  next
    case spent
    then have "cs_exact cs = []"
      by (cases "select_max pending_exact_le (cs_exact cs)") (auto simp: exact_is_fixed_def)
    with h spent have "q = []" by (simp add: certificate_holds_def)
    with h spent \<open>cs_exact cs = []\<close> show ?thesis by (simp add: certificate_next.simps pop_exact_def heap_pop_def)
  next
    case refine
    obtain bs rest' where pb: "pop_bounds (exact_refine_batch cs - 1) rest = (bs, rest')" by fastforce
    let ?cs = "cs\<lparr>cs_bounds := rest'\<rparr>"
    have ms: "mset (cs_bounds cs) = mset (b # bs) + mset rest'"
      using heap_pop_mset [OF refine(2)] pop_bounds_mset [OF pb] by simp
    then have sets: "set (cs_bounds cs) = set (b # bs) \<union> set rest'" by (metis set_mset_mset set_mset_union)
    have "mset (map pb_id (cs_bounds cs)) = mset (map pb_id (b # bs) @ map pb_id rest')"
      using ms by (simp only: mset_map mset_append image_mset_union)
    then have dist: "distinct (map pb_id (b # bs) @ map pb_id rest')"
      using h mset_eq_imp_distinct_iff unfolding certificate_holds_def by blast
    have pre: "\<forall>b\<in>set (b # bs). bound_ok b" "distinct (map pb_id (b # bs))"
      "fst ` set (cs_exact_scores ?cs) \<inter> pb_id ` set (b # bs) = {}"
      using h sets dist unfolding certificate_holds_def by auto
    obtain cache ex where r: "refine_bounds_with scorer (b # bs) ?cs tel =
        (Inr (), ?cs\<lparr>cs_exact_scores := cache, cs_exact := ex\<rparr>, tel\<lparr>exact_scores_count := exact_scores_count tel + length (b # bs)\<rparr>)"
      "mset ex = mset (map (\<lambda>b. scored f (pb_id b)) (b # bs)) + mset (cs_exact ?cs)"
      "fst ` set cache = pb_id ` set (b # bs) \<union> fst ` set (cs_exact_scores ?cs)"
      by (rule refine_bounds_with_ok [OF pre])
    let ?cs' = "?cs\<lparr>cs_exact_scores := cache, cs_exact := ex\<rparr>"
    let ?tel = "tel\<lparr>exact_scores_count := exact_scores_count tel + length (b # bs)\<rparr>"
    have "mset q = mset (map (\<lambda>b. scored f (pb_id b)) rest') + mset ex"
      using h r(2) ms unfolding certificate_holds_def by (simp add: mset_map [symmetric] del: mset_map) (simp add: ac_simps)
    moreover have "\<forall>p\<in>set ex. is_finite (so_score p)"
    proof -
      have "set ex = (\<lambda>b. scored f (pb_id b)) ` set (b # bs) \<union> set (cs_exact cs)"
        using arg_cong [OF r(2), of set_mset] by simp
      with h pre(1) show ?thesis unfolding certificate_holds_def by (auto simp: bound_ok_def)
    qed
    moreover have "fst ` set cache \<inter> pb_id ` set rest' = {}"
      using r(3) h sets dist unfolding certificate_holds_def by auto
    moreover have "length (cs_bounds cs) = length (b # bs) + length rest'" using ms by (metis size_mset size_union)
    ultimately have h': "certificate_holds ?cs' ?tel q"
      using h sets dist unfolding certificate_holds_def by auto
    have "certificate_next scorer cs tel = certificate_next scorer ?cs' ?tel"
      using refine pb r(1) by (subst certificate_next.simps) simp
    moreover have "\<exists>cs' tel'. certificate_next scorer ?cs' ?tel = (Inr (case q of [] \<Rightarrow> None | p # _ \<Rightarrow> Some p), cs', tel') \<and>
        certificate_holds cs' tel' (tl q) \<and> dt_points_emitted tel' = dt_points_emitted ?tel"
      using heap_pop_length [OF refine(2)] pop_bounds_length [OF pb] by (intro less.hyps h') simp
    ultimately show ?thesis by simp
  qed
qed

end

context exact_scorer
begin

definition rank_holds :: "dense_rank_state \<Rightarrow> scored_point_offset list \<Rightarrow> bool" where
  "rank_holds st q \<longleftrightarrow>
     (case dr_inner st of
        Certificate cs \<Rightarrow> certificate_holds cs (dr_telemetry st) q
      | Scan scan \<Rightarrow>
          (case scan_points scan of
             None \<Rightarrow> scan_next scan = 0 \<and> q = dense_order f (eligible_ids (dr_eligible st)) \<and>
               (\<forall>i\<in>set (eligible_ids (dr_eligible st)). is_finite (f i))
           | Some points \<Rightarrow> q = drop (scan_next scan) points))"

definition initialized :: "dense_rank_state \<Rightarrow> bool" where
  "initialized st \<longleftrightarrow> (case dr_inner st of Certificate _ \<Rightarrow> True | Scan scan \<Rightarrow> scan_points scan \<noteq> None)"

lemma scan_initialize_refines:
  assumes "rank_holds st q"
  obtains st' where "scan_initialize scorer st = Inr st'" "rank_holds st' q" "initialized st'"
proof (cases "dr_inner st")
  case (Certificate cs)
  with assms that show ?thesis by (simp add: scan_initialize_def initialized_def)
next
  case (Scan scan)
  show ?thesis
  proof (cases "scan_points scan")
    case None
    let ?ids = "eligible_ids (dr_eligible st)"
    have fin: "\<not> list_ex (\<lambda>score. \<not> is_finite score) (map f ?ids)" and q: "q = dense_order f ?ids"
      using assms Scan None by (auto simp: rank_holds_def list_ex_iff)
    have "map (\<lambda>(point, score). \<lparr>so_idx = point, so_score = score\<rparr>) (zip ?ids (map f ?ids)) = map (scored f) ?ids"
      by (rule nth_equalityI) (simp_all add: scored_def)
    then have t: "scan_initialize scorer st = Inr (st\<lparr>dr_inner := Scan (scan\<lparr>scan_points := Some q\<rparr>),
        dr_telemetry := (dr_telemetry st)\<lparr>exact_scores_count := length ?ids\<rparr>\<rparr>)"
      using Scan None fin by (simp add: scan_initialize_def fill_scores_map q dense_order_def Let_def)
    have "scan_next scan = 0" using assms Scan None by (simp add: rank_holds_def)
    then show ?thesis by (intro that [OF t]) (simp_all add: rank_holds_def initialized_def)
  next
    case (Some points)
    with assms Scan that show ?thesis by (simp add: scan_initialize_def initialized_def)
  qed
qed

lemma rank_holds_emitted:
  "rank_holds (st\<lparr>dr_telemetry := (dr_telemetry st)\<lparr>dt_points_emitted := n\<rparr>\<rparr>) q = rank_holds st q"
  by (simp add: rank_holds_def certificate_holds_def split: dense_rank_state_inner.split option.split)

lemma next_ranked_refines:
  assumes h: "rank_holds st q" "initialized st"
  obtains st' where "next_ranked scorer st = (Inr (case q of [] \<Rightarrow> None | p # _ \<Rightarrow> Some p), st')" "rank_holds st' (tl q)"
    "initialized st'"
proof (cases "dr_inner st")
  case (Certificate cs)
  with h have "certificate_holds cs (dr_telemetry st) q" by (simp add: rank_holds_def)
  from certificate_next_refines [OF this] obtain cs' tel' where
    "certificate_next scorer cs (dr_telemetry st) = (Inr (case q of [] \<Rightarrow> None | p # _ \<Rightarrow> Some p), cs', tel')"
    "certificate_holds cs' tel' (tl q)" by blast
  with Certificate show ?thesis
    by (intro that [of "st\<lparr>dr_inner := Certificate cs', dr_telemetry := tel'\<rparr>"])
      (simp_all add: next_ranked_def rank_holds_def initialized_def)
next
  case (Scan scan)
  with h obtain points where p: "scan_points scan = Some points" "q = drop (scan_next scan) points"
    by (auto simp: rank_holds_def initialized_def)
  show ?thesis
  proof (cases "scan_next scan < length points")
    case True
    then have "q = points ! scan_next scan # drop (Suc (scan_next scan)) points" using p by (simp add: Cons_nth_drop_Suc)
    with True Scan p(1) show ?thesis
      by (intro that [of "st\<lparr>dr_inner := Scan (scan\<lparr>scan_next := scan_next scan + 1\<rparr>)\<rparr>"])
        (simp_all add: next_ranked_def rank_holds_def initialized_def)
  next
    case False
    with Scan p h show ?thesis by (intro that [of st]) (simp_all add: next_ranked_def rank_holds_def initialized_def)
  qed
qed

lemma collect_ranked_refines:
  assumes "rank_holds st q" "initialized st"
  shows "\<exists>st'. collect_ranked scorer n st = (Inr (take n q), st') \<and> rank_holds st' (drop n q)"
  using assms
proof (induction n arbitrary: st q)
  case (Suc n)
  obtain st1 where st1: "next_ranked scorer st = (Inr (case q of [] \<Rightarrow> None | p # _ \<Rightarrow> Some p), st1)"
    "rank_holds st1 (tl q)" "initialized st1"
    by (rule next_ranked_refines [OF Suc.prems])
  show ?case
  proof (cases q)
    case Nil
    with st1 show ?thesis by simp
  next
    case (Cons p ps)
    let ?st = "st1\<lparr>dr_telemetry := (dr_telemetry st1)\<lparr>dt_points_emitted := dt_points_emitted (dr_telemetry st1) + 1\<rparr>\<rparr>"
    have "rank_holds ?st ps" "initialized ?st"
      using st1(2,3) Cons by (simp_all add: rank_holds_emitted initialized_def)
    from Suc.IH [OF this] st1(1) Cons show ?thesis by auto
  qed
qed simp

text \<open>A batch of the dense state is the next chunk of the exact ranking.\<close>

lemma next_batch_with_refines:
  assumes h: "rank_holds st q" and n: "0 < n"
  obtains st' where "next_batch_with scorer n st = (Inr (take n q), st')" "rank_holds st' (drop n q)"
proof -
  obtain st1 where st1: "scan_initialize scorer st = Inr st1" "rank_holds st1 q" "initialized st1"
    by (rule scan_initialize_refines [OF h])
  from collect_ranked_refines [OF st1(2,3)] obtain st' where
    "collect_ranked scorer n st1 = (Inr (take n q), st')" "rank_holds st' (drop n q)" by blast
  with st1(1) n that show thesis by (simp add: next_batch_with_def)
qed

definition interval_ok :: "nat \<times> flt \<times> flt \<Rightarrow> bool" where
  "interval_ok b \<longleftrightarrow> (case b of (point, lower, upper) \<Rightarrow> is_finite (f point) \<and> lower \<le> f point \<and> f point \<le> upper)"

lemma certificate_rank_state_holds:
  assumes bs: "\<forall>b\<in>set bs. interval_ok (pb_id b, pb_lower b, pb_value b) \<and> bound_valid (pb_id b, pb_lower b, pb_value b)"
    and ids: "mset (map pb_id bs) = mset ids" "distinct ids"
  shows "rank_holds (certificate_rank_state refine bs universe (length ids) plan quantized) (dense_order f ids)"
proof -
  have "bound_ok b" if "b \<in> set bs" for b
    using bs that by (cases "pb_value b"; cases "pb_lower b") (auto simp: interval_ok_def bound_ok_def bound_valid_def)
  moreover have "mset (dense_order f ids) = mset (map (\<lambda>b. scored f (pb_id b)) bs)"
    using arg_cong [OF ids(1), of "image_mset (scored f)"] by (simp add: dense_order_def image_mset.compositionality comp_def)
  moreover have "length bs = length ids" using ids(1) by (metis length_map size_mset)
  moreover have "distinct (map pb_id bs)" using ids mset_eq_imp_distinct_iff by blast
  ultimately show ?thesis
    by (simp add: rank_holds_def certificate_rank_state_def certificate_holds_def default_telemetry_def
        dense_order_def exact_order_le.sorted_sort_by)
qed

lemma dense_order_mset: "mset xs = mset ys \<Longrightarrow> dense_order f xs = dense_order f ys"
  unfolding dense_order_def by (rule exact_order_le.sort_by_mset) (simp add: mset_map)

lemma from_certificate_bounds_batched_holds:
  assumes st: "from_certificate_bounds_batched eligible bounds refine plan quantized = Inr st"
    and ok: "\<forall>b\<in>set bounds. interval_ok b"
  shows "rank_holds st (dense_order f eligible)"
proof -
  let ?bs = "map (\<lambda>(point, lower, upper). \<lparr>pb_id = point, pb_lower = lower, pb_value = upper\<rparr>) bounds"
  have c: "distinct eligible" "sort (map fst bounds) = sort eligible" "list_all bound_valid bounds"
    "st = certificate_rank_state refine ?bs (Explicit (sort eligible)) (length eligible) plan quantized"
    using st by (auto simp: from_certificate_bounds_batched_def split: if_splits)
  have "map pb_id ?bs = map fst bounds" by (simp add: case_prod_beta comp_def)
  moreover have "mset (map fst bounds) = mset eligible" using arg_cong [OF c(2), of mset] by simp
  ultimately have "mset (map pb_id ?bs) = mset eligible" by (simp only:)
  then show ?thesis
    using c(1,3) ok unfolding c(4)
    by (intro certificate_rank_state_holds) (auto simp: list_all_iff simp del: map_map mset_map)
qed

lemma from_contiguous_pending_batched_holds:
  assumes st: "from_contiguous_pending_batched n bs refine plan quantized = Inr st"
    and ok: "\<forall>b\<in>set bs. interval_ok (pb_id b, pb_lower b, pb_value b)"
  shows "rank_holds st (dense_order f [0..<n])"
proof -
  have c: "length bs = n" "\<not> list_ex (\<lambda>(ordinal, b). pb_id b \<noteq> ordinal \<or> \<not> bound_valid (pb_id b, pb_lower b, pb_value b))
      (zip [0..<length bs] bs)" "st = certificate_rank_state refine bs (Contiguous n) n plan quantized"
    using st by (auto simp: from_contiguous_pending_batched_def split: if_splits)
  have nth: "pb_id (bs ! i) = i \<and> bound_valid (pb_id (bs ! i), pb_lower (bs ! i), pb_value (bs ! i))" if "i < n" for i
  proof -
    have "(i, bs ! i) \<in> set (zip [0..<length bs] bs)" using that c(1) by (auto simp: in_set_conv_nth intro!: exI [of _ i])
    with c(2) show ?thesis by (auto simp: list_ex_iff)
  qed
  then have "map pb_id bs = [0..<n]" using c(1) by (intro nth_equalityI) simp_all
  moreover have "\<forall>b\<in>set bs. bound_valid (pb_id b, pb_lower b, pb_value b)"
    using nth c(1) by (metis in_set_conv_nth)
  ultimately have "rank_holds (certificate_rank_state refine bs (Contiguous n) (length [0..<n]) plan quantized) (dense_order f [0..<n])"
    using ok by (intro certificate_rank_state_holds) auto
  then show ?thesis unfolding c(3) by simp
qed

lemma build_exact_scan_state_holds:
  assumes "\<forall>i\<in>set eligible. is_finite (f i)"
  shows "\<exists>st. build_exact_scan_state eligible = Inr st \<and> rank_holds st (dense_order f eligible)"
  using assms by (simp add: build_exact_scan_state_def rank_holds_def eligible_ids_def)

end

text \<open>The raw scorer of a vector storage scores every point by itself.\<close>

interpretation pointwise: exact_scorer "map f" f for f
  by unfold_locales simp

text \<open>Successive batches, with the state they leave.\<close>

fun dense_run ::
  "(nat list \<Rightarrow> flt list) \<Rightarrow> nat list \<Rightarrow> dense_rank_state
     \<Rightarrow> (operation_error + scored_point_offset list) \<times> dense_rank_state" where
  "dense_run scorer [] st = (Inr [], st)"
| "dense_run scorer (n # ns) st =
     (case next_batch_with scorer n st of
        (Inl e, st') \<Rightarrow> (Inl e, st')
      | (Inr ps, st') \<Rightarrow>
          (case dense_run scorer ns st' of
             (Inl e, st'') \<Rightarrow> (Inl e, st'')
           | (Inr qs, st'') \<Rightarrow> (Inr (ps @ qs), st'')))"

lemma dense_run_refines:
  "pointwise.rank_holds f st q \<Longrightarrow> \<forall>n\<in>set ns. 0 < n \<Longrightarrow>
     \<exists>st'. dense_run (map f) ns st = (Inr (take (sum_list ns) q), st') \<and> pointwise.rank_holds f st' (drop (sum_list ns) q)"
proof (induction ns arbitrary: st q)
  case (Cons n ns)
  obtain st1 where st1: "next_batch_with (map f) n st = (Inr (take n q), st1)" "pointwise.rank_holds f st1 (drop n q)"
    using Cons.prems by (auto elim: pointwise.next_batch_with_refines)
  from Cons.IH [OF st1(2)] Cons.prems(2) st1(1) show ?case by (auto simp: take_add ac_simps)
qed simp

lemma next_ranked_certificate:
  "dr_inner st = Certificate cs \<Longrightarrow> next_ranked scorer st = (r, st') \<Longrightarrow> \<exists>cs'. dr_inner st' = Certificate cs'"
  by (auto simp: next_ranked_def split: prod.splits)

lemma collect_ranked_certificate:
  "dr_inner st = Certificate cs \<Longrightarrow> collect_ranked scorer n st = (r, st') \<Longrightarrow> \<exists>cs'. dr_inner st' = Certificate cs'"
proof (induction n arbitrary: st cs r)
  case (Suc n)
  obtain r1 st1 where n1: "next_ranked scorer st = (r1, st1)" by fastforce
  from next_ranked_certificate [OF Suc.prems(1) n1] obtain cs1 where cs1: "dr_inner st1 = Certificate cs1" by blast
  show ?case
  proof (cases "\<exists>p. r1 = Inr (Some p)")
    case True
    then obtain p where p: "r1 = Inr (Some p)" ..
    let ?st = "st1\<lparr>dr_telemetry := (dr_telemetry st1)\<lparr>dt_points_emitted := dt_points_emitted (dr_telemetry st1) + 1\<rparr>\<rparr>"
    obtain r2 st2 where rec: "collect_ranked scorer n ?st = (r2, st2)" by fastforce
    with Suc.prems(2) n1 p have "st2 = st'" by (cases r2) auto
    with rec have "collect_ranked scorer n ?st = (r2, st')" by simp
    moreover have "dr_inner ?st = Certificate cs1" using cs1 by simp
    ultimately show ?thesis using Suc.IH by blast
  next
    case False
    with Suc.prems(2) n1 have "st' = st1" by (cases r1) (auto split: option.splits)
    with cs1 show ?thesis by blast
  qed
qed auto

lemma dense_run_certificate:
  "\<exists>cs. dr_inner st = Certificate cs \<Longrightarrow> dense_run scorer ns st = (r, st') \<Longrightarrow> \<exists>cs. dr_inner st' = Certificate cs"
proof (induction ns arbitrary: st r)
  case (Cons n ns)
  obtain r1 st1 where n1: "next_batch_with scorer n st = (r1, st1)" by fastforce
  have c1: "\<exists>cs. dr_inner st1 = Certificate cs"
    using Cons.prems(1) n1 collect_ranked_certificate
    by (fastforce simp: next_batch_with_def scan_initialize_def split: if_splits)
  show ?case
  proof (cases r1)
    case (Inl e)
    with Cons.prems(2) n1 c1 show ?thesis by auto
  next
    case (Inr ps)
    obtain r2 st2 where rec: "dense_run scorer ns st1 = (r2, st2)" by fastforce
    with Cons.prems(2) n1 Inr have "st2 = st'" by (cases r2) auto
    with Cons.IH [OF c1] rec show ?thesis by simp
  qed
qed auto

section \<open>Properties\<close>

text \<open>C6. A certificate plan ranks exactly: when every interval contains the exact score of its point, batches of any
  positive sizes return together the next ranks of all eligible points by exact score descending, ties by offset.\<close>

theorem dense_certificate_exact:
  assumes "from_certificate_bounds_batched eligible bounds refine plan quantized = Inr st"
    and "\<forall>(point, lower, upper)\<in>set bounds. is_finite (f point) \<and> lower \<le> f point \<and> f point \<le> upper"
    and "\<forall>n\<in>set ns. 0 < n"
  shows "fst (dense_run (map f) ns st) = Inr (take (sum_list ns) (dense_order f eligible))"
proof -
  have "pointwise.rank_holds f st (dense_order f eligible)"
    using assms(1,2) by (intro pointwise.from_certificate_bounds_batched_holds) (auto simp: pointwise.interval_ok_def)
  from dense_run_refines [OF this assms(3)] show ?thesis by auto
qed

definition demo_score :: "nat \<Rightarrow> flt" where
  "demo_score i = Fin (if i = 2 then 5 else of_nat i)"

definition demo_bounds :: "(nat \<times> flt \<times> flt) list" where
  "demo_bounds = [(0, Fin (-1), Fin 4), (1, Fin 0, Fin 2), (2, Fin 4, Fin 6)]"

definition demo_state :: dense_rank_state where
  "demo_state = certificate_rank_state 1
     (map (\<lambda>(point, lower, upper). \<lparr>pb_id = point, pb_lower = lower, pb_value = upper\<rparr>) demo_bounds)
     (Explicit [0, 1, 2]) 3 ScalarCertificate 3"

lemma demo_state_built: "from_certificate_bounds_batched [0, 1, 2] demo_bounds 1 ScalarCertificate 3 = Inr demo_state"
  by code_simp

lemma demo_intervals:
  "\<forall>(point, lower, upper)\<in>set demo_bounds. is_finite (demo_score point) \<and> lower \<le> demo_score point \<and> demo_score point \<le> upper"
  by (simp add: demo_bounds_def demo_score_def)

theorem dense_certificate_exact_witness:
  "fst (dense_run (map demo_score) [1, 2] demo_state) = Inr (take 3 (dense_order demo_score [0, 1, 2])) \<and>
     map so_idx (dense_order demo_score [0, 1, 2]) = [2, 1, 0]"
proof -
  have "map so_idx (dense_order demo_score [0, 1, 2]) = [2, 1, 0]" by code_simp
  moreover have "\<forall>n\<in>set [1, 2 :: nat]. 0 < n" by simp
  from dense_certificate_exact [OF demo_state_built demo_intervals this]
  have "fst (dense_run (map demo_score) [1, 2] demo_state) = Inr (take (sum_list [1, 2]) (dense_order demo_score [0, 1, 2]))" .
  ultimately show ?thesis by (simp add: numeral_3_eq_3)
qed

text \<open>C25. No vector is scored twice: however many batches are drawn from a certificate state, the number of exact
  scores computed and the number of points still only bounded add up to the number of eligible points.\<close>

theorem dense_scores_each_point_once:
  assumes "from_certificate_bounds_batched eligible bounds refine plan quantized = Inr st"
    and "\<forall>(point, lower, upper)\<in>set bounds. is_finite (f point) \<and> lower \<le> f point \<and> f point \<le> upper"
    and "\<forall>n\<in>set ns. 0 < n" and "dense_run (map f) ns st = (r, st')"
  shows "exact_scores_count (dr_telemetry st') \<le> eligible_points (dr_telemetry st') \<and>
    (\<forall>cs. dr_inner st' = Certificate cs \<longrightarrow>
       exact_scores_count (dr_telemetry st') + length (cs_bounds cs) = eligible_points (dr_telemetry st') \<and>
       distinct (map pb_id (cs_bounds cs)) \<and> fst ` set (cs_exact_scores cs) \<inter> pb_id ` set (cs_bounds cs) = {})"
proof -
  have h: "pointwise.rank_holds f st (dense_order f eligible)"
    using assms(1,2) by (intro pointwise.from_certificate_bounds_batched_holds) (auto simp: pointwise.interval_ok_def)
  have "\<exists>cs. dr_inner st = Certificate cs"
    using assms(1) by (auto simp: from_certificate_bounds_batched_def certificate_rank_state_def split: if_splits)
  moreover have "\<exists>cs. dr_inner st = Certificate cs \<Longrightarrow> dense_run (map f) ns st = (r, st') \<Longrightarrow> \<exists>cs. dr_inner st' = Certificate cs"
    by (rule dense_run_certificate)
  ultimately obtain cs where cs: "dr_inner st' = Certificate cs" using assms(4) by blast
  from dense_run_refines [OF h assms(3)] assms(4) cs obtain q where "pointwise.certificate_holds f cs (dr_telemetry st') q"
    by (auto simp: pointwise.rank_holds_def)
  with cs show ?thesis by (auto simp: pointwise.certificate_holds_def)
qed

theorem dense_scores_each_point_once_witness:
  "\<exists>r st'. dense_run (map demo_score) [1] demo_state = (r, st') \<and>
     exact_scores_count (dr_telemetry st') \<le> eligible_points (dr_telemetry st')"
proof -
  obtain r st' where run: "dense_run (map demo_score) [1] demo_state = (r, st')" by fastforce
  have "\<forall>n\<in>set [1 :: nat]. 0 < n" by simp
  from dense_scores_each_point_once [OF demo_state_built demo_intervals this run] run show ?thesis by blast
qed


definition wrong_bound_state :: dense_rank_state where
  "wrong_bound_state = certificate_rank_state 1 [\<lparr>pb_id = 2, pb_lower = Fin 0, pb_value = Fin 1\<rparr>] (Explicit [2]) 1 ScalarCertificate 1"


text \<open>The intervals a selected plan works with contain the exact scores.\<close>

definition plan_sound ::
  "(nat \<Rightarrow> flt) \<Rightarrow> vector_storage \<Rightarrow> quantized_vectors option \<Rightarrow> nat list \<Rightarrow> flt list \<Rightarrow> dense_execution_policy \<Rightarrow> bool" where
  "plan_sound f storage quantized eligible query policy =
     (case select_dense_plan storage quantized (sort eligible) policy of
        ExactScan \<Rightarrow> True
      | ScalarCertificate \<Rightarrow>
          (\<exists>q table stats g. quantized = Some q \<and> scalar_reconstruction_table q = Some table \<and>
             scalar_query_reconstruction_stats q (preprocess_vector storage query) = Some stats \<and>
             raw_scorer q query = Inr (map g) \<and>
             (\<forall>i\<in>set eligible. fst (scalar_bound stats (table ! i) (length query) (g i)) \<le> f i \<and>
                f i \<le> snd (scalar_bound stats (table ! i) (length query) (g i))))
      | PerVectorScalarCertificate \<Rightarrow>
          (\<exists>q rank_state. quantized = Some q \<and> per_vector_scalar q = Some rank_state \<and>
             (\<forall>st. rank_state (sort eligible) query PRODUCTION_PVS_EXACT_REFINE_BATCH = Inr st \<longrightarrow>
                (\<exists>bounds quantized_count. from_certificate_bounds_batched (sort eligible) bounds PRODUCTION_PVS_EXACT_REFINE_BATCH
                     PerVectorScalarCertificate quantized_count = Inr st \<and>
                   (\<forall>(point, lower, upper)\<in>set bounds. lower \<le> f point \<and> f point \<le> upper)))))"

lemma score_chunks_map:
  assumes "\<forall>n. \<not> stopped n" "0 < k"
  shows "score_chunks k stopped poll (map g) points = Inr (map g points)"
  using assms(2)
proof (induction "length points" arbitrary: points poll rule: less_induct)
  case less
  show ?case
  proof (cases "points = []")
    case True
    then show ?thesis by (simp add: score_chunks.simps)
  next
    case False
    with less have "score_chunks k stopped (poll + 1) (map g) (drop k points) = Inr (map g (drop k points))" by simp
    then have "score_chunks k stopped poll (map g) points = Inr (map g (take k points) @ map g (drop k points))"
      using False less.prems assms(1)
      by (subst score_chunks.simps) (simp add: check_stopped_def pointwise.fill_scores_map)
    then show ?thesis by (simp flip: map_append)
  qed
qed

lemma dense_new_holds:
  assumes new: "dense_rank_state_new storage quantized eligible query policy stopped = Inr st"
    and fin: "\<forall>i\<in>set eligible. is_finite (f i)" and sound: "plan_sound f storage quantized eligible query policy"
    and go: "\<forall>n. \<not> stopped n"
  shows "pointwise.rank_holds f st (dense_order f eligible)"
proof -
  let ?ids = "sort eligible"
  have order: "dense_order f ?ids = dense_order f eligible" by (rule pointwise.dense_order_mset) simp
  have new': "(case select_dense_plan storage quantized ?ids policy of
      ScalarCertificate \<Rightarrow> (case quantized of None \<Rightarrow> Inl (Panicked (Text ''Scalar plan requires quantized vectors''))
        | Some q \<Rightarrow> build_scalar_certificate_state storage q ?ids query stopped 1 1)
    | PerVectorScalarCertificate \<Rightarrow> (case quantized of None \<Rightarrow> Inl (Panicked (Text ''PerVectorScalar plan requires quantized vectors''))
        | Some q \<Rightarrow> build_per_vector_scalar_certificate_state q ?ids query 1)
    | ExactScan \<Rightarrow> build_exact_scan_state ?ids) = Inr st"
    using new go by (auto simp: dense_rank_state_new_def check_stopped_def Let_def split: if_splits)
  show ?thesis
  proof (cases "select_dense_plan storage quantized ?ids policy")
    case ScalarCertificate
    then obtain q table stats g where q: "quantized = Some q" "scalar_reconstruction_table q = Some table"
      "scalar_query_reconstruction_stats q (preprocess_vector storage query) = Some stats" "raw_scorer q query = Inr (map g)"
      "\<forall>i\<in>set eligible. fst (scalar_bound stats (table ! i) (length query) (g i)) \<le> f i \<and>
         f i \<le> snd (scalar_bound stats (table ! i) (length query) (g i))"
      using sound by (auto simp: plan_sound_def)
    have "score_chunks DENSE_SCORE_CHUNK_SIZE stopped 1 (map g) ?ids = Inr (map g ?ids)"
      by (rule score_chunks_map [OF go]) (simp add: DENSE_SCORE_CHUNK_SIZE_def)
    then have "from_certificate_bounds_batched ?ids
        (map (\<lambda>(point, approx). (point, scalar_bound stats (table ! point) (length query) approx)) (zip ?ids (map g ?ids)))
        1 ScalarCertificate (length ?ids) = Inr st"
      using new' ScalarCertificate q by (auto simp: build_scalar_certificate_state_def split: if_splits)
    then have "pointwise.rank_holds f st (dense_order f ?ids)"
      by (rule pointwise.from_certificate_bounds_batched_holds)
        (use q(5) fin in \<open>auto simp: pointwise.interval_ok_def zip_map2 zip_same_conv_map case_prod_beta\<close>)
    with order show ?thesis by simp
  next
    case PerVectorScalarCertificate
    then obtain q rank_state where q: "quantized = Some q" "per_vector_scalar q = Some rank_state"
      "\<forall>st. rank_state ?ids query PRODUCTION_PVS_EXACT_REFINE_BATCH = Inr st \<longrightarrow>
        (\<exists>bounds quantized_count. from_certificate_bounds_batched ?ids bounds PRODUCTION_PVS_EXACT_REFINE_BATCH
             PerVectorScalarCertificate quantized_count = Inr st \<and>
           (\<forall>(point, lower, upper)\<in>set bounds. lower \<le> f point \<and> f point \<le> upper))"
      using sound by (auto simp: plan_sound_def)
    have "max 1 PRODUCTION_PVS_EXACT_REFINE_BATCH = PRODUCTION_PVS_EXACT_REFINE_BATCH"
      by (simp add: PRODUCTION_PVS_EXACT_REFINE_BATCH_def)
    then have "rank_state ?ids query PRODUCTION_PVS_EXACT_REFINE_BATCH = Inr st"
      using new' PerVectorScalarCertificate q(1,2) by (simp add: build_per_vector_scalar_certificate_state_def)
    with q(3) obtain bounds k where b: "from_certificate_bounds_batched ?ids bounds PRODUCTION_PVS_EXACT_REFINE_BATCH
        PerVectorScalarCertificate k = Inr st" "\<forall>(point, lower, upper)\<in>set bounds. lower \<le> f point \<and> f point \<le> upper" by blast
    have "sort (map fst bounds) = sort ?ids"
      using b(1) by (auto simp: from_certificate_bounds_batched_def split: if_splits)
    then have "set (map fst bounds) = set eligible" by (metis set_sort)
    then have "\<forall>b\<in>set bounds. is_finite (f (fst b))" using fin by auto
    with b(2) have "\<forall>b\<in>set bounds. pointwise.interval_ok f b" by (auto simp: pointwise.interval_ok_def)
    from pointwise.from_certificate_bounds_batched_holds [OF b(1) this] order show ?thesis by simp
  next
    case ExactScan
    with new' have "build_exact_scan_state ?ids = Inr st" by simp
    moreover have "\<forall>i\<in>set ?ids. is_finite (f i)" using fin by simp
    ultimately show ?thesis using pointwise.build_exact_scan_state_holds [of ?ids f] order by auto
  qed
qed


definition plain_storage :: vector_storage where
  "plain_storage = \<lparr>vs_distance = Dot, vs_datatype = Float32, preprocess_vector = (\<lambda>v. v)\<rparr>"


end
