(* ===== verification/Sparse_Posting.thy ===== *)
theory Sparse_Posting
  imports Types
begin

text \<open>
  Posting lists of the sparse index: the mutable list of
  \<open>src/lib/sparse/src/index/posting_list.rs\<close> with its suffix maxima and its iterator,
  and the iterator interface of \<open>posting_list_common.rs\<close> that the ranking relies on.

  Record ids (\<open>u32\<close>) are naturals. A closure passed to an iteration is replaced by the
  list of the elements it would be called on.
\<close>

section \<open>Elements\<close>

record posting_element_ex =
  record_id :: nat
  weight :: flt
  max_next_weight :: flt

definition DEFAULT_MAX_NEXT_WEIGHT :: flt where
  "DEFAULT_MAX_NEXT_WEIGHT = NInf"

definition posting_element_new :: "nat \<Rightarrow> flt \<Rightarrow> posting_element_ex" where
  "posting_element_new point w = \<lparr>record_id = point, weight = w, max_next_weight = DEFAULT_MAX_NEXT_WEIGHT\<rparr>"

text \<open>\<open>binary_search\<close> of a sorted slice: \<open>Inr\<close> the position found, \<open>Inl\<close> the insertion point.\<close>

definition binary_search :: "nat \<Rightarrow> nat list \<Rightarrow> nat + nat" where
  "binary_search key keys =
     (let i = length (takeWhile (\<lambda>k. k < key) keys)
      in if i < length keys \<and> keys ! i = key then Inr i else Inl i)"

section \<open>The mutable list\<close>

fun propagate_rev :: "flt \<Rightarrow> posting_element_ex list \<Rightarrow> posting_element_ex list" where
  "propagate_rev m [] = []"
| "propagate_rev m (e # es) = e\<lparr>max_next_weight := m\<rparr> # propagate_rev (f_max m (weight e)) es"

definition propagate_max_next_weight_to_the_left :: "nat \<Rightarrow> posting_element_ex list \<Rightarrow> posting_element_ex list" where
  "propagate_max_next_weight_to_the_left up_to_index elements =
     (let starting = elements ! up_to_index; m = max (max_next_weight starting) (weight starting)
      in rev (propagate_rev m (rev (take up_to_index elements))) @ drop up_to_index elements)"

definition reset_last :: "posting_element_ex list \<Rightarrow> posting_element_ex list" where
  "reset_last elements =
     (if elements = [] then []
      else butlast elements @ [(last elements)\<lparr>max_next_weight := DEFAULT_MAX_NEXT_WEIGHT\<rparr>])"

definition posting_delete :: "nat \<Rightarrow> posting_element_ex list \<Rightarrow> posting_element_ex list" where
  "posting_delete point elements =
     (case binary_search point (map record_id elements) of
        Inl _ \<Rightarrow> elements
      | Inr found_index \<Rightarrow>
          let removed = reset_last (take found_index elements @ drop (found_index + 1) elements)
          in if found_index < length removed then propagate_max_next_weight_to_the_left found_index removed
             else if removed \<noteq> [] then propagate_max_next_weight_to_the_left (length removed - 1) removed
             else removed)"

definition posting_upsert :: "posting_element_ex \<Rightarrow> posting_element_ex list \<Rightarrow> posting_element_ex list" where
  "posting_upsert element elements =
     (case binary_search (record_id element) (map record_id elements) of
        Inr found_index \<Rightarrow>
          if f_eq (weight (elements ! found_index)) (weight element) then elements
          else propagate_max_next_weight_to_the_left found_index
                 (elements[found_index := (elements ! found_index)\<lparr>weight := weight element\<rparr>])
      | Inl insert_index \<Rightarrow>
          let inserted = take insert_index elements @ element # drop insert_index elements
          in if insert_index = length inserted - 1
             then propagate_max_next_weight_to_the_left insert_index inserted
             else propagate_max_next_weight_to_the_left (insert_index + 1) inserted)"

text \<open>\<open>PostingBuilder\<close>: additions in any order, then \<open>build\<close>.\<close>

definition posting_build :: "(nat \<times> flt) list \<Rightarrow> posting_element_ex list" where
  "posting_build records =
     rev (propagate_rev NInf (rev (sort_key record_id (map (\<lambda>(point, w). posting_element_new point w) records))))"

section \<open>The iterator of the mutable list\<close>

record posting_list_iterator =
  elements :: "posting_element_ex list"
  current_index :: nat

definition iterator_new :: "posting_element_ex list \<Rightarrow> posting_list_iterator" where
  "iterator_new es = \<lparr>elements = es, current_index = 0\<rparr>"

definition iterator_peek :: "posting_list_iterator \<Rightarrow> posting_element_ex option" where
  "iterator_peek it = (if current_index it < length (elements it) then Some (elements it ! current_index it) else None)"

definition iterator_advance :: "posting_list_iterator \<Rightarrow> posting_list_iterator" where
  "iterator_advance it = (if current_index it < length (elements it) then it\<lparr>current_index := current_index it + 1\<rparr> else it)"

definition iterator_last_id :: "posting_list_iterator \<Rightarrow> nat option" where
  "iterator_last_id it = (if elements it = [] then None else Some (record_id (last (elements it))))"

definition iterator_len_to_end :: "posting_list_iterator \<Rightarrow> nat" where
  "iterator_len_to_end it = length (elements it) - current_index it"

definition iterator_skip_to :: "nat \<Rightarrow> posting_list_iterator \<Rightarrow> posting_element_ex option \<times> posting_list_iterator" where
  "iterator_skip_to point it =
     (if length (elements it) \<le> current_index it then (None, it)
      else case binary_search point (map record_id (drop (current_index it) (elements it))) of
        Inr found_offset \<Rightarrow>
          (Some (elements it ! (current_index it + found_offset)), it\<lparr>current_index := current_index it + found_offset\<rparr>)
      | Inl insert_index \<Rightarrow> (None, it\<lparr>current_index := current_index it + insert_index\<rparr>))"

definition iterator_skip_till_id :: "nat \<Rightarrow> posting_list_iterator \<Rightarrow> posting_list_iterator" where
  "iterator_skip_till_id point it =
     (case iterator_skip_to point it of
        (Some _, it') \<Rightarrow> iterator_advance it'
      | (None, it') \<Rightarrow> it')"

definition iterator_skip_to_end :: "posting_list_iterator \<Rightarrow> posting_list_iterator" where
  "iterator_skip_to_end it = it\<lparr>current_index := length (elements it)\<rparr>"

definition iterator_for_each_till_id ::
  "nat \<Rightarrow> posting_list_iterator \<Rightarrow> (nat \<times> flt) list \<times> posting_list_iterator" where
  "iterator_for_each_till_id point it =
     (let visited = takeWhile (\<lambda>e. record_id e \<le> point) (drop (current_index it) (elements it))
      in (map (\<lambda>e. (record_id e, weight e)) visited, it\<lparr>current_index := current_index it + length visited\<rparr>))"

definition iterator_for_each_in_id_range :: "nat \<Rightarrow> nat \<Rightarrow> posting_list_iterator \<Rightarrow> (nat \<times> flt) list" where
  "iterator_for_each_in_id_range first stop it =
     (if stop < first then []
      else map (\<lambda>e. (record_id e, weight e))
             (takeWhile (\<lambda>e. record_id e \<le> stop) (dropWhile (\<lambda>e. record_id e < first) (elements it))))"

definition iterator_max_weight_till_id :: "nat \<Rightarrow> posting_list_iterator \<Rightarrow> flt option" where
  "iterator_max_weight_till_id point it =
     Some (foldl f_max (Fin 0)
       (map weight (takeWhile (\<lambda>e. record_id e \<le> point) (drop (current_index it) (elements it)))))"

section \<open>The iterator interface\<close>

text \<open>
  The operations of the trait \<open>PostingListIter\<close> that scoring and planning call.
  \<open>pi_fill_block_max_ranges\<close> takes the number of ranges and returns \<open>None\<close> where the code
  returns \<open>false\<close>; \<open>pi_max_weight_till_id\<close> may panic.
\<close>

record 'it posting_list_iter =
  pi_peek :: "'it \<Rightarrow> (nat \<times> flt) option \<times> 'it"
  pi_last_id :: "'it \<Rightarrow> nat option"
  pi_len_to_end :: "'it \<Rightarrow> nat"
  pi_skip_to :: "nat \<Rightarrow> 'it \<Rightarrow> 'it"
  pi_skip_till_id :: "nat \<Rightarrow> 'it \<Rightarrow> 'it"
  pi_for_each_till_id :: "nat \<Rightarrow> 'it \<Rightarrow> (nat \<times> flt) list \<times> 'it"
  pi_max_weight_till_id :: "nat \<Rightarrow> 'it \<Rightarrow> operation_error + flt option"
  pi_fill_block_max_ranges :: "nat \<Rightarrow> nat \<Rightarrow> nat \<Rightarrow> 'it \<Rightarrow> flt list option"

definition ram_iter :: "posting_list_iterator posting_list_iter" where
  "ram_iter =
     \<lparr>pi_peek = (\<lambda>it. (map_option (\<lambda>e. (record_id e, weight e)) (iterator_peek it), it)),
      pi_last_id = iterator_last_id, pi_len_to_end = iterator_len_to_end,
      pi_skip_to = (\<lambda>point it. snd (iterator_skip_to point it)),
      pi_skip_till_id = iterator_skip_till_id, pi_for_each_till_id = iterator_for_each_till_id,
      pi_max_weight_till_id = (\<lambda>point it. Inr (iterator_max_weight_till_id point it)),
      pi_fill_block_max_ranges = (\<lambda>_ _ _ _. None)\<rparr>"

section \<open>The invariant of a posting list\<close>

definition suffix_max :: "posting_element_ex list \<Rightarrow> flt" where
  "suffix_max es = foldr (\<lambda>e m. max m (weight e)) es NInf"

text \<open>Ids ascend strictly and every element knows the greatest weight to its right.\<close>

fun maxima_ok :: "posting_element_ex list \<Rightarrow> bool" where
  "maxima_ok [] = True"
| "maxima_ok (e # es) = (max_next_weight e = suffix_max es \<and> weight e \<noteq> NaN \<and> maxima_ok es)"

definition posting_ok :: "posting_element_ex list \<Rightarrow> bool" where
  "posting_ok es \<longleftrightarrow> sorted_wrt (<) (map record_id es) \<and> maxima_ok es"

lemma suffix_max_simps [simp]: "suffix_max [] = NInf" "suffix_max (e # es) = max (suffix_max es) (weight e)"
  by (simp_all add: suffix_max_def)

lemma maxima_ok_append:
  "maxima_ok (xs @ ys) \<Longrightarrow> maxima_ok ys"
  by (induction xs) auto

lemma suffix_max_append: "suffix_max (xs @ ys) = max (suffix_max xs) (suffix_max ys)"
  by (induction xs) (auto simp: ac_simps max_absorb2)

lemma suffix_max_notNaN: "\<forall>e\<in>set es. weight e \<noteq> NaN \<Longrightarrow> suffix_max es \<noteq> NaN"
  by (induction es) (auto simp: max_def)

lemma maxima_ok_weights: "maxima_ok es \<Longrightarrow> e \<in> set es \<Longrightarrow> weight e \<noteq> NaN"
  by (induction es) auto

lemma f_max_eq: "a \<noteq> NaN \<Longrightarrow> b \<noteq> NaN \<Longrightarrow> f_max a b = max a b"
  by (simp add: f_max_def)

text \<open>Propagating from a correct suffix makes the whole list correct.\<close>

lemma propagate_rev_ok:
  assumes "maxima_ok ys" "\<forall>e\<in>set xs. weight e \<noteq> NaN" "m = suffix_max ys"
  shows "maxima_ok (rev (propagate_rev m xs) @ ys) \<and>
    map record_id (rev (propagate_rev m xs)) = rev (map record_id xs) \<and> map weight (rev (propagate_rev m xs)) = rev (map weight xs)"
  using assms
proof (induction xs arbitrary: m ys)
  case (Cons e es)
  let ?e = "e\<lparr>max_next_weight := m\<rparr>"
  have "m \<noteq> NaN" using Cons.prems maxima_ok_weights suffix_max_notNaN by metis
  then have "f_max m (weight e) = suffix_max (?e # ys)" using Cons.prems by (simp add: f_max_eq)
  moreover have "maxima_ok (?e # ys)" using Cons.prems by simp
  ultimately show ?case using Cons.IH [of "?e # ys" "f_max m (weight e)"] Cons.prems(2) by auto
qed simp

definition same_entries :: "posting_element_ex list \<Rightarrow> posting_element_ex list \<Rightarrow> bool" where
  "same_entries xs ys \<longleftrightarrow> map record_id xs = map record_id ys \<and> map weight xs = map weight ys"

lemma map_take_drop: "map g (take i xs) @ map g (drop i xs) = map g xs"
  by (simp flip: map_append)

lemma propagate_ok:
  assumes i: "i < length es" and suffix: "maxima_ok (drop i es)" and w: "\<forall>e\<in>set es. weight e \<noteq> NaN"
  shows "maxima_ok (propagate_max_next_weight_to_the_left i es)" "same_entries (propagate_max_next_weight_to_the_left i es) es"
proof -
  let ?m = "max (max_next_weight (es ! i)) (weight (es ! i))"
  have d: "drop i es = es ! i # drop (Suc i) es" using i by (simp add: Cons_nth_drop_Suc)
  then have "?m = suffix_max (drop i es)" using suffix by simp
  moreover have "\<forall>e\<in>set (rev (take i es)). weight e \<noteq> NaN" using w by (auto dest: in_set_takeD)
  ultimately have p: "maxima_ok (rev (propagate_rev ?m (rev (take i es))) @ drop i es)"
    "map record_id (rev (propagate_rev ?m (rev (take i es)))) = rev (map record_id (rev (take i es)))"
    "map weight (rev (propagate_rev ?m (rev (take i es)))) = rev (map weight (rev (take i es)))"
    using propagate_rev_ok [OF suffix] by blast+
  then show "maxima_ok (propagate_max_next_weight_to_the_left i es)"
    by (simp add: propagate_max_next_weight_to_the_left_def Let_def)
  from p(2,3) show "same_entries (propagate_max_next_weight_to_the_left i es) es"
    by (simp add: propagate_max_next_weight_to_the_left_def same_entries_def Let_def rev_map map_take_drop)
qed

section \<open>Binary search\<close>

lemma binary_search_Inr:
  assumes "binary_search key keys = Inr i"
  shows "i < length keys" "keys ! i = key" "takeWhile (\<lambda>k. k < key) keys = take i keys"
proof -
  have i: "i = length (takeWhile (\<lambda>k. k < key) keys)" and "i < length keys \<and> keys ! i = key"
    using assms by (auto simp: binary_search_def Let_def split: if_splits)
  then show "i < length keys" "keys ! i = key" by auto
  show "takeWhile (\<lambda>k. k < key) keys = take i keys" unfolding i by (rule takeWhile_eq_take)
qed

lemma binary_search_Inl:
  assumes "binary_search key keys = Inl i" "sorted_wrt (<) keys"
  shows "i \<le> length keys" "\<forall>k\<in>set (take i keys). k < key" "\<forall>k\<in>set (drop i keys). key < k"
proof -
  have i: "i = length (takeWhile (\<lambda>k. k < key) keys)" and no: "\<not> (i < length keys \<and> keys ! i = key)"
    using assms(1) by (auto simp: binary_search_def Let_def split: if_splits)
  show "i \<le> length keys" using i by (simp add: length_takeWhile_le)
  show "\<forall>k\<in>set (take i keys). k < key" unfolding i takeWhile_eq_take [symmetric] by (auto dest: set_takeWhileD)
  show "\<forall>k\<in>set (drop i keys). key < k"
  proof (cases "i < length keys")
    case True
    then have "\<not> keys ! i < key" using i nth_length_takeWhile [of "\<lambda>k. k < key" keys] by simp
    with no True have "key < keys ! i" by simp
    moreover have "drop i keys = keys ! i # drop (Suc i) keys" using True by (simp add: Cons_nth_drop_Suc)
    moreover have "sorted_wrt (<) (drop i keys)" using assms(2) by (rule sorted_wrt_drop)
    ultimately show ?thesis by auto
  qed simp
qed

section \<open>Every operation keeps the invariant\<close>

definition entries :: "posting_element_ex list \<Rightarrow> (nat \<times> flt) list" where
  "entries es = map (\<lambda>e. (record_id e, weight e)) es"

lemma entries_zip: "entries es = zip (map record_id es) (map weight es)"
  by (simp add: entries_def zip_map_map zip_same_conv_map)

lemma same_entries_entries: "same_entries xs ys \<Longrightarrow> entries xs = entries ys"
  by (simp add: same_entries_def entries_zip)

lemma posting_ok_propagate:
  assumes "i < length es" "maxima_ok (drop i es)" "\<forall>e\<in>set es. weight e \<noteq> NaN" "sorted_wrt (<) (map record_id es)"
  shows "posting_ok (propagate_max_next_weight_to_the_left i es) \<and>
    entries (propagate_max_next_weight_to_the_left i es) = entries es"
  using propagate_ok [OF assms(1-3)] assms(4) by (auto simp: posting_ok_def same_entries_def intro: same_entries_entries)

lemma posting_ok_weights: "posting_ok es \<Longrightarrow> e \<in> set es \<Longrightarrow> weight e \<noteq> NaN"
  by (auto simp: posting_ok_def dest: maxima_ok_weights)

lemma posting_ok_drop: "posting_ok es \<Longrightarrow> maxima_ok (drop i es)"
  using maxima_ok_append [of "take i es" "drop i es"] by (simp add: posting_ok_def)

lemma distinct_record_ids: "posting_ok es \<Longrightarrow> distinct (map record_id es)"
  by (simp add: posting_ok_def strict_sorted_iff)

lemma sorted_insert_at:
  assumes "sorted_wrt (<) ks" "\<forall>k\<in>set (take i ks). k < x" "\<forall>k\<in>set (drop i ks). x < k"
  shows "sorted_wrt (<) (take i ks @ (x::nat) # drop i ks)"
proof -
  have "sorted_wrt (<) (take i ks @ drop i ks)" using assms(1) by simp
  with assms(2,3) show ?thesis by (fastforce simp: sorted_wrt_append)
qed

lemma map_of_insert_at:
  assumes "x \<notin> fst ` set xs"
  shows "map_of (xs @ (x, v) # ys) = (map_of (xs @ ys))(x \<mapsto> v)"
proof
  fix k
  have "map_of xs x = None" using assms by (simp add: map_of_eq_None_iff)
  then show "map_of (xs @ (x, v) # ys) k = ((map_of (xs @ ys))(x \<mapsto> v)) k"
    by (auto simp: map_add_def split: option.splits)
qed

lemma posting_upsert_ok:
  assumes ok: "posting_ok es" and e: "weight e \<noteq> NaN" "max_next_weight e = NInf"
  shows "posting_ok (posting_upsert e es) \<and> map_of (entries (posting_upsert e es)) = (map_of (entries es))(record_id e \<mapsto> weight e)"
proof (cases "binary_search (record_id e) (map record_id es)")
  case (Inr i)
  note b = binary_search_Inr [OF Inr]
  have i: "i < length es" "record_id (es ! i) = record_id e" using b by simp_all
  have mem: "(record_id e, weight (es ! i)) \<in> set (entries es)" using i nth_mem [OF i(1)] by (auto simp: entries_def intro!: image_eqI [of _ _ "es ! i"])
  have dist: "distinct (map fst (entries es))" using distinct_record_ids [OF ok] by (simp add: entries_def comp_def)
  show ?thesis
  proof (cases "f_eq (weight (es ! i)) (weight e)")
    case True
    then have "map_of (entries es) (record_id e) = Some (weight e)" using mem dist by (simp add: f_eq_def)
    with ok Inr True show ?thesis by (auto simp: posting_upsert_def)
  next
    case False
    let ?es = "es[i := (es ! i)\<lparr>weight := weight e\<rparr>]"
    have ids: "map record_id ?es = map record_id es" using i by (simp add: map_update) (metis list_update_id nth_map)
    have "drop i ?es = (es ! i)\<lparr>weight := weight e\<rparr> # drop (Suc i) es"
      using i by (simp add: drop_update_swap) (metis Cons_nth_drop_Suc list_update_code(2))
    moreover have "max_next_weight (es ! i) = suffix_max (drop (Suc i) es)" "maxima_ok (drop (Suc i) es)"
      using posting_ok_drop [OF ok, of i] i by (simp_all add: Cons_nth_drop_Suc [symmetric])
    ultimately have "maxima_ok (drop i ?es)" using e by simp
    moreover have "\<forall>x\<in>set ?es. weight x \<noteq> NaN"
      using posting_ok_weights [OF ok] e set_update_subset_insert [of es i] by fastforce
    ultimately have "posting_ok (propagate_max_next_weight_to_the_left i ?es) \<and>
        entries (propagate_max_next_weight_to_the_left i ?es) = entries ?es"
      using ok ids i by (intro posting_ok_propagate) (simp_all add: posting_ok_def)
    moreover have "map_of (entries ?es) = (map_of (entries es))(record_id e \<mapsto> weight e)"
    proof -
      let ?A = "take i (entries es)" and ?B = "drop (Suc i) (entries es)"
      have split: "entries es = ?A @ (record_id e, weight (es ! i)) # ?B"
        using i id_take_nth_drop [of i "entries es"] by (simp add: entries_def)
      have "distinct (map fst (?A @ (record_id e, weight (es ! i)) # ?B))" using dist split by simp
      then have no: "record_id e \<notin> fst ` set ?A" by auto
      have "entries ?es = (entries es)[i := (record_id e, weight e)]" using i by (simp add: entries_def map_update)
      also have "\<dots> = ?A @ (record_id e, weight e) # ?B" using i by (simp add: upd_conv_take_nth_drop entries_def)
      finally have "map_of (entries ?es) = (map_of (?A @ ?B))(record_id e \<mapsto> weight e)" using map_of_insert_at [OF no] by simp
      also have "\<dots> = (map_of (?A @ (record_id e, weight (es ! i)) # ?B))(record_id e \<mapsto> weight e)"
        unfolding map_of_insert_at [OF no] by simp
      also have "\<dots> = (map_of (entries es))(record_id e \<mapsto> weight e)" using split by simp
      finally show ?thesis .
    qed
    ultimately show ?thesis using Inr False by (simp add: posting_upsert_def)
  qed
next
  case (Inl i)
  have sorted: "sorted_wrt (<) (map record_id es)" using ok by (simp add: posting_ok_def)
  note b = binary_search_Inl [OF Inl sorted]
  let ?es = "take i es @ e # drop i es"
  have i: "i \<le> length es" using b(1) by simp
  have ids: "sorted_wrt (<) (map record_id ?es)"
    using sorted_insert_at [OF sorted b(2,3)] by (simp add: take_map drop_map)
  have w: "\<forall>x\<in>set ?es. weight x \<noteq> NaN"
    using posting_ok_weights [OF ok] e by (auto dest: in_set_takeD in_set_dropD)
  have suffix: "maxima_ok (drop (if i = length ?es - 1 then i else i + 1) ?es)"
    using i e posting_ok_drop [OF ok, of i] by (auto simp: min_def)
  have "posting_ok (posting_upsert e es) \<and> entries (posting_upsert e es) = entries ?es"
    using Inl posting_ok_propagate [OF _ suffix w ids] i by (auto simp: posting_upsert_def Let_def split: if_splits)
  moreover have "map_of (entries ?es) = (map_of (entries es))(record_id e \<mapsto> weight e)"
  proof -
    have "record_id e \<notin> fst ` set (take i (entries es))" using b(2) by (fastforce simp: entries_def take_map)
    from map_of_insert_at [OF this, of "weight e" "drop i (entries es)"] show ?thesis
      by (simp add: entries_def take_map drop_map map_take_drop)
  qed
  ultimately show ?thesis by simp
qed

lemma reset_last_ok: "maxima_ok ys \<Longrightarrow> ys \<noteq> [] \<Longrightarrow> reset_last (xs @ ys) = xs @ ys"
proof -
  assume ok: "maxima_ok ys" and ne: "ys \<noteq> []"
  have "max_next_weight (last ys) = NInf"
    using maxima_ok_append [of "butlast ys" "[last ys]"] ok ne by simp
  then have "(last ys)\<lparr>max_next_weight := DEFAULT_MAX_NEXT_WEIGHT\<rparr> = last ys"
    by (simp add: DEFAULT_MAX_NEXT_WEIGHT_def)
  with ne show ?thesis by (simp add: reset_last_def butlast_append)
qed

lemma reset_last_entries: "same_entries (reset_last xs) xs"
proof (cases xs rule: rev_cases)
  case Nil
  then show ?thesis by (simp add: reset_last_def same_entries_def)
next
  case (snoc ys y)
  then show ?thesis by (simp add: reset_last_def same_entries_def)
qed

lemma reset_last_last: "reset_last xs \<noteq> [] \<Longrightarrow> max_next_weight (last (reset_last xs)) = NInf"
  by (cases "xs = []") (simp_all add: reset_last_def DEFAULT_MAX_NEXT_WEIGHT_def)

lemma same_entries_length: "same_entries xs ys \<Longrightarrow> length xs = length ys"
  by (metis same_entries_def length_map)

lemma sorted_remove_at: "sorted_wrt P ks \<Longrightarrow> sorted_wrt P (take i ks @ drop (Suc i) ks)"
proof -
  assume s: "sorted_wrt P ks"
  have "sorted_wrt P (take i ks @ drop i ks)" using s by simp
  then have "\<forall>a\<in>set (take i ks). \<forall>b\<in>set (drop i ks). P a b" unfolding sorted_wrt_append by blast
  moreover have "set (drop (Suc i) ks) \<subseteq> set (drop i ks)" by (rule set_drop_subset_set_drop) simp
  ultimately show ?thesis using s by (auto simp: sorted_wrt_append sorted_wrt_take sorted_wrt_drop)
qed

lemma map_of_filter_key: "map_of (filter (\<lambda>p. fst p \<noteq> x) ps) = (map_of ps)(x := None)"
  by (induction ps) auto

lemma posting_delete_ok:
  assumes ok: "posting_ok es"
  shows "posting_ok (posting_delete x es) \<and> map_of (entries (posting_delete x es)) = (map_of (entries es))(x := None)"
proof (cases "binary_search x (map record_id es)")
  case (Inl i)
  have "sorted_wrt (<) (map record_id es)" using ok by (simp add: posting_ok_def)
  from binary_search_Inl [OF Inl this] have "x \<notin> record_id ` set es"
    by (metis append_take_drop_id less_irrefl list.set_map set_append Un_iff)
  then have "map_of (entries es) x = None" by (auto simp: map_of_eq_None_iff entries_def)
  with ok Inl show ?thesis by (auto simp: posting_delete_def)
next
  case (Inr i)
  have i: "i < length es" "record_id (es ! i) = x" using binary_search_Inr [OF Inr] by simp_all
  let ?cut = "take i es @ drop (Suc i) es" let ?es = "reset_last ?cut"
  have same: "same_entries ?es ?cut" by (rule reset_last_entries)
  then have ids: "map record_id ?es = map record_id ?cut" and len: "length ?es = length es - 1"
    using i same_entries_length [OF same] by (simp_all add: same_entries_def)
  have sorted: "sorted_wrt (<) (map record_id ?es)"
    unfolding ids using sorted_remove_at [of "(<)" "map record_id es" i] ok by (simp add: posting_ok_def take_map drop_map)
  have "map weight ?es = map weight ?cut" using same by (simp add: same_entries_def)
  then have "weight ` set ?es = weight ` set ?cut" by (metis set_map)
  moreover have "\<forall>e\<in>set ?cut. weight e \<noteq> NaN" using posting_ok_weights [OF ok] by (auto dest: in_set_takeD in_set_dropD)
  ultimately have w: "\<forall>e\<in>set ?es. weight e \<noteq> NaN" by (metis imageE imageI)
  let ?k = "if i < length ?es then i else length ?es - 1"
  have "posting_ok (posting_delete x es) \<and> entries (posting_delete x es) = entries ?es"
  proof (cases "?es = []")
    case True
    then show ?thesis using Inr by (simp add: posting_delete_def Let_def posting_ok_def)
  next
    case False
    have "maxima_ok (drop ?k ?es)"
    proof (cases "i < length ?es")
      case True
      then have "drop (Suc i) es \<noteq> []" using len by simp
      with reset_last_ok [OF posting_ok_drop [OF ok, of "Suc i"]] have "?es = ?cut" by blast
      with posting_ok_drop [OF ok, of "Suc i"] i True show ?thesis by simp
    next
      case no: False
      then have "drop ?k ?es = [last ?es]" using False
        by (simp add: last_conv_nth Cons_nth_drop_Suc [symmetric])
      moreover have "max_next_weight (last ?es) = NInf" using reset_last_last [OF False] .
      ultimately show ?thesis using w False by simp
    qed
    from posting_ok_propagate [OF _ this w sorted] False show ?thesis
      using Inr by (auto simp: posting_delete_def Let_def split: if_splits)
  qed
  moreover have "map_of (entries ?es) = (map_of (entries es))(x := None)"
  proof -
    have "entries ?es = entries ?cut" using same by (rule same_entries_entries)
    also have "\<dots> = take i (entries es) @ drop (Suc i) (entries es)" by (simp add: entries_def take_map drop_map)
    also have "\<dots> = filter (\<lambda>p. fst p \<noteq> x) (entries es)"
    proof -
      let ?A = "take i (entries es)" and ?B = "drop (Suc i) (entries es)"
      have split: "entries es = ?A @ (x, weight (es ! i)) # ?B"
        using i id_take_nth_drop [of i "entries es"] by (simp add: entries_def)
      have "distinct (map fst (entries es))" using distinct_record_ids [OF ok] by (simp add: entries_def comp_def)
      then have "distinct (map fst (?A @ (x, weight (es ! i)) # ?B))" using split by simp
      then have "x \<notin> fst ` set ?A" "x \<notin> fst ` set ?B" by auto
      then have "filter (\<lambda>p. fst p \<noteq> x) ?A = ?A" "filter (\<lambda>p. fst p \<noteq> x) ?B = ?B"
        by (auto intro!: filter_True)
      then have "filter (\<lambda>p. fst p \<noteq> x) (?A @ (x, weight (es ! i)) # ?B) = ?A @ ?B" by simp
      with split show ?thesis by simp
    qed
    finally have "map_of (entries ?es) = map_of (filter (\<lambda>p. fst p \<noteq> x) (entries es))" by simp
    also have "\<dots> = (map_of (entries es))(x := None)" by (rule map_of_filter_key)
    finally show ?thesis .
  qed
  ultimately show ?thesis by simp
qed

lemma posting_build_ok:
  assumes "distinct (map fst records)" "\<forall>r\<in>set records. snd r \<noteq> NaN"
  shows "posting_ok (posting_build records) \<and> map_of (entries (posting_build records)) = map_of records"
proof -
  let ?es = "sort_key record_id (map (\<lambda>(point, w). posting_element_new point w) records)"
  have ids: "map record_id (map (\<lambda>(point, w). posting_element_new point w) records) = map fst records"
    by (auto simp: posting_element_new_def)
  have "\<forall>e\<in>set (rev ?es). weight e \<noteq> NaN" using assms(2) by (auto simp: posting_element_new_def)
  from propagate_rev_ok [OF _ this, of "[]" NInf] have p: "maxima_ok (posting_build records)"
    "map record_id (posting_build records) = map record_id ?es" "map weight (posting_build records) = map weight ?es"
    by (simp_all add: posting_build_def rev_map)
  have "mset (map record_id ?es) = mset (map fst records)" unfolding ids [symmetric] mset_map mset_sort ..
  with assms(1) have d: "distinct (map record_id ?es)" using mset_eq_imp_distinct_iff by blast
  have "sorted (map record_id ?es)" by (rule sorted_sort_key)
  with d p have "posting_ok (posting_build records)" by (simp add: posting_ok_def strict_sorted_iff)
  moreover have "entries (posting_build records) = entries ?es" using p(2,3) by (simp add: entries_zip)
  moreover have "mset (entries ?es) = mset records"
  proof -
    have "mset (entries ?es) = mset (entries (map (\<lambda>(point, w). posting_element_new point w) records))"
      unfolding entries_def mset_map mset_sort ..
    also have "entries (map (\<lambda>(point, w). posting_element_new point w) records) = records"
      by (induction records) (auto simp: entries_def posting_element_new_def)
    finally show ?thesis .
  qed
  then have "set (entries ?es) = set records" by (metis set_mset_mset)
  moreover have "distinct (map fst (entries ?es))" using d by (simp add: entries_def comp_def)
  ultimately show ?thesis using map_of_inject_set [OF _ assms(1), of "entries ?es"] by simp
qed

section \<open>The contract of a posting iterator\<close>

text \<open>
  \<open>all_of it\<close> is the whole posting list and \<open>todo it\<close> the part the iterator has not passed.
  The ranking relies on these laws alone.
\<close>

locale posting_iter =
  fixes ops :: "'it posting_list_iter" and all_of todo :: "'it \<Rightarrow> (nat \<times> flt) list" and ok :: "'it \<Rightarrow> bool"
  assumes iter_sorted: "ok it \<Longrightarrow> sorted_wrt (<) (map fst (all_of it))"
    and iter_weights: "ok it \<Longrightarrow> e \<in> set (all_of it) \<Longrightarrow> is_finite (snd e)"
    and iter_suffix: "ok it \<Longrightarrow> \<exists>passed. all_of it = passed @ todo it"
    and iter_peek: "ok it \<Longrightarrow> pi_peek ops it = (r, it') \<Longrightarrow>
        r = (case todo it of [] \<Rightarrow> None | e # _ \<Rightarrow> Some e) \<and> ok it' \<and> all_of it' = all_of it \<and> todo it' = todo it"
    and iter_last_id: "ok it \<Longrightarrow> pi_last_id ops it = (if all_of it = [] then None else Some (fst (last (all_of it))))"
    and iter_len: "ok it \<Longrightarrow> pi_len_to_end ops it = length (todo it)"
    and iter_skip_to: "ok it \<Longrightarrow> ok (pi_skip_to ops point it) \<and> all_of (pi_skip_to ops point it) = all_of it \<and>
        todo (pi_skip_to ops point it) = dropWhile (\<lambda>e. fst e < point) (todo it)"
    and iter_skip_till: "ok it \<Longrightarrow> ok (pi_skip_till_id ops point it) \<and> all_of (pi_skip_till_id ops point it) = all_of it \<and>
        todo (pi_skip_till_id ops point it) = dropWhile (\<lambda>e. fst e \<le> point) (todo it)"
    and iter_for_each: "ok it \<Longrightarrow> pi_for_each_till_id ops point it = (es, it') \<Longrightarrow>
        es = takeWhile (\<lambda>e. fst e \<le> point) (todo it) \<and> ok it' \<and> all_of it' = all_of it \<and>
        todo it' = dropWhile (\<lambda>e. fst e \<le> point) (todo it)"
    and iter_max_weight: "ok it \<Longrightarrow> all_of it = passed @ todo it \<Longrightarrow> \<forall>e\<in>set passed. fst e \<le> point \<Longrightarrow>
        \<exists>m. pi_max_weight_till_id ops point it = Inr (Some m) \<and> is_finite m \<and> f_nonneg m \<and>
          (\<forall>e\<in>set (takeWhile (\<lambda>e. fst e \<le> point) (todo it)). snd e \<le> m)"
    and iter_fill: "ok it \<Longrightarrow> 0 < width \<Longrightarrow> pi_fill_block_max_ranges ops start width n it = Some ms \<Longrightarrow>
        length ms = n \<and> (\<forall>m\<in>set ms. is_finite m \<and> f_nonneg m) \<and>
        (\<forall>e\<in>set (all_of it). (fst e - start) div width < n \<longrightarrow> snd e \<le> ms ! ((fst e - start) div width))"

section \<open>The iterator of the mutable list keeps the contract\<close>

definition ram_ok :: "posting_list_iterator \<Rightarrow> bool" where
  "ram_ok it \<longleftrightarrow> posting_ok (elements it) \<and> (\<forall>e\<in>set (elements it). is_finite (weight e)) \<and>
     current_index it \<le> length (elements it)"

definition ram_all :: "posting_list_iterator \<Rightarrow> (nat \<times> flt) list" where
  "ram_all it = entries (elements it)"

definition ram_todo :: "posting_list_iterator \<Rightarrow> (nat \<times> flt) list" where
  "ram_todo it = drop (current_index it) (entries (elements it))"

lemma entries_takeWhile:
  "entries (takeWhile (\<lambda>e. P (record_id e)) es) = takeWhile (\<lambda>e. P (fst e)) (entries es)"
  by (induction es) (auto simp: entries_def)

lemma drop_length_takeWhile: "drop (length (takeWhile P xs)) xs = dropWhile P xs"
  by (metis append_eq_conv_conj takeWhile_dropWhile_id)

lemma binary_search_position:
  assumes "sorted_wrt (<) keys"
  shows "binary_search key keys = Inr i \<Longrightarrow> i = length (takeWhile (\<lambda>k. k < key) keys)"
    and "binary_search key keys = Inl i \<Longrightarrow> i = length (takeWhile (\<lambda>k. k < key) keys)"
  by (auto simp: binary_search_def Let_def split: if_splits)

lemma is_finite_cases: "is_finite x \<longleftrightarrow> (\<exists>a. x = Fin a)"
  by (cases x) simp_all

lemma foldl_f_max:
  assumes "\<forall>w\<in>set ws. is_finite w" "is_finite m" "f_nonneg m"
  shows "is_finite (foldl f_max m ws) \<and> f_nonneg (foldl f_max m ws) \<and> m \<le> foldl f_max m ws \<and>
    (\<forall>w\<in>set ws. w \<le> foldl f_max m ws)"
  using assms
proof (induction ws arbitrary: m)
  case (Cons w ws)
  have "is_finite (f_max m w)" "f_nonneg (f_max m w)" "m \<le> f_max m w" "w \<le> f_max m w"
    using Cons.prems by (auto simp: is_finite_cases f_max_def max_def)
  with Cons.IH [of "f_max m w"] Cons.prems show ?case by auto
qed simp

lemma dropWhile_le_step:
  assumes "sorted_wrt (<) (map fst xs)"
  shows "dropWhile (\<lambda>e. fst e \<le> (p::nat)) xs =
    (case dropWhile (\<lambda>e. fst e < p) xs of [] \<Rightarrow> [] | e # es \<Rightarrow> if fst e = p then es else e # es)"
  using assms
proof (induction xs)
  case (Cons x xs)
  show ?case
  proof (cases "fst x < p")
    case True
    with Cons show ?thesis by simp
  next
    case False
    then have "dropWhile (\<lambda>e. fst e \<le> p) xs = xs" if "fst x = p"
      using Cons.prems that by (cases xs) auto
    with False show ?thesis by auto
  qed
qed simp

lemma ram_sorted: "ram_ok it \<Longrightarrow> sorted_wrt (<) (map fst (entries (elements it)))"
  by (simp add: ram_ok_def posting_ok_def entries_def comp_def)

lemma ram_todo_drop: "ram_todo it = entries (drop (current_index it) (elements it))"
  by (simp add: ram_todo_def entries_def drop_map)

lemma map_fst_entries: "map fst (entries es) = map record_id es"
  by (simp add: entries_def)

lemma length_entries [simp]: "length (entries es) = length es"
  by (simp add: entries_def)

lemma ram_skip_to:
  assumes ok: "ram_ok it" and skip: "iterator_skip_to point it = (r, it')"
  shows "ram_ok it'" "elements it' = elements it" "ram_todo it' = dropWhile (\<lambda>e. fst e < point) (ram_todo it)"
    "r \<noteq> None \<longleftrightarrow> (\<exists>e es. ram_todo it' = e # es \<and> fst e = point)"
proof -
  let ?rest = "drop (current_index it) (elements it)"
  let ?n = "length (takeWhile (\<lambda>k. k < point) (map record_id ?rest))"
  have sorted: "sorted_wrt (<) (map record_id ?rest)"
    using ok by (simp add: ram_ok_def posting_ok_def drop_map [symmetric] sorted_wrt_drop)
  have n: "?n = length (takeWhile (\<lambda>e. fst e < point) (ram_todo it))"
    by (simp add: ram_todo_drop map_fst_entries [symmetric] takeWhile_map comp_def)
  have le: "?n \<le> length ?rest" using length_takeWhile_le [of "\<lambda>k. k < point" "map record_id ?rest"] by simp
  have all: "it' = it\<lparr>current_index := current_index it + ?n\<rparr> \<and>
      (r \<noteq> None \<longleftrightarrow> (?n < length ?rest \<and> map record_id ?rest ! ?n = point))"
    using skip by (auto simp: iterator_skip_to_def binary_search_def Let_def split: if_splits)
  with ok le show "ram_ok it'" "elements it' = elements it" by (auto simp: ram_ok_def)
  have t: "ram_todo it' = drop ?n (ram_todo it)" using all by (simp add: ram_todo_def ac_simps)
  then show "ram_todo it' = dropWhile (\<lambda>e. fst e < point) (ram_todo it)" using n by (simp add: drop_length_takeWhile)
  have len: "length (ram_todo it) = length ?rest" by (simp add: ram_todo_drop)
  have key: "fst (ram_todo it ! ?n) = map record_id ?rest ! ?n" if "?n < length ?rest"
    using that by (simp add: ram_todo_drop entries_def)
  show "r \<noteq> None \<longleftrightarrow> (\<exists>e es. ram_todo it' = e # es \<and> fst e = point)"
  proof (cases "?n < length ?rest")
    case True
    then have "ram_todo it' = ram_todo it ! ?n # drop (Suc ?n) (ram_todo it)" using t len by (simp add: Cons_nth_drop_Suc)
    with True key all show ?thesis by auto
  next
    case False
    then have "ram_todo it' = []" using t len by simp
    with False all show ?thesis by simp
  qed
qed

lemma ram_skip_till:
  assumes ok: "ram_ok it"
  shows "ram_ok (iterator_skip_till_id point it)" "elements (iterator_skip_till_id point it) = elements it"
    "ram_todo (iterator_skip_till_id point it) = dropWhile (\<lambda>e. fst e \<le> point) (ram_todo it)"
proof -
  obtain r it' where skip: "iterator_skip_to point it = (r, it')" by fastforce
  note s = ram_skip_to [OF ok skip]
  have sorted: "sorted_wrt (<) (map fst (ram_todo it))"
    using ram_sorted [OF ok] by (simp add: ram_todo_def drop_map [symmetric] sorted_wrt_drop)
  have idx: "current_index it' < length (elements it')" if "ram_todo it' = e # es" for e es
    using that by (simp add: ram_todo_def) (metis drop_eq_Nil2 length_entries list.distinct(1) not_le)
  have tl: "ram_todo (it'\<lparr>current_index := current_index it' + 1\<rparr>) = tl (ram_todo it')"
    by (simp add: ram_todo_def tl_drop drop_Suc)
  have "ram_ok (iterator_skip_till_id point it) \<and> elements (iterator_skip_till_id point it) = elements it \<and>
    ram_todo (iterator_skip_till_id point it) = dropWhile (\<lambda>e. fst e \<le> point) (ram_todo it)"
  proof (cases r)
    case None
    then have "\<nexists>e es. ram_todo it' = e # es \<and> fst e = point" using s(4) by simp
    then show ?thesis using None skip s(1,2,3) dropWhile_le_step [OF sorted, of point]
      by (auto simp: iterator_skip_till_id_def split: list.splits)
  next
    case (Some a)
    then obtain e es where e: "ram_todo it' = e # es" "fst e = point" using s(4) by auto
    have "iterator_skip_till_id point it = it'\<lparr>current_index := current_index it' + 1\<rparr>"
      using Some skip idx [OF e(1)] by (simp add: iterator_skip_till_id_def iterator_advance_def)
    moreover have "dropWhile (\<lambda>e. fst e \<le> point) (ram_todo it) = es"
      using dropWhile_le_step [OF sorted, of point] unfolding s(3) [symmetric] e(1) using e(2) by simp
    ultimately show ?thesis using s(1,2) idx [OF e(1)] tl e(1) by (simp add: ram_ok_def)
  qed
  then show "ram_ok (iterator_skip_till_id point it)" "elements (iterator_skip_till_id point it) = elements it"
    "ram_todo (iterator_skip_till_id point it) = dropWhile (\<lambda>e. fst e \<le> point) (ram_todo it)" by auto
qed

lemma ram_for_each:
  assumes ok: "ram_ok it" and each: "iterator_for_each_till_id point it = (es, it')"
  shows "es = takeWhile (\<lambda>e. fst e \<le> point) (ram_todo it)" "ram_ok it'" "elements it' = elements it"
    "ram_todo it' = dropWhile (\<lambda>e. fst e \<le> point) (ram_todo it)"
proof -
  let ?v = "takeWhile (\<lambda>e. record_id e \<le> point) (drop (current_index it) (elements it))"
  have v: "entries ?v = takeWhile (\<lambda>e. fst e \<le> point) (ram_todo it)"
    using entries_takeWhile [of "\<lambda>i. i \<le> point"] by (simp add: ram_todo_drop)
  have it': "it' = it\<lparr>current_index := current_index it + length ?v\<rparr>" and es: "es = entries ?v"
    using each by (auto simp: iterator_for_each_till_id_def Let_def entries_def)
  show "es = takeWhile (\<lambda>e. fst e \<le> point) (ram_todo it)" using es v by simp
  show "elements it' = elements it" using it' by simp
  have len: "length ?v = length (takeWhile (\<lambda>e. fst e \<le> point) (ram_todo it))" using v length_entries by metis
  show "ram_todo it' = dropWhile (\<lambda>e. fst e \<le> point) (ram_todo it)"
    unfolding drop_length_takeWhile [symmetric] len [symmetric] using it' by (simp add: ram_todo_def ac_simps)
  have "length ?v \<le> length (drop (current_index it) (elements it))" by (rule length_takeWhile_le)
  with ok it' show "ram_ok it'" by (auto simp: ram_ok_def)
qed

interpretation ram: posting_iter ram_iter ram_all ram_todo ram_ok
proof
  fix it it' :: posting_list_iterator and point and r :: "(nat \<times> flt) option" and es passed :: "(nat \<times> flt) list"
  assume ok: "ram_ok it"
  show "sorted_wrt (<) (map fst (ram_all it))" using ram_sorted [OF ok] by (simp add: ram_all_def)
  show "is_finite (snd e)" if "e \<in> set (ram_all it)" for e
    using that ok by (auto simp: ram_all_def entries_def ram_ok_def)
  show "\<exists>passed. ram_all it = passed @ ram_todo it"
    by (simp add: ram_all_def ram_todo_def) (metis append_take_drop_id)
  show "r = (case ram_todo it of [] \<Rightarrow> None | e # _ \<Rightarrow> Some e) \<and> ram_ok it' \<and> ram_all it' = ram_all it \<and> ram_todo it' = ram_todo it"
    if "pi_peek ram_iter it = (r, it')"
  proof -
    have "ram_todo it = (if current_index it < length (elements it)
        then (record_id (elements it ! current_index it), weight (elements it ! current_index it)) # drop (Suc (current_index it)) (entries (elements it))
        else [])"
      by (simp add: ram_todo_def Cons_nth_drop_Suc [symmetric]) (simp add: entries_def)
    with that ok show ?thesis by (auto simp: ram_iter_def iterator_peek_def split: if_splits)
  qed
  show "pi_last_id ram_iter it = (if ram_all it = [] then None else Some (fst (last (ram_all it))))"
    by (simp add: ram_iter_def iterator_last_id_def ram_all_def entries_def last_map)
  show "pi_len_to_end ram_iter it = length (ram_todo it)"
    by (simp add: ram_iter_def iterator_len_to_end_def ram_todo_def)
  obtain q it2 where "iterator_skip_to point it = (q, it2)" by fastforce
  with ram_skip_to [OF ok this] show "ram_ok (pi_skip_to ram_iter point it) \<and> ram_all (pi_skip_to ram_iter point it) = ram_all it \<and>
      ram_todo (pi_skip_to ram_iter point it) = dropWhile (\<lambda>e. fst e < point) (ram_todo it)"
    by (simp add: ram_iter_def ram_all_def)
  show "ram_ok (pi_skip_till_id ram_iter point it) \<and> ram_all (pi_skip_till_id ram_iter point it) = ram_all it \<and>
      ram_todo (pi_skip_till_id ram_iter point it) = dropWhile (\<lambda>e. fst e \<le> point) (ram_todo it)"
    using ram_skip_till [OF ok] by (simp add: ram_iter_def ram_all_def)
  show "es = takeWhile (\<lambda>e. fst e \<le> point) (ram_todo it) \<and> ram_ok it' \<and> ram_all it' = ram_all it \<and>
      ram_todo it' = dropWhile (\<lambda>e. fst e \<le> point) (ram_todo it)" if "pi_for_each_till_id ram_iter point it = (es, it')"
    using that ram_for_each [OF ok, of point es it'] by (simp add: ram_iter_def ram_all_def)
  show "\<exists>m. pi_max_weight_till_id ram_iter point it = Inr (Some m) \<and> is_finite m \<and> f_nonneg m \<and>
      (\<forall>e\<in>set (takeWhile (\<lambda>e. fst e \<le> point) (ram_todo it)). snd e \<le> m)"
  proof -
    let ?v = "takeWhile (\<lambda>e. record_id e \<le> point) (drop (current_index it) (elements it))"
    have "\<forall>w\<in>set (map weight ?v). is_finite w"
      using ok by (auto simp: ram_ok_def dest!: set_takeWhileD in_set_dropD)
    moreover have "takeWhile (\<lambda>e. fst e \<le> point) (ram_todo it) = entries ?v"
      using entries_takeWhile [of "\<lambda>i. i \<le> point"] by (simp add: ram_todo_drop)
    ultimately show ?thesis using foldl_f_max [of "map weight ?v" "Fin 0"]
      by (auto simp: ram_iter_def iterator_max_weight_till_id_def entries_def)
  qed
next
  show "length ms = n \<and> (\<forall>m\<in>set ms. is_finite m \<and> f_nonneg m) \<and>
      (\<forall>e\<in>set (ram_all it). (fst e - start) div width < n \<longrightarrow> snd e \<le> ms ! ((fst e - start) div width))"
    if "pi_fill_block_max_ranges ram_iter start width n it = Some ms" for it start width n ms
    using that by (simp add: ram_iter_def)
qed

section \<open>Properties\<close>

fun posting_edits :: "(nat \<times> flt option) list \<Rightarrow> posting_element_ex list \<Rightarrow> posting_element_ex list" where
  "posting_edits [] es = es"
| "posting_edits ((point, Some w) # edits) es = posting_edits edits (posting_upsert (posting_element_new point w) es)"
| "posting_edits ((point, None) # edits) es = posting_edits edits (posting_delete point es)"

fun edited :: "(nat \<times> flt option) list \<Rightarrow> (nat \<Rightarrow> flt option) \<Rightarrow> nat \<Rightarrow> flt option" where
  "edited [] m = m"
| "edited ((point, w) # edits) m = edited edits (m(point := w))"

lemma posting_edits_ok:
  "posting_ok es \<Longrightarrow> \<forall>(point, w)\<in>set edits. w \<noteq> Some NaN \<Longrightarrow>
     posting_ok (posting_edits edits es) \<and> map_of (entries (posting_edits edits es)) = edited edits (map_of (entries es))"
proof (induction edits es rule: posting_edits.induct)
  case (2 point w edits es)
  have "posting_ok (posting_upsert (posting_element_new point w) es) \<and>
      map_of (entries (posting_upsert (posting_element_new point w) es)) = (map_of (entries es))(point \<mapsto> w)"
    using posting_upsert_ok [OF 2(2), of "posting_element_new point w"] 2(3)
    by (simp add: posting_element_new_def DEFAULT_MAX_NEXT_WEIGHT_def)
  with 2 show ?case by (simp add: fun_upd_def)
next
  case (3 point edits es)
  with posting_delete_ok [OF 3(2), of point] show ?case by (simp add: fun_upd_def)
qed simp

text \<open>C27. The mutable posting list is a map with correct suffix maxima: after building it from records with distinct
  ids and any sequence of upserts and deletes, its ids ascend strictly, every element stores the greatest weight to its
  right, and looking up an id gives what the records and the edits say.\<close>

theorem posting_list_is_map:
  assumes "distinct (map fst records)" and "\<forall>r\<in>set records. snd r \<noteq> NaN" and "\<forall>(point, w)\<in>set edits. w \<noteq> Some NaN"
  shows "posting_ok (posting_edits edits (posting_build records)) \<and>
    map_of (entries (posting_edits edits (posting_build records))) = edited edits (map_of records)"
  using posting_edits_ok [OF _ assms(3)] posting_build_ok [OF assms(1,2)] by metis

theorem posting_list_is_map_witness:
  "posting_ok (posting_edits [(7, Some (Fin 4)), (3, None)] (posting_build [(5, Fin 1), (3, Fin 2)])) \<and>
   map_of (entries (posting_edits [(7, Some (Fin 4)), (3, None)] (posting_build [(5, Fin 1), (3, Fin 2)]))) =
     edited [(7, Some (Fin 4)), (3, None)] (map_of [(5, Fin 1), (3, Fin 2)])"
  using posting_list_is_map [of "[(5, Fin 1), (3, Fin 2)]" "[(7, Some (Fin 4)), (3, None)]"] by simp

end
