(* ===== verification/Posting_Block_Max.thy ===== *)
theory Posting_Block_Max
  imports Dense_Rank Sparse_Posting "HOL-Library.Sublist"
begin

text \<open>
  The exact sparse ranking of \<open>src/lib/sparse/src/index/posting_block_max/\<close>: ids are cut
  into batches, every batch gets an upper bound from the block maxima of the query's
  posting lists, and batches are scored best bound first until the next point is fixed.

  The index is a function from a dimension to its posting iterator or a reader error,
  here the printed error with the operation error it converts to. The iterator type is a
  parameter with its operations. The stop flag is a function from the number of loads so
  far to the value read; \<open>polls\<close> counts the loads. The four counters of allocator
  capacities in the telemetry are left out.
\<close>

section \<open>Types\<close>

type_synonym io_error = "string \<times> operation_error"

record remapped_sparse_vector =
  rsv_indices :: "nat list"
  rsv_values :: "flt list"

record posting_block_max_telemetry =
  cursor_started :: bool
  query_terms :: nat
  query_posting_elements :: nat
  persisted_query_terms :: nat
  posting_lists :: nat
  batches :: nat
  bound_evaluations :: nat
  zero_bound_batches :: nat
  batches_expanded :: nat
  posting_elements_visited :: nat
  nonzero_documents_scored :: nat
  bm_points_emitted :: nat
  max_pending_batches :: nat
  max_pending_points :: nat
  max_buffered_points :: nat
  score_buffer_slots :: nat
  max_score_buffer_slots :: nat
  chunks_decoded :: nat
  pause_count :: nat

definition default_bm_telemetry :: posting_block_max_telemetry where
  "default_bm_telemetry =
     \<lparr>cursor_started = False, query_terms = 0, query_posting_elements = 0, persisted_query_terms = 0, posting_lists = 0,
      batches = 0, bound_evaluations = 0, zero_bound_batches = 0, batches_expanded = 0, posting_elements_visited = 0,
      nonzero_documents_scored = 0, bm_points_emitted = 0, max_pending_batches = 0, max_pending_points = 0,
      max_buffered_points = 0, score_buffer_slots = 0, max_score_buffer_slots = 0, chunks_decoded = 0, pause_count = 0\<rparr>"

text \<open>\<open>SparsePanicked\<close> stands for the panics and the unchecked access of the scoring kernel.\<close>

datatype exact_sparse_stream_error =
    SparseCancelled
  | ReaderFailure string
  | CertificateViolation nat flt flt
  | SparsePanicked message

record pending_batch =
  pt_start :: nat
  pt_end :: nat
  pt_upper_bound :: flt

definition pending_batch_cmp :: "pending_batch \<Rightarrow> pending_batch \<Rightarrow> ordering" where
  "pending_batch_cmp a b =
     then_with (cmp (pt_upper_bound a) (pt_upper_bound b)) (cmp (pt_start b) (pt_start a))"

definition pending_batch_le :: "pending_batch \<Rightarrow> pending_batch \<Rightarrow> bool" where
  "pending_batch_le a b = is_le (pending_batch_cmp a b)"

definition pending_block_point_cmp :: "scored_point_offset \<Rightarrow> scored_point_offset \<Rightarrow> ordering" where
  "pending_block_point_cmp a b = then_with (cmp (so_score a) (so_score b)) (cmp (so_idx b) (so_idx a))"

definition pending_block_point_le :: "scored_point_offset \<Rightarrow> scored_point_offset \<Rightarrow> bool" where
  "pending_block_point_le a b = is_le (pending_block_point_cmp a b)"

record sparse_pending_point =
  sq_point :: scored_point_offset
  sq_batch_index :: nat

definition sparse_pending_cmp :: "sparse_pending_point \<Rightarrow> sparse_pending_point \<Rightarrow> ordering" where
  "sparse_pending_cmp a b =
     then_with (cmp (so_score (sq_point a)) (so_score (sq_point b))) (cmp (so_idx (sq_point b)) (so_idx (sq_point a)))"

definition sparse_pending_le :: "sparse_pending_point \<Rightarrow> sparse_pending_point \<Rightarrow> bool" where
  "sparse_pending_le a b = is_le (sparse_pending_cmp a b)"

record 'it weighted_posting =
  wp_iterator :: 'it
  wp_query_weight :: flt

record posting_block_max_kernel =
  kn_query :: remapped_sparse_vector
  kn_active_batches :: "scored_point_offset list list"
  kn_scores :: "flt list"

record posting_block_max_state =
  bm_kernel :: posting_block_max_kernel
  bm_pending_batches :: "pending_batch list"
  bm_pending_points :: "sparse_pending_point list"
  bm_buffered_points :: nat
  bm_telemetry :: posting_block_max_telemetry
  bm_terminal_error :: "exact_sparse_stream_error option"

section \<open>Scoring one batch\<close>

fun add_scores :: "nat \<Rightarrow> flt \<Rightarrow> (nat \<times> flt) list \<Rightarrow> flt list \<Rightarrow> exact_sparse_stream_error + flt list" where
  "add_scores start q [] scores = Inr scores"
| "add_scores start q ((point, w) # es) scores =
     (if point < start \<or> length scores \<le> point - start
      then Inl (SparsePanicked (Text ''score slot out of the batch''))
      else add_scores start q es
             (scores[point - start := f_add F32 (scores ! (point - start)) (f_mul F32 w q)]))"

fun score_postings ::
  "'it posting_list_iter \<Rightarrow> nat \<Rightarrow> nat \<Rightarrow> 'it weighted_posting list \<Rightarrow> nat \<Rightarrow> flt list
     \<Rightarrow> exact_sparse_stream_error + nat \<times> flt list" where
  "score_postings ops start stop [] visited scores = Inr (visited, scores)"
| "score_postings ops start stop (p # ps) visited scores =
     (let it = pi_skip_to ops start (wp_iterator p); elements_before = pi_len_to_end ops it
      in case pi_for_each_till_id ops stop it of
           (es, it') \<Rightarrow>
             (case add_scores start (wp_query_weight p) es scores of
                Inl e \<Rightarrow> Inl e
              | Inr scores' \<Rightarrow>
                  score_postings ops start stop ps (visited + (elements_before - pi_len_to_end ops it')) scores'))"

definition score_posting_batch ::
  "'it posting_list_iter \<Rightarrow> 'it weighted_posting list \<Rightarrow> nat \<Rightarrow> nat \<Rightarrow> exact_sparse_stream_error + nat \<times> flt list" where
  "score_posting_batch ops postings batch_start_id batch_last_id =
     score_postings ops batch_start_id batch_last_id postings 0 (replicate (batch_last_id - batch_start_id + 1) (Fin 0))"

fun open_terms ::
  "'it posting_list_iter \<Rightarrow> (nat \<Rightarrow> io_error + 'it) \<Rightarrow> (nat \<times> flt) list \<Rightarrow> io_error + 'it weighted_posting list" where
  "open_terms ops index [] = Inr []"
| "open_terms ops index ((dim_id, q) # terms) =
     (case index dim_id of
        Inl e \<Rightarrow> Inl e
      | Inr it \<Rightarrow>
          (case open_terms ops index terms of
             Inl e \<Rightarrow> Inl e
           | Inr ps \<Rightarrow>
               Inr (if pi_last_id ops it = None then ps else \<lparr>wp_iterator = it, wp_query_weight = q\<rparr> # ps)))"

definition open_postings ::
  "'it posting_list_iter \<Rightarrow> (nat \<Rightarrow> io_error + 'it) \<Rightarrow> remapped_sparse_vector \<Rightarrow> io_error + 'it weighted_posting list" where
  "open_postings ops index query = open_terms ops index (zip (rsv_indices query) (rsv_values query))"

fun collect_scored_points ::
  "(nat \<Rightarrow> bool) \<Rightarrow> nat \<Rightarrow> flt \<Rightarrow> nat \<Rightarrow> flt list \<Rightarrow> nat \<Rightarrow> posting_block_max_telemetry
     \<Rightarrow> (exact_sparse_stream_error + scored_point_offset list) \<times> nat \<times> posting_block_max_telemetry" where
  "collect_scored_points stopped batch_start upper offset [] polls tel = (Inr [], polls, tel)"
| "collect_scored_points stopped batch_start upper offset (score # scores) polls tel =
     (if stopped polls then (Inl SparseCancelled, Suc polls, tel)
      else if f_eq score (Fin 0)
      then collect_scored_points stopped batch_start upper (Suc offset) scores (Suc polls) tel
      else let point = batch_start + offset
           in if f_lt upper score then (Inl (CertificateViolation point score upper), Suc polls, tel)
              else case collect_scored_points stopped batch_start upper (Suc offset) scores (Suc polls)
                          (tel\<lparr>nonzero_documents_scored := nonzero_documents_scored tel + 1\<rparr>) of
                     (Inl e, polls', tel') \<Rightarrow> (Inl e, polls', tel')
                   | (Inr points, polls', tel') \<Rightarrow> (Inr (\<lparr>so_idx = point, so_score = score\<rparr> # points), polls', tel'))"

section \<open>Planning\<close>

definition peek_ids :: "'it posting_list_iter \<Rightarrow> 'it weighted_posting list \<Rightarrow> nat list" where
  "peek_ids ops ps = List.map_filter (\<lambda>p. map_option fst (fst (pi_peek ops (wp_iterator p)))) ps"

definition last_ids :: "'it posting_list_iter \<Rightarrow> 'it weighted_posting list \<Rightarrow> nat list" where
  "last_ids ops ps = List.map_filter (\<lambda>p. pi_last_id ops (wp_iterator p)) ps"

definition id_bounds :: "'it posting_list_iter \<Rightarrow> 'it weighted_posting list \<Rightarrow> (nat \<times> nat) option" where
  "id_bounds ops ps =
     (if peek_ids ops ps = [] \<or> last_ids ops ps = [] then None
      else Some (Min (set (peek_ids ops ps)), Max (set (last_ids ops ps))))"

text \<open>The bound of the batch that ends at \<open>stop\<close>, added up over the posting lists.\<close>

fun batch_bound ::
  "'it posting_list_iter \<Rightarrow> nat \<Rightarrow> 'it weighted_posting list \<Rightarrow> flt \<Rightarrow> operation_error + flt" where
  "batch_bound ops stop [] upper = Inr upper"
| "batch_bound ops stop (p # ps) upper =
     (case pi_max_weight_till_id ops stop (wp_iterator p) of
        Inl e \<Rightarrow> Inl e
      | Inr None \<Rightarrow> batch_bound ops stop ps upper
      | Inr (Some max_weight) \<Rightarrow>
          batch_bound ops stop ps (f_add F32 upper (f_mul F32 max_weight (wp_query_weight p))))"

text \<open>The last id of a batch. The sum saturates at \<open>u32::MAX\<close>, which the greatest id, a \<open>u32\<close>, never exceeds.\<close>

definition batch_end :: "nat \<Rightarrow> nat \<Rightarrow> nat \<Rightarrow> nat" where
  "batch_end start width max_id = min (start + (width - 1)) max_id"

definition skip_postings :: "'it posting_list_iter \<Rightarrow> nat \<Rightarrow> 'it weighted_posting list \<Rightarrow> 'it weighted_posting list" where
  "skip_postings ops stop ps = map (\<lambda>p. p\<lparr>wp_iterator := pi_skip_till_id ops stop (wp_iterator p)\<rparr>) ps"

function plan_loop ::
  "'it posting_list_iter \<Rightarrow> nat \<Rightarrow> nat \<Rightarrow> nat \<Rightarrow> 'it weighted_posting list \<Rightarrow> posting_block_max_telemetry
     \<Rightarrow> operation_error + pending_batch list \<times> posting_block_max_telemetry" where
  "plan_loop ops width max_id start ps tel =
     (let stop = batch_end start width max_id
      in case batch_bound ops stop ps (Fin 0) of
           Inl e \<Rightarrow> Inl e
         | Inr upper \<Rightarrow>
             let tel1 = tel\<lparr>batches := batches tel + 1, bound_evaluations := bound_evaluations tel + length ps\<rparr>;
                 kept = f_lt (Fin 0) upper;
                 tel2 = (if kept then tel1 else tel1\<lparr>zero_bound_batches := zero_bound_batches tel1 + 1\<rparr>);
                 here = (if kept then [\<lparr>pt_start = start, pt_end = stop, pt_upper_bound = upper\<rparr>] else [])
             in if stop = max_id then Inr (here, tel2)
                else case plan_loop ops width max_id (stop + 1) (skip_postings ops stop ps) tel2 of
                       Inl e \<Rightarrow> Inl e
                     | Inr (rest, tel3) \<Rightarrow> Inr (here @ rest, tel3))"
  by pat_completeness auto
termination
  by (relation "measure (\<lambda>(ops, width, max_id, start, ps, tel). max_id - start)") (auto simp: batch_end_def min_def split: if_splits)

declare plan_loop.simps [simp del]

text \<open>\<open>try_into\<close> from \<open>usize\<close> to \<open>u32\<close>.\<close>

definition fits_u32 :: "nat \<Rightarrow> bool" where
  "fits_u32 n = (n \<le> u32_max)"

lemma fits_u32_code [code]: "fits_u32 n = (int n \<le> 4294967295)"
  by (auto simp: fits_u32_def u32_max_def)

definition plan_batches ::
  "'it posting_list_iter \<Rightarrow> 'it weighted_posting list \<Rightarrow> nat \<Rightarrow> posting_block_max_telemetry
     \<Rightarrow> operation_error + pending_batch list \<times> posting_block_max_telemetry" where
  "plan_batches ops postings batch_size tel =
     (if \<not> fits_u32 batch_size
      then Inl (Panicked (Text ''posting stream batch size exceeds PointOffsetType''))
      else case id_bounds ops postings of
        None \<Rightarrow> Inr ([], tel)
      | Some (min_id, max_id) \<Rightarrow> plan_loop ops batch_size max_id min_id postings tel)"

text \<open>Adding the term maxima of every posting list to the bounds; \<open>None\<close> if a list has none.\<close>

fun native_bounds ::
  "'it posting_list_iter \<Rightarrow> nat \<Rightarrow> nat \<Rightarrow> 'it weighted_posting list \<Rightarrow> flt list \<Rightarrow> flt list option" where
  "native_bounds ops min_id width [] bounds = Some bounds"
| "native_bounds ops min_id width (p # ps) bounds =
     (case pi_fill_block_max_ranges ops min_id width (length bounds) (wp_iterator p) of
        None \<Rightarrow> None
      | Some term_maxima \<Rightarrow>
          native_bounds ops min_id width ps
            (map2 (\<lambda>bound maximum. f_add F32 bound (f_mul F32 maximum (wp_query_weight p))) bounds term_maxima))"

definition range_batch :: "nat \<Rightarrow> nat \<Rightarrow> nat \<Rightarrow> nat \<times> flt \<Rightarrow> pending_batch" where
  "range_batch min_id width max_id = (\<lambda>(range, upper).
     \<lparr>pt_start = min_id + range * width, pt_end = batch_end (min_id + range * width) width max_id, pt_upper_bound = upper\<rparr>)"

definition plan_batches_native ::
  "'it posting_list_iter \<Rightarrow> 'it weighted_posting list \<Rightarrow> nat \<Rightarrow> posting_block_max_telemetry
     \<Rightarrow> (pending_batch list \<times> posting_block_max_telemetry) option" where
  "plan_batches_native ops postings batch_size tel =
     (if \<not> fits_u32 batch_size then None
      else case id_bounds ops postings of
        None \<Rightarrow> Some ([], tel)
      | Some (min_id, max_id) \<Rightarrow>
          let range_count = (max_id - min_id) div batch_size + 1
          in case native_bounds ops min_id batch_size postings (replicate range_count (Fin 0)) of
               None \<Rightarrow> None
             | Some bounds \<Rightarrow>
                 let ranges = List.enumerate 0 bounds;
                     zero = length (filter (\<lambda>(_, upper). f_eq upper (Fin 0)) ranges)
                 in Some (map (range_batch min_id batch_size max_id) (filter (\<lambda>(_, upper). \<not> f_eq upper (Fin 0)) ranges),
                          tel\<lparr>batches := batches tel + range_count,
                              bound_evaluations := bound_evaluations tel + range_count * length postings,
                              zero_bound_batches := zero_bound_batches tel + zero\<rparr>))"

section \<open>The kernel\<close>

definition kernel_new ::
  "'it posting_list_iter \<Rightarrow> (nat \<Rightarrow> io_error + 'it) \<Rightarrow> remapped_sparse_vector \<Rightarrow> nat \<Rightarrow> posting_block_max_telemetry
     \<Rightarrow> operation_error + posting_block_max_kernel \<times> pending_batch list \<times> posting_block_max_telemetry" where
  "kernel_new ops index query batch_size tel =
     (case open_postings ops index query of
        Inl e \<Rightarrow> Inl (snd e)
      | Inr postings \<Rightarrow>
          let tel1 = tel\<lparr>query_posting_elements := sum_list (map (\<lambda>p. pi_len_to_end ops (wp_iterator p)) postings),
                         posting_lists := length postings\<rparr>
          in case (case plan_batches_native ops postings batch_size tel1 of
                     Some plan \<Rightarrow> Inr plan
                   | None \<Rightarrow> plan_batches ops postings batch_size tel1) of
               Inl e \<Rightarrow> Inl e
             | Inr (plan, tel2) \<Rightarrow>
                 Inr (\<lparr>kn_query = query, kn_active_batches = [], kn_scores = []\<rparr>, plan,
                      tel2\<lparr>max_pending_batches := length plan\<rparr>))"

definition score_range ::
  "'it posting_list_iter \<Rightarrow> 'it weighted_posting list \<Rightarrow> pending_batch \<Rightarrow> nat \<Rightarrow> posting_block_max_kernel
     \<Rightarrow> posting_block_max_telemetry
     \<Rightarrow> exact_sparse_stream_error + posting_block_max_kernel \<times> posting_block_max_telemetry" where
  "score_range ops postings batch batch_len kn tel =
     (case score_posting_batch ops postings (pt_start batch) (pt_end batch) of
        Inl e \<Rightarrow> Inl e
      | Inr (visited, scores) \<Rightarrow>
          Inr (kn\<lparr>kn_scores := scores\<rparr>,
               tel\<lparr>posting_elements_visited := posting_elements_visited tel + visited,
                   score_buffer_slots := score_buffer_slots tel + batch_len,
                   max_score_buffer_slots := max (max_score_buffer_slots tel) batch_len\<rparr>))"

definition expand ::
  "'it posting_list_iter \<Rightarrow> (nat \<Rightarrow> io_error + 'it) \<Rightarrow> (nat \<Rightarrow> bool) \<Rightarrow> pending_batch \<Rightarrow> nat \<Rightarrow> posting_block_max_kernel
     \<Rightarrow> posting_block_max_telemetry
     \<Rightarrow> (exact_sparse_stream_error + (sparse_pending_point \<times> nat) option)
        \<times> nat \<times> posting_block_max_kernel \<times> posting_block_max_telemetry" where
  "expand ops index stopped batch polls kn tel =
     (if stopped polls then (Inl SparseCancelled, Suc polls, kn, tel)
      else let tel1 = tel\<lparr>batches_expanded := batches_expanded tel + 1\<rparr>; batch_len = pt_end batch - pt_start batch + 1
           in case open_postings ops index (kn_query kn) of
                Inl e \<Rightarrow> (Inl (ReaderFailure (fst e)), Suc polls, kn, tel1)
              | Inr postings \<Rightarrow>
                  (case score_range ops postings batch batch_len kn tel1 of
                     Inl e \<Rightarrow> (Inl e, Suc polls, kn, tel1)
                   | Inr (kn1, tel2) \<Rightarrow>
                       (case collect_scored_points stopped (pt_start batch) (pt_upper_bound batch) 0 (kn_scores kn1) (Suc polls) tel2 of
                          (Inl e, polls', tel3) \<Rightarrow> (Inl e, polls', kn1, tel3)
                        | (Inr points, polls', tel3) \<Rightarrow>
                            (case heap_pop pending_block_point_le points of
                               None \<Rightarrow> (Inr None, polls', kn1, tel3)
                             | Some (point, rest) \<Rightarrow>
                                 (Inr (Some (\<lparr>sq_point = point, sq_batch_index = length (kn_active_batches kn1)\<rparr>, length rest + 1)),
                                  polls', kn1\<lparr>kn_active_batches := kn_active_batches kn1 @ [rest]\<rparr>, tel3)))))"

definition pop_active ::
  "nat \<Rightarrow> posting_block_max_kernel \<Rightarrow> exact_sparse_stream_error + scored_point_offset option \<times> posting_block_max_kernel" where
  "pop_active batch_index kn =
     (if length (kn_active_batches kn) \<le> batch_index then Inl (SparsePanicked (Text ''index out of bounds''))
      else case heap_pop pending_block_point_le (kn_active_batches kn ! batch_index) of
        None \<Rightarrow> Inr (None, kn)
      | Some (point, rest) \<Rightarrow> Inr (Some point, kn\<lparr>kn_active_batches := (kn_active_batches kn)[batch_index := rest]\<rparr>))"

definition kernel_clear :: "posting_block_max_kernel \<Rightarrow> posting_block_max_kernel" where
  "kernel_clear kn = kn\<lparr>kn_active_batches := [], kn_scores := []\<rparr>"

section \<open>The ranking state\<close>

definition is_sorted :: "nat list \<Rightarrow> bool" where
  "is_sorted indices = sorted_wrt (<) indices"

definition pbm_new ::
  "'it posting_list_iter \<Rightarrow> (nat \<Rightarrow> io_error + 'it) \<Rightarrow> remapped_sparse_vector \<Rightarrow> nat \<Rightarrow> operation_error + posting_block_max_state" where
  "pbm_new ops index query batch_size =
     (if batch_size = 0 then Inl (Panicked (Text ''Sparse posting batch must be positive''))
      else if \<not> (length (rsv_indices query) = length (rsv_values query) \<and> is_sorted (rsv_indices query) \<and>
                list_all (\<lambda>w. is_finite w \<and> f_le (Fin 0) w) (rsv_values query))
      then Inl (Panicked (Text ''Sparse ranking requires sorted finite non-negative Query weights''))
      else case kernel_new ops index query batch_size
                  (default_bm_telemetry\<lparr>cursor_started := True, query_terms := length (rsv_indices query)\<rparr>) of
        Inl e \<Rightarrow> Inl e
      | Inr (kn, pending, tel) \<Rightarrow>
          Inr \<lparr>bm_kernel = kn, bm_pending_batches = pending, bm_pending_points = [], bm_buffered_points = 0,
               bm_telemetry = tel, bm_terminal_error = None\<rparr>)"

definition next_point_is_fixed :: "posting_block_max_state \<Rightarrow> bool" where
  "next_point_is_fixed st =
     (case select_max sparse_pending_le (bm_pending_points st) of
        None \<Rightarrow> False
      | Some point \<Rightarrow>
          (case select_max pending_batch_le (bm_pending_batches st) of
             None \<Rightarrow> True
           | Some batch \<Rightarrow>
               f_lt (pt_upper_bound batch) (so_score (sq_point point)) \<or>
               f_eq (so_score (sq_point point)) (pt_upper_bound batch) \<and> so_idx (sq_point point) < pt_start batch))"

definition pop_next_point ::
  "posting_block_max_state \<Rightarrow> (exact_sparse_stream_error + scored_point_offset option) \<times> posting_block_max_state" where
  "pop_next_point st =
     (case heap_pop sparse_pending_le (bm_pending_points st) of
        None \<Rightarrow> (Inr None, st)
      | Some (pending, rest) \<Rightarrow>
          let st1 = st\<lparr>bm_pending_points := rest, bm_buffered_points := bm_buffered_points st - 1\<rparr>
          in case pop_active (sq_batch_index pending) (bm_kernel st1) of
               Inl e \<Rightarrow> (Inl e, st1)
             | Inr (next_point, kn) \<Rightarrow>
                 let pending_points = (case next_point of
                       None \<Rightarrow> rest
                     | Some point \<Rightarrow> heap_push \<lparr>sq_point = point, sq_batch_index = sq_batch_index pending\<rparr> rest)
                 in (Inr (Some (sq_point pending)),
                     st1\<lparr>bm_kernel := kn, bm_pending_points := pending_points,
                         bm_telemetry := (bm_telemetry st1)\<lparr>bm_points_emitted := bm_points_emitted (bm_telemetry st1) + 1\<rparr>\<rparr>))"

definition finish_batch ::
  "scored_point_offset list \<Rightarrow> posting_block_max_state \<Rightarrow> scored_point_offset list \<times> posting_block_max_state" where
  "finish_batch points st =
     (points,
      if points \<noteq> [] \<and> (bm_pending_batches st \<noteq> [] \<or> bm_pending_points st \<noteq> [])
      then st\<lparr>bm_telemetry := (bm_telemetry st)\<lparr>pause_count := pause_count (bm_telemetry st) + 1\<rparr>\<rparr>
      else st)"

text \<open>The last points, once no batch is pending.\<close>

fun drain_points ::
  "nat \<Rightarrow> posting_block_max_state \<Rightarrow> (exact_sparse_stream_error + scored_point_offset list) \<times> posting_block_max_state" where
  "drain_points 0 st = (Inr [], st)"
| "drain_points (Suc n) st =
     (case pop_next_point st of
        (Inl e, st') \<Rightarrow> (Inl e, st')
      | (Inr None, st') \<Rightarrow> (Inr [], st')
      | (Inr (Some point), st') \<Rightarrow>
          (case drain_points n st' of
             (Inl e, st'') \<Rightarrow> (Inl e, st'')
           | (Inr points, st'') \<Rightarrow> (Inr (point # points), st'')))"

text \<open>What the loop does with the outcome of \<open>expand\<close>: the error, or the state to go on with.\<close>

definition after_expand ::
  "pending_batch list \<Rightarrow> (exact_sparse_stream_error + (sparse_pending_point \<times> nat) option) \<times> nat \<times> posting_block_max_kernel
      \<times> posting_block_max_telemetry \<Rightarrow> posting_block_max_state \<Rightarrow> exact_sparse_stream_error option \<times> nat \<times> posting_block_max_state" where
  "after_expand rest outcome st =
     (case outcome of
        (Inl e, polls, kn, tel) \<Rightarrow>
          (Some e, polls,
           st\<lparr>bm_kernel := kernel_clear kn, bm_pending_batches := [], bm_pending_points := [], bm_buffered_points := 0,
              bm_telemetry := tel, bm_terminal_error := Some e\<rparr>)
      | (Inr None, polls, kn, tel) \<Rightarrow>
          (None, polls, st\<lparr>bm_kernel := kn, bm_pending_batches := rest, bm_telemetry := tel\<rparr>)
      | (Inr (Some (point, buffered)), polls, kn, tel) \<Rightarrow>
          let points = heap_push point (bm_pending_points st); total = bm_buffered_points st + buffered
          in (None, polls,
              st\<lparr>bm_kernel := kn, bm_pending_batches := rest, bm_pending_points := points, bm_buffered_points := total,
                 bm_telemetry := tel\<lparr>max_pending_points := max (max_pending_points tel) (length points),
                                    max_buffered_points := max (max_buffered_points tel) total\<rparr>\<rparr>))"

lemma pop_next_point_batches: "pop_next_point st = (r, st') \<Longrightarrow> bm_pending_batches st' = bm_pending_batches st"
  by (auto simp: pop_next_point_def Let_def split: option.splits prod.splits sum.splits)

lemma after_expand_batches:
  "after_expand rest outcome st = (None, polls, st') \<Longrightarrow> bm_pending_batches st' = rest"
  by (auto simp: after_expand_def Let_def split: option.splits prod.splits sum.splits)

text \<open>The loop of \<open>next_batch_with\<close>: \<open>remaining\<close> results are still wanted after \<open>points\<close>.\<close>

function pbm_loop ::
  "'it posting_list_iter \<Rightarrow> (nat \<Rightarrow> io_error + 'it) \<Rightarrow> (nat \<Rightarrow> bool) \<Rightarrow> nat \<Rightarrow> scored_point_offset list \<Rightarrow> nat
     \<Rightarrow> posting_block_max_state
     \<Rightarrow> (exact_sparse_stream_error + scored_point_offset list) \<times> nat \<times> posting_block_max_state" where
  "pbm_loop ops index stopped remaining points polls st =
     (if next_point_is_fixed st
      then case pop_next_point st of
             (Inl e, st') \<Rightarrow> (Inl e, polls, st')
           | (Inr None, st') \<Rightarrow> (Inl (SparsePanicked (Text ''fixed point exists'')), polls, st')
           | (Inr (Some point), st') \<Rightarrow>
               if remaining \<le> 1 then (case finish_batch (points @ [point]) st' of (ps, st'') \<Rightarrow> (Inr ps, polls, st''))
               else pbm_loop ops index stopped (remaining - 1) (points @ [point]) polls st'
      else case heap_pop pending_batch_le (bm_pending_batches st) of
        None \<Rightarrow>
          (case drain_points remaining st of
             (Inl e, st') \<Rightarrow> (Inl e, polls, st')
           | (Inr more_points, st') \<Rightarrow> (case finish_batch (points @ more_points) st' of (ps, st'') \<Rightarrow> (Inr ps, polls, st'')))
      | Some (batch, rest) \<Rightarrow>
          if points \<noteq> [] then (case finish_batch points st of (ps, st') \<Rightarrow> (Inr ps, polls, st'))
          else case after_expand rest (expand ops index stopped batch polls (bm_kernel st) (bm_telemetry st)) st of
                 (Some e, polls', st') \<Rightarrow> (Inl e, polls', st')
               | (None, polls', st') \<Rightarrow> pbm_loop ops index stopped remaining points polls' st')"
  by pat_completeness auto
termination
proof (relation "measures [\<lambda>(ops, index, stopped, remaining, points, polls, st). length (bm_pending_batches st),
                           \<lambda>(ops, index, stopped, remaining, points, polls, st). remaining]", goal_cases)
  case 1
  then show ?case by simp
next
  case 2
  then show ?case by (auto dest!: pop_next_point_batches [OF sym])
next
  case 3
  then show ?case by (auto dest!: after_expand_batches [OF sym] heap_pop_length)
qed

declare pbm_loop.simps [simp del]

definition pbm_next_batch_with ::
  "'it posting_list_iter \<Rightarrow> (nat \<Rightarrow> io_error + 'it) \<Rightarrow> (nat \<Rightarrow> bool) \<Rightarrow> nat \<Rightarrow> nat \<Rightarrow> posting_block_max_state
     \<Rightarrow> (exact_sparse_stream_error + scored_point_offset list) \<times> nat \<times> posting_block_max_state" where
  "pbm_next_batch_with ops index stopped max_results polls st =
     (if max_results = 0 then (Inl (SparsePanicked (Text ''Sparse result batch must be positive'')), polls, st)
      else case bm_terminal_error st of
        Some e \<Rightarrow> (Inl e, polls, st)
      | None \<Rightarrow>
          if stopped polls then (Inl SparseCancelled, Suc polls, st\<lparr>bm_terminal_error := Some SparseCancelled\<rparr>)
          else pbm_loop ops index stopped max_results [] (Suc polls) st)"

section \<open>The ranking the state promises\<close>

text \<open>
  A term of a query: the entries of its posting list and its weight. The score of a point
  adds the rounded products of the terms that contain it, in the order of the query.
\<close>

type_synonym sparse_term = "(nat \<times> flt) list \<times> flt"

definition term_step :: "nat \<Rightarrow> flt \<Rightarrow> sparse_term \<Rightarrow> flt" where
  "term_step point acc t =
     (case map_of (fst t) point of None \<Rightarrow> acc | Some w \<Rightarrow> f_add F32 acc (f_mul F32 w (snd t)))"

definition sparse_score :: "sparse_term list \<Rightarrow> nat \<Rightarrow> flt" where
  "sparse_score ts point = foldl (term_step point) (Fin 0) ts"

definition term_ids :: "sparse_term list \<Rightarrow> nat list" where
  "term_ids ts = remdups (concat (map (map fst \<circ> fst) ts))"

definition sparse_order :: "sparse_term list \<Rightarrow> scored_point_offset list" where
  "sparse_order ts = dense_order (sparse_score ts) (filter (\<lambda>i. sparse_score ts i \<noteq> Fin 0) (term_ids ts))"

section \<open>Scoring a batch\<close>

lemma takeWhile_dropWhile_range:
  assumes "sorted_wrt (<) (map fst es)"
  shows "takeWhile (\<lambda>e. fst e \<le> b) (dropWhile (\<lambda>e. fst e < a) es) = filter (\<lambda>e. a \<le> fst e \<and> fst e \<le> (b::nat)) es"
  using assms
proof (induction es)
  case (Cons e es)
  show ?case
  proof (cases "fst e < a")
    case True
    with Cons show ?thesis by simp
  next
    case False
    have "takeWhile (\<lambda>e. fst e \<le> b) es = filter (\<lambda>e. a \<le> fst e \<and> fst e \<le> b) es" if "fst e \<le> b"
      using Cons False by (cases es) (auto simp: dropWhile_eq_self_iff)
    moreover have "filter (\<lambda>e. a \<le> fst e \<and> fst e \<le> b) es = []" if "\<not> fst e \<le> b"
      using Cons.prems that by (fastforce simp: filter_empty_conv)
    ultimately show ?thesis using False by auto
  qed
qed simp

lemma map_of_filter_range:
  "map_of (filter (\<lambda>e. P (fst e)) es) i = (if P i then map_of es i else None)"
  by (induction es) auto

lemma add_scores_ok:
  assumes "\<forall>e\<in>set es. start \<le> fst e \<and> fst e - start < length scores" "distinct (map fst es)"
  shows "\<exists>scores'. add_scores start q es scores = Inr scores' \<and> length scores' = length scores \<and>
    (\<forall>j<length scores. scores' ! j = term_step (start + j) (scores ! j) (es, q))"
  using assms
proof (induction es arbitrary: scores)
  case Nil
  then show ?case by (simp add: term_step_def)
next
  case (Cons e es)
  obtain point w where e: "e = (point, w)" by fastforce
  let ?s = "scores[point - start := f_add F32 (scores ! (point - start)) (f_mul F32 w q)]"
  have "\<exists>scores'. add_scores start q es ?s = Inr scores' \<and> length scores' = length ?s \<and>
      (\<forall>j<length ?s. scores' ! j = term_step (start + j) (?s ! j) (es, q))"
    using Cons.prems by (intro Cons.IH) auto
  then obtain s' where s': "add_scores start q es ?s = Inr s'" "length s' = length scores"
    "\<forall>j<length scores. s' ! j = term_step (start + j) (?s ! j) (es, q)" by auto
  have in_range: "start \<le> point" "point - start < length scores" and new: "map_of es point = None"
    using Cons.prems e by (auto simp: map_of_eq_None_iff)
  have "s' ! j = term_step (start + j) (scores ! j) (e # es, q)" if "j < length scores" for j
  proof (cases "j = point - start")
    case True
    with in_range s'(3) new e show ?thesis by (simp add: term_step_def)
  next
    case False
    with in_range have "start + j \<noteq> point" by simp
    moreover have "?s ! j = scores ! j" using False by (simp add: nth_list_update_neq)
    ultimately show ?thesis using s'(3) that e by (simp add: term_step_def split: option.split)
  qed
  with s' in_range e show ?case by auto
qed

context posting_iter
begin

definition fresh :: "'it weighted_posting \<Rightarrow> bool" where
  "fresh p \<longleftrightarrow> ok (wp_iterator p) \<and> todo (wp_iterator p) = all_of (wp_iterator p)"

definition term_of :: "'it weighted_posting \<Rightarrow> sparse_term" where
  "term_of p = (all_of (wp_iterator p), wp_query_weight p)"

lemma score_postings_ok:
  assumes "\<forall>p\<in>set ps. fresh p" "start \<le> stop" "length scores = stop - start + 1"
  shows "\<exists>v scores'. score_postings ops start stop ps visited scores = Inr (v, scores') \<and> length scores' = length scores \<and>
    (\<forall>j<length scores. scores' ! j = foldl (term_step (start + j)) (scores ! j) (map term_of ps))"
  using assms
proof (induction ps arbitrary: visited scores)
  case (Cons p ps)
  let ?es = "all_of (wp_iterator p)"
  define it where "it = pi_skip_to ops start (wp_iterator p)"
  have ok: "ok (wp_iterator p)" "todo (wp_iterator p) = ?es" using Cons.prems(1) by (auto simp: fresh_def)
  have it: "ok it" "todo it = dropWhile (\<lambda>e. fst e < start) ?es" using iter_skip_to [OF ok(1), of start] ok(2) by (auto simp: it_def)
  obtain es it' where each: "pi_for_each_till_id ops stop it = (es, it')" by fastforce
  have sorted: "sorted_wrt (<) (map fst ?es)" by (rule iter_sorted [OF ok(1)])
  have es: "es = filter (\<lambda>e. start \<le> fst e \<and> fst e \<le> stop) ?es"
    using iter_for_each [OF it(1) each] it(2) takeWhile_dropWhile_range [OF sorted] by simp
  have "distinct (map fst ?es)" using sorted by (simp add: strict_sorted_iff)
  then have "distinct (map fst es)" unfolding es by (simp add: distinct_map_filter)
  moreover have "\<forall>e\<in>set es. start \<le> fst e \<and> fst e - start < length scores" using es Cons.prems(2,3) by auto
  ultimately obtain s1 where s1: "add_scores start (wp_query_weight p) es scores = Inr s1" "length s1 = length scores"
    "\<forall>j<length scores. s1 ! j = term_step (start + j) (scores ! j) (es, wp_query_weight p)"
    using add_scores_ok by blast
  have step: "s1 ! j = term_step (start + j) (scores ! j) (term_of p)" if "j < length scores" for j
  proof -
    have "map_of es (start + j) = map_of ?es (start + j)"
      using map_of_filter_range [of "\<lambda>i. start \<le> i \<and> i \<le> stop" ?es] that Cons.prems(2,3) es by simp
    with s1(3) that show ?thesis by (simp add: term_step_def term_of_def split: option.split)
  qed
  let ?v = "visited + (pi_len_to_end ops it - pi_len_to_end ops it')"
  have "\<exists>v s'. score_postings ops start stop ps ?v s1 = Inr (v, s') \<and> length s' = length s1 \<and>
      (\<forall>j<length s1. s' ! j = foldl (term_step (start + j)) (s1 ! j) (map term_of ps))"
    using Cons.prems s1(2) by (intro Cons.IH) auto
  with s1 step each show ?case by (auto simp: it_def [symmetric] Let_def)
qed simp

lemma score_posting_batch_ok:
  assumes "\<forall>p\<in>set ps. fresh p" "start \<le> stop"
  shows "\<exists>v. score_posting_batch ops ps start stop = Inr (v, map (sparse_score (map term_of ps)) [start..<Suc stop])"
proof -
  let ?z = "replicate (stop - start + 1) (Fin 0)"
  obtain v s where s: "score_postings ops start stop ps 0 ?z = Inr (v, s)" "length s = length ?z"
    "\<forall>j<length ?z. s ! j = foldl (term_step (start + j)) (?z ! j) (map term_of ps)"
    using score_postings_ok [OF assms, of ?z 0] by auto
  have "s = map (sparse_score (map term_of ps)) [start..<Suc stop]"
  proof (intro nth_equalityI)
    fix j assume j: "j < length s"
    then have "?z ! j = Fin 0" using s(2) by (metis length_replicate nth_replicate)
    with s(2,3) j assms(2) show "s ! j = map (sparse_score (map term_of ps)) [start..<Suc stop] ! j"
      by (simp add: sparse_score_def nth_upt del: upt_Suc replicate_Suc)
  qed (use s(2) assms(2) in simp)
  with s(1) show ?thesis by (auto simp: score_posting_batch_def)
qed

end

section \<open>Bounds dominate scores\<close>

definition is_rounded :: "flt \<Rightarrow> bool" where
  "is_rounded a \<longleftrightarrow> (\<forall>r. a = Fin r \<longrightarrow> round_to F32 r = Fin r)"

lemma round_to_rounded: "is_rounded (round_to F32 x)"
proof -
  have "round_to F32 r = Fin r" if "round_to F32 x = Fin r" for r
  proof -
    have r: "r = round_val F32 x" "\<not> 2 powi max_exp F32 \<le> r" "\<not> r \<le> - (2 powi max_exp F32)"
      using that by (auto simp: round_to_def Let_def split: if_splits)
    then have "round_val F32 r = r" by (simp add: round_val_exact round_val_representable)
    with r(2,3) show ?thesis by (simp add: round_to_def Let_def)
  qed
  then show ?thesis by (simp add: is_rounded_def)
qed

lemma f_add_rounded: "is_rounded (f_add F32 a b)"
  using round_to_rounded by (cases a; cases b) (simp_all add: is_rounded_def)

lemma is_rounded_0 [simp]: "is_rounded (Fin 0)"
  by (simp add: is_rounded_def)

lemma f_add_zero: "is_rounded a \<Longrightarrow> a \<noteq> NaN \<Longrightarrow> f_add F32 a (Fin 0) = a"
  by (cases a) (auto simp: is_rounded_def)

lemma f_mul_nonneg: "is_finite a \<Longrightarrow> f_nonneg a \<Longrightarrow> is_finite b \<Longrightarrow> f_nonneg b \<Longrightarrow> f_nonneg (f_mul F32 a b)"
  by (auto simp: is_finite_cases intro!: round_to_nonneg)

lemma f_mul_mono:
  "is_finite a \<Longrightarrow> is_finite a' \<Longrightarrow> is_finite b \<Longrightarrow> f_nonneg b \<Longrightarrow> a \<le> a' \<Longrightarrow> f_mul F32 a b \<le> f_mul F32 a' b"
  by (auto simp: is_finite_cases intro!: round_to_mono mult_right_mono)

definition bound_fold :: "flt \<Rightarrow> (flt \<times> flt) list \<Rightarrow> flt" where
  "bound_fold upper mqs = foldl (\<lambda>u (m, q). f_add F32 u (f_mul F32 m q)) upper mqs"

lemma bound_fold_simps [simp]:
  "bound_fold u [] = u"
  "bound_fold u ((m, q) # mqs) = bound_fold (f_add F32 u (f_mul F32 m q)) mqs"
  by (simp_all add: bound_fold_def)

definition weight_ok :: "flt \<Rightarrow> bool" where
  "weight_ok w \<longleftrightarrow> is_finite w \<and> f_nonneg w"

text \<open>A maximum and a query weight that dominate what a term gives the point \<open>i\<close>.\<close>

definition dominates :: "nat \<Rightarrow> sparse_term \<Rightarrow> flt \<times> flt \<Rightarrow> bool" where
  "dominates i t mq \<longleftrightarrow> snd t = snd mq \<and> weight_ok (fst mq) \<and> weight_ok (snd mq) \<and>
     (\<forall>w. map_of (fst t) i = Some w \<longrightarrow> weight_ok w \<and> w \<le> fst mq)"

lemma score_le_bound:
  assumes "list_all2 (dominates i) ts mqs" "f_nonneg acc" "is_rounded acc" "acc \<le> u" "u \<noteq> NaN"
  shows "foldl (term_step i) acc ts \<le> bound_fold u mqs \<and> f_nonneg (foldl (term_step i) acc ts) \<and> bound_fold u mqs \<noteq> NaN"
  using assms
proof (induction arbitrary: acc u rule: list_all2_induct)
  case (Cons t ts mq mqs)
  obtain m q where mq: "mq = (m, q)" by fastforce
  have d: "snd t = q" "weight_ok m" "weight_ok q" "\<forall>w. map_of (fst t) i = Some w \<longrightarrow> weight_ok w \<and> w \<le> m"
    using Cons.hyps(1) mq by (auto simp: dominates_def)
  let ?x = "case map_of (fst t) i of None \<Rightarrow> Fin 0 | Some w \<Rightarrow> f_mul F32 w q"
  have "f_add F32 acc (Fin 0) = acc" using Cons.prems(1,2) f_add_zero f_nonneg_notNaN by blast
  then have step: "term_step i acc t = f_add F32 acc ?x"
    using d(1) by (auto simp: term_step_def split: option.split)
  have mul: "f_nonneg (f_mul F32 m q)" using d(2,3) by (auto simp: weight_ok_def intro: f_mul_nonneg)
  have x: "f_nonneg ?x \<and> ?x \<le> f_mul F32 m q"
  proof (cases "map_of (fst t) i")
    case None
    then show ?thesis using mul by (simp add: f_nonneg_def)
  next
    case (Some w)
    then have "weight_ok w" "w \<le> m" using d(4) by auto
    with Some d(2,3) show ?thesis by (auto simp: weight_ok_def intro: f_mul_nonneg f_mul_mono)
  qed
  have u: "f_nonneg u" using Cons.prems f_nonneg_up by blast
  have "term_step i acc t \<le> f_add F32 u (f_mul F32 m q)"
    unfolding step using Cons.prems x mul by (intro f_add_mono) (auto dest: f_nonneg_notNaN)
  moreover have "f_nonneg (term_step i acc t)" unfolding step using Cons.prems(1) x by (simp add: f_add_nonneg)
  moreover have "is_rounded (term_step i acc t)" unfolding step by (rule f_add_rounded)
  moreover have "f_add F32 u (f_mul F32 m q) \<noteq> NaN" using f_add_nonneg [OF wf_F32 u mul] by auto
  ultimately show ?case using Cons.IH [of "term_step i acc t" "f_add F32 u (f_mul F32 m q)"] mq by simp
qed simp

lemma sparse_score_le_bound:
  "list_all2 (dominates i) ts mqs \<Longrightarrow>
     sparse_score ts i \<le> bound_fold (Fin 0) mqs \<and> f_nonneg (sparse_score ts i) \<and> bound_fold (Fin 0) mqs \<noteq> NaN"
  unfolding sparse_score_def by (rule score_le_bound) simp_all

section \<open>A correct plan\<close>

definition in_batch :: "pending_batch \<Rightarrow> nat \<Rightarrow> bool" where
  "in_batch b i \<longleftrightarrow> pt_start b \<le> i \<and> i \<le> pt_end b"

definition batch_ok :: "sparse_term list \<Rightarrow> pending_batch \<Rightarrow> bool" where
  "batch_ok ts b \<longleftrightarrow> pt_start b \<le> pt_end b \<and> pt_upper_bound b \<noteq> NaN \<and>
     (\<forall>i. in_batch b i \<longrightarrow> f_nonneg (sparse_score ts i) \<and> sparse_score ts i \<le> pt_upper_bound b)"

definition plan_ok :: "sparse_term list \<Rightarrow> nat \<Rightarrow> pending_batch list \<Rightarrow> bool" where
  "plan_ok ts start bs \<longleftrightarrow> (\<forall>b\<in>set bs. batch_ok ts b \<and> start \<le> pt_start b) \<and>
     sorted_wrt (\<lambda>a b. pt_end a < pt_start b) bs \<and>
     (\<forall>i. start \<le> i \<longrightarrow> sparse_score ts i \<noteq> Fin 0 \<longrightarrow> (\<exists>b\<in>set bs. in_batch b i))"

context posting_iter
begin

definition weights_ok :: "'it weighted_posting \<Rightarrow> bool" where
  "weights_ok p \<longleftrightarrow> (\<forall>e\<in>set (all_of (wp_iterator p)). weight_ok (snd e)) \<and> weight_ok (wp_query_weight p)"

text \<open>The iterator has passed exactly the ids below \<open>start\<close>.\<close>

definition at_id :: "nat \<Rightarrow> 'it weighted_posting \<Rightarrow> bool" where
  "at_id start p \<longleftrightarrow> ok (wp_iterator p) \<and>
     (\<exists>passed. all_of (wp_iterator p) = passed @ todo (wp_iterator p) \<and> (\<forall>e\<in>set passed. fst e < start)) \<and>
     (\<forall>e\<in>set (todo (wp_iterator p)). start \<le> fst e)"

lemma todo_sorted: "ok it \<Longrightarrow> sorted_wrt (<) (map fst (todo it))"
  using iter_sorted iter_suffix by (metis map_append sorted_wrt_append)

lemma in_takeWhile_sorted:
  "sorted_wrt (<) (map fst es) \<Longrightarrow> e \<in> set es \<Longrightarrow> fst e \<le> (stop::nat) \<Longrightarrow> e \<in> set (takeWhile (\<lambda>e. fst e \<le> stop) es)"
  by (induction es) fastforce+

lemma dropWhile_sorted_ids:
  "sorted_wrt (<) (map fst es) \<Longrightarrow> \<forall>e\<in>set (dropWhile (\<lambda>e. fst e \<le> (stop::nat)) es). Suc stop \<le> fst e"
  by (induction es) (auto simp: Suc_le_eq not_le intro: less_trans)

lemma batch_bound_ok:
  assumes "\<forall>p\<in>set ps. at_id start p \<and> weights_ok p" "start \<le> stop"
  shows "\<exists>mqs. batch_bound ops stop ps u = Inr (bound_fold u mqs) \<and>
    (\<forall>i. start \<le> i \<longrightarrow> i \<le> stop \<longrightarrow> list_all2 (dominates i) (map term_of ps) mqs)"
  using assms
proof (induction ps arbitrary: u)
  case (Cons p ps)
  let ?it = "wp_iterator p"
  from Cons.prems obtain passed where a: "ok ?it" "all_of ?it = passed @ todo ?it" "\<forall>e\<in>set passed. fst e < start"
    "\<forall>e\<in>set (todo ?it). start \<le> fst e" "weights_ok p" by (auto simp: at_id_def)
  have "\<forall>e\<in>set passed. fst e \<le> stop" using a(3) Cons.prems(2) by fastforce
  from iter_max_weight [OF a(1,2) this] obtain m where m: "pi_max_weight_till_id ops stop ?it = Inr (Some m)" "weight_ok m"
    "\<forall>e\<in>set (takeWhile (\<lambda>e. fst e \<le> stop) (todo ?it)). snd e \<le> m" by (auto simp: weight_ok_def)
  let ?u = "f_add F32 u (f_mul F32 m (wp_query_weight p))"
  from Cons.IH [of ?u] Cons.prems obtain mqs where mqs: "batch_bound ops stop ps ?u = Inr (bound_fold ?u mqs)"
    "\<forall>i. start \<le> i \<longrightarrow> i \<le> stop \<longrightarrow> list_all2 (dominates i) (map term_of ps) mqs" by auto
  have "dominates i (term_of p) (m, wp_query_weight p)" if i: "start \<le> i" "i \<le> stop" for i
  proof -
    have "weight_ok w \<and> w \<le> m" if "map_of (all_of ?it) i = Some w" for w
    proof -
      have mem: "(i, w) \<in> set (all_of ?it)" using that by (rule map_of_SomeD)
      then have "(i, w) \<in> set (todo ?it)" using a(2,3) i(1) by auto
      with in_takeWhile_sorted [OF todo_sorted [OF a(1)] this] i(2) m(3) have "w \<le> m" by fastforce
      with mem a(5) show ?thesis by (fastforce simp: weights_ok_def)
    qed
    with m(2) a(5) show ?thesis by (simp add: dominates_def term_of_def weights_ok_def)
  qed
  with mqs m(1) show ?case by (intro exI [of _ "(m, wp_query_weight p) # mqs"]) simp
qed (auto intro: exI [of _ "[]"])

lemma skip_postings_at:
  assumes "\<forall>p\<in>set ps. at_id start p \<and> weights_ok p" "start \<le> stop"
  shows "\<forall>p\<in>set (skip_postings ops stop ps). at_id (Suc stop) p \<and> weights_ok p"
    and "map term_of (skip_postings ops stop ps) = map term_of ps"
    and "\<forall>p\<in>set (skip_postings ops stop ps). \<exists>p'\<in>set ps. all_of (wp_iterator p) = all_of (wp_iterator p')"
proof -
  have step: "at_id (Suc stop) (p\<lparr>wp_iterator := pi_skip_till_id ops stop (wp_iterator p)\<rparr>)"
    "all_of (pi_skip_till_id ops stop (wp_iterator p)) = all_of (wp_iterator p)" if "p \<in> set ps" for p
  proof -
    let ?it = "wp_iterator p" let ?it' = "pi_skip_till_id ops stop ?it"
    from that assms obtain passed where a: "ok ?it" "all_of ?it = passed @ todo ?it" "\<forall>e\<in>set passed. fst e < start"
      by (auto simp: at_id_def)
    have s: "ok ?it'" "all_of ?it' = all_of ?it" "todo ?it' = dropWhile (\<lambda>e. fst e \<le> stop) (todo ?it)"
      using iter_skip_till [OF a(1)] by auto
    then show "all_of ?it' = all_of ?it" by simp
    have "all_of ?it' = (passed @ takeWhile (\<lambda>e. fst e \<le> stop) (todo ?it)) @ todo ?it'" using s a(2) by simp
    moreover have "\<forall>e\<in>set (passed @ takeWhile (\<lambda>e. fst e \<le> stop) (todo ?it)). fst e < Suc stop"
      using a(3) assms(2) by (auto dest: set_takeWhileD)
    moreover have "\<forall>e\<in>set (todo ?it'). Suc stop \<le> fst e"
      unfolding s(3) using todo_sorted [OF a(1)] by (rule dropWhile_sorted_ids)
    ultimately show "at_id (Suc stop) (p\<lparr>wp_iterator := ?it'\<rparr>)" using s(1) by (auto simp: at_id_def)
  qed
  then show "\<forall>p\<in>set (skip_postings ops stop ps). at_id (Suc stop) p \<and> weights_ok p"
    using assms(1) by (auto simp: skip_postings_def weights_ok_def)
  show "map term_of (skip_postings ops stop ps) = map term_of ps"
    using step(2) by (simp add: skip_postings_def term_of_def)
  show "\<forall>p\<in>set (skip_postings ops stop ps). \<exists>p'\<in>set ps. all_of (wp_iterator p) = all_of (wp_iterator p')"
    using step(2) by (auto simp: skip_postings_def)
qed

end

lemma f_nonneg_zero: "f_nonneg x \<Longrightarrow> x \<le> y \<Longrightarrow> y \<noteq> NaN \<Longrightarrow> \<not> f_lt (Fin 0) y \<Longrightarrow> x = Fin 0"
  by (auto simp: f_lt_def f_nonneg_def)

lemma f_nonneg_zero_eq: "f_nonneg x \<Longrightarrow> x \<le> y \<Longrightarrow> f_eq y (Fin 0) \<Longrightarrow> x = Fin 0"
  by (auto simp: f_eq_def f_nonneg_def)

lemma plan_ok_cons:
  assumes here: "here = [] \<and> (\<forall>i. start \<le> i \<longrightarrow> i \<le> stop \<longrightarrow> sparse_score ts i = Fin 0) \<or>
      here = [b] \<and> batch_ok ts b \<and> pt_start b = start \<and> pt_end b = stop"
    and rest: "plan_ok ts (Suc stop) rest" and le: "start \<le> stop"
  shows "plan_ok ts start (here @ rest)"
proof -
  have "\<exists>b\<in>set (here @ rest). in_batch b i" if "start \<le> i" "sparse_score ts i \<noteq> Fin 0" for i
  proof (cases "i \<le> stop")
    case True
    with here that show ?thesis by (auto simp: in_batch_def)
  next
    case False
    then have "Suc stop \<le> i" by simp
    with rest that have "\<exists>b\<in>set rest. in_batch b i" unfolding plan_ok_def by blast
    then show ?thesis by auto
  qed
  moreover have "sorted_wrt (\<lambda>a b. pt_end a < pt_start b) (here @ rest)"
    using here rest by (auto simp: plan_ok_def sorted_wrt_append)
  moreover have "\<forall>b\<in>set (here @ rest). batch_ok ts b \<and> start \<le> pt_start b"
    using here rest le by (auto simp: plan_ok_def)
  ultimately show ?thesis by (auto simp: plan_ok_def)
qed

lemma plan_ok_nil: "(\<And>i. start \<le> i \<Longrightarrow> sparse_score ts i = Fin 0) \<Longrightarrow> plan_ok ts start []"
  by (auto simp: plan_ok_def)

lemma sparse_score_absent: "\<forall>t\<in>set ts. map_of (fst t) i = None \<Longrightarrow> sparse_score ts i = Fin 0"
proof (induction ts rule: rev_induct)
  case (snoc t ts)
  then show ?case by (simp add: sparse_score_def term_step_def)
qed (simp add: sparse_score_def)

context posting_iter
begin

lemma plan_loop_ok:
  assumes "\<forall>p\<in>set ps. at_id start p \<and> weights_ok p" "start \<le> max_id"
    and "\<forall>p\<in>set ps. \<forall>e\<in>set (all_of (wp_iterator p)). fst e \<le> max_id"
  shows "\<exists>bs tel'. plan_loop ops width max_id start ps tel = Inr (bs, tel') \<and> plan_ok (map term_of ps) start bs"
  using assms
proof (induction "max_id - start" arbitrary: start ps tel rule: less_induct)
  case less
  note at = less.prems(1) and le = less.prems(2) and last = less.prems(3)
  show ?case
  proof -
    let ?ts = "map term_of ps"
    define stop where "stop = batch_end start width max_id"
    have stop: "start \<le> stop" "stop \<le> max_id" using le by (auto simp: stop_def batch_end_def)
    from batch_bound_ok [OF at stop(1), of "Fin 0"] obtain mqs where mqs: "batch_bound ops stop ps (Fin 0) = Inr (bound_fold (Fin 0) mqs)"
      "\<And>i. start \<le> i \<Longrightarrow> i \<le> stop \<Longrightarrow> list_all2 (dominates i) ?ts mqs" by blast
    define upper where "upper = bound_fold (Fin 0) mqs"
    have bound: "sparse_score ?ts i \<le> upper" "f_nonneg (sparse_score ?ts i)" "upper \<noteq> NaN" if "start \<le> i" "i \<le> stop" for i
      using sparse_score_le_bound [OF mqs(2) [OF that]] by (simp_all add: upper_def)
    define tel1 where "tel1 = tel\<lparr>batches := batches tel + 1, bound_evaluations := bound_evaluations tel + length ps\<rparr>"
    define tel2 where "tel2 = (if f_lt (Fin 0) upper then tel1 else tel1\<lparr>zero_bound_batches := zero_bound_batches tel1 + 1\<rparr>)"
    define b where "b = \<lparr>pt_start = start, pt_end = stop, pt_upper_bound = upper\<rparr>"
    define here where "here = (if f_lt (Fin 0) upper then [b] else [])"
    have unfold: "plan_loop ops width max_id start ps tel =
        (if stop = max_id then Inr (here, tel2)
         else case plan_loop ops width max_id (stop + 1) (skip_postings ops stop ps) tel2 of
           Inl e \<Rightarrow> Inl e | Inr (rest, tel3) \<Rightarrow> Inr (here @ rest, tel3))"
      by (subst plan_loop.simps) (simp only: mqs(1) Let_def stop_def [symmetric] upper_def [symmetric] tel1_def tel2_def here_def b_def sum.case)
    have "batch_ok ?ts b" using stop bound by (auto simp: batch_ok_def in_batch_def b_def)
    then have hd: "here = [] \<and> (\<forall>i. start \<le> i \<longrightarrow> i \<le> stop \<longrightarrow> sparse_score ?ts i = Fin 0) \<or>
        here = [b] \<and> batch_ok ?ts b \<and> pt_start b = start \<and> pt_end b = stop"
      using f_nonneg_zero bound by (auto simp: here_def b_def)
    show "\<exists>bs tel'. plan_loop ops width max_id start ps tel = Inr (bs, tel') \<and> plan_ok ?ts start bs"
    proof (cases "stop = max_id")
      case True
      have "plan_ok ?ts (Suc stop) []"
      proof (rule plan_ok_nil)
        fix i assume "Suc stop \<le> i"
        with True last have "\<forall>t\<in>set ?ts. map_of (fst t) i = None"
          by (fastforce simp: term_of_def map_of_eq_None_iff)
        then show "sparse_score ?ts i = Fin 0" by (rule sparse_score_absent)
      qed
      with plan_ok_cons [OF hd this stop(1)] True unfold show ?thesis by simp
    next
      case False
      note skip = skip_postings_at [OF at stop(1)]
      have "\<forall>p\<in>set (skip_postings ops stop ps). \<forall>e\<in>set (all_of (wp_iterator p)). fst e \<le> max_id"
        using skip(3) last by fastforce
      moreover have "Suc stop \<le> max_id" using False stop(2) by simp
      moreover have "max_id - Suc stop < max_id - start" using False stop by simp
      ultimately have "\<exists>bs tel'. plan_loop ops width max_id (Suc stop) (skip_postings ops stop ps) tel2 = Inr (bs, tel') \<and>
          plan_ok (map term_of (skip_postings ops stop ps)) (Suc stop) bs"
        using skip(1) by (intro less.hyps) auto
      then obtain bs tel' where bs: "plan_loop ops width max_id (Suc stop) (skip_postings ops stop ps) tel2 = Inr (bs, tel')"
        "plan_ok ?ts (Suc stop) bs" using skip(2) by auto
      with plan_ok_cons [OF hd bs(2) stop(1)] unfold False show ?thesis by simp
    qed
  qed
qed

end

lemma map_filter_all: "\<forall>x\<in>set xs. f x = Some (g x) \<Longrightarrow> List.map_filter f xs = map g xs"
  by (induction xs) (simp_all add: List.map_filter_simps)

lemma sorted_hd_last:
  "sorted_wrt (<) (map fst es) \<Longrightarrow> e \<in> set es \<Longrightarrow> fst (hd es) \<le> fst e \<and> (fst e :: nat) \<le> fst (last es)"
proof (induction es)
  case (Cons x xs)
  then show ?case by (cases "xs = []") (auto, meson last_in_set less_imp_le order_trans)
qed simp

lemma plan_ok_start:
  "plan_ok ts start bs \<Longrightarrow> (\<And>i. i < start \<Longrightarrow> sparse_score ts i = Fin 0) \<Longrightarrow> plan_ok ts 0 bs"
  unfolding plan_ok_def by (metis le0 not_less)

context posting_iter
begin

definition listed :: "'it weighted_posting \<Rightarrow> bool" where
  "listed p \<longleftrightarrow> fresh p \<and> weights_ok p \<and> all_of (wp_iterator p) \<noteq> []"

lemma id_bounds_ok:
  assumes "\<forall>p\<in>set ps. listed p"
  shows "id_bounds ops ps = (if ps = [] then None
    else Some (Min ((\<lambda>p. fst (hd (all_of (wp_iterator p)))) ` set ps), Max ((\<lambda>p. fst (last (all_of (wp_iterator p)))) ` set ps)))"
proof -
  have "peek_ids ops ps = map (\<lambda>p. fst (hd (all_of (wp_iterator p)))) ps"
    unfolding peek_ids_def
  proof (rule map_filter_all, rule ballI)
    fix p assume "p \<in> set ps"
    then have p: "ok (wp_iterator p)" "todo (wp_iterator p) = all_of (wp_iterator p)" "all_of (wp_iterator p) \<noteq> []"
      using assms by (auto simp: listed_def fresh_def)
    obtain r it' where "pi_peek ops (wp_iterator p) = (r, it')" by fastforce
    with iter_peek [OF p(1) this] p(2,3) show "map_option fst (fst (pi_peek ops (wp_iterator p))) = Some (fst (hd (all_of (wp_iterator p))))"
      by (auto split: list.splits)
  qed
  moreover have "last_ids ops ps = map (\<lambda>p. fst (last (all_of (wp_iterator p)))) ps"
    unfolding last_ids_def using assms iter_last_id by (intro map_filter_all) (auto simp: listed_def fresh_def)
  ultimately show ?thesis by (simp add: id_bounds_def)
qed

lemma id_bounds_some:
  assumes "\<forall>p\<in>set ps. listed p" "id_bounds ops ps = Some (min_id, max_id)"
  shows "min_id \<le> max_id" "\<forall>p\<in>set ps. \<forall>e\<in>set (all_of (wp_iterator p)). min_id \<le> fst e \<and> fst e \<le> max_id"
proof -
  let ?h = "\<lambda>p. fst (hd (all_of (wp_iterator p)))" and ?l = "\<lambda>p. fst (last (all_of (wp_iterator p)))"
  have ne: "ps \<noteq> []" and mm: "min_id = Min (?h ` set ps)" "max_id = Max (?l ` set ps)"
    using assms id_bounds_ok by (auto split: if_splits)
  show all: "\<forall>p\<in>set ps. \<forall>e\<in>set (all_of (wp_iterator p)). min_id \<le> fst e \<and> fst e \<le> max_id"
  proof (intro ballI)
    fix p e assume p: "p \<in> set ps" and e: "e \<in> set (all_of (wp_iterator p))"
    have "sorted_wrt (<) (map fst (all_of (wp_iterator p)))" using assms(1) p iter_sorted by (auto simp: listed_def fresh_def)
    from sorted_hd_last [OF this e] have "?h p \<le> fst e" "fst e \<le> ?l p" by auto
    moreover have "min_id \<le> ?h p" "?l p \<le> max_id" using p mm by (auto intro: Min_le Max_ge)
    ultimately show "min_id \<le> fst e \<and> fst e \<le> max_id" by simp
  qed
  obtain p where "p \<in> set ps" using ne by (cases ps) auto
  with assms(1) all show "min_id \<le> max_id" unfolding listed_def by (metis last_in_set order_trans)
qed

lemma listed_at: "listed p \<Longrightarrow> \<forall>e\<in>set (all_of (wp_iterator p)). start \<le> fst e \<Longrightarrow> at_id start p \<and> weights_ok p"
  by (auto simp: listed_def fresh_def at_id_def)

lemma outside_zero:
  assumes "\<forall>p\<in>set ps. \<forall>e\<in>set (all_of (wp_iterator p)). min_id \<le> fst e \<and> fst e \<le> max_id" "i < min_id \<or> max_id < i"
  shows "sparse_score (map term_of ps) i = Fin 0"
  using assms by (intro sparse_score_absent) (fastforce simp: term_of_def map_of_eq_None_iff)

lemma plan_batches_ok:
  assumes "\<forall>p\<in>set ps. listed p" "fits_u32 batch_size"
  shows "\<exists>bs tel'. plan_batches ops ps batch_size tel = Inr (bs, tel') \<and> plan_ok (map term_of ps) 0 bs"
proof (cases "id_bounds ops ps")
  case None
  then have "ps = []" using id_bounds_ok [OF assms(1)] by (auto split: if_splits)
  with None assms(2) show ?thesis by (simp add: plan_batches_def plan_ok_def sparse_score_def)
next
  case (Some mm)
  obtain min_id max_id where mm: "mm = (min_id, max_id)" by fastforce
  note b = id_bounds_some [OF assms(1) Some [unfolded mm]]
  have "\<forall>p\<in>set ps. at_id min_id p \<and> weights_ok p" using assms(1) b(2) listed_at by blast
  with plan_loop_ok [OF this b(1), of batch_size tel] b(2)
  obtain bs tel' where "plan_loop ops batch_size max_id min_id ps tel = Inr (bs, tel')" "plan_ok (map term_of ps) min_id bs" by blast
  with plan_ok_start [OF this(2)] outside_zero [OF b(2)] Some mm assms(2) show ?thesis by (simp add: plan_batches_def)
qed

lemma native_bounds_ok:
  assumes "\<forall>p\<in>set ps. listed p" "0 < width" "native_bounds ops min_id width ps bounds = Some bs"
  shows "length bs = length bounds \<and> (\<forall>r<length bounds. \<exists>mqs. bs ! r = bound_fold (bounds ! r) mqs \<and>
    (\<forall>i. (i - min_id) div width = r \<longrightarrow> list_all2 (dominates i) (map term_of ps) mqs))"
  using assms(1,3)
proof (induction ps arbitrary: bounds)
  case Nil
  then show ?case by (auto intro: exI [of _ "[]"])
next
  case (Cons p ps)
  let ?q = "wp_query_weight p"
  obtain ms where ms: "pi_fill_block_max_ranges ops min_id width (length bounds) (wp_iterator p) = Some ms"
    "native_bounds ops min_id width ps (map2 (\<lambda>b m. f_add F32 b (f_mul F32 m ?q)) bounds ms) = Some bs"
    using Cons.prems(2) by (auto split: option.splits)
  let ?b = "map2 (\<lambda>b m. f_add F32 b (f_mul F32 m ?q)) bounds ms"
  have ok: "ok (wp_iterator p)" "weights_ok p" using Cons.prems(1) by (auto simp: listed_def fresh_def)
  note f = iter_fill [OF ok(1) assms(2) ms(1)]
  have IH: "length bs = length ?b \<and> (\<forall>r<length ?b. \<exists>mqs. bs ! r = bound_fold (?b ! r) mqs \<and>
      (\<forall>i. (i - min_id) div width = r \<longrightarrow> list_all2 (dominates i) (map term_of ps) mqs))"
    using Cons.prems(1) by (intro Cons.IH ms(2)) simp
  have len: "length ?b = length bounds" using f by simp
  have "\<exists>mqs. bs ! r = bound_fold (bounds ! r) mqs \<and>
      (\<forall>i. (i - min_id) div width = r \<longrightarrow> list_all2 (dominates i) (map term_of (p # ps)) mqs)" if r: "r < length bounds" for r
  proof -
    from IH r len obtain mqs where mqs: "bs ! r = bound_fold (?b ! r) mqs"
      "\<forall>i. (i - min_id) div width = r \<longrightarrow> list_all2 (dominates i) (map term_of ps) mqs" by auto
    have m: "weight_ok (ms ! r)" using f r by (simp add: weight_ok_def)
    have "dominates i (term_of p) (ms ! r, ?q)" if i: "(i - min_id) div width = r" for i
    proof -
      have "weight_ok w \<and> w \<le> ms ! r" if "map_of (all_of (wp_iterator p)) i = Some w" for w
        using map_of_SomeD [OF that] f i r ok(2) by (fastforce simp: weights_ok_def)
      with m ok(2) show ?thesis by (simp add: dominates_def term_of_def weights_ok_def)
    qed
    with mqs r f show ?thesis by (intro exI [of _ "(ms ! r, ?q) # mqs"]) simp
  qed
  with IH len show ?case by simp
qed

end

lemma range_of_id:
  assumes "0 < (w::nat)" "min_id + r * w \<le> i" "i \<le> min_id + r * w + (w - 1)"
  shows "(i - min_id) div w = r"
proof -
  have "i - min_id = r * w + (i - (min_id + r * w))" "i - (min_id + r * w) < w" using assms by auto
  then show ?thesis by (metis add.right_neutral assms(1) div_less div_mult_self3 less_numeral_extra(3) add.commute)
qed

lemma id_in_range:
  assumes "0 < (w::nat)" "min_id \<le> i"
  shows "min_id + ((i - min_id) div w) * w \<le> i" "i \<le> min_id + ((i - min_id) div w) * w + (w - 1)"
proof -
  have "(i - min_id) div w * w + (i - min_id) mod w = i - min_id" by simp
  moreover have "(i - min_id) mod w < w" using assms(1) by simp
  ultimately show "min_id + ((i - min_id) div w) * w \<le> i" "i \<le> min_id + ((i - min_id) div w) * w + (w - 1)"
    using assms(2) by linarith+
qed

lemma native_plan_ok:
  assumes w: "0 < width" and mm: "min_id \<le> max_id" and len: "length bounds = (max_id - min_id) div width + 1"
    and bound: "\<And>r i. r < length bounds \<Longrightarrow> (i - min_id) div width = r \<Longrightarrow>
      f_nonneg (sparse_score ts i) \<and> sparse_score ts i \<le> bounds ! r \<and> bounds ! r \<noteq> NaN"
    and out: "\<And>i. max_id < i \<Longrightarrow> sparse_score ts i = Fin 0"
  shows "plan_ok ts min_id (map (range_batch min_id width max_id) (filter (\<lambda>(_, upper). \<not> f_eq upper (Fin 0)) (List.enumerate 0 bounds)))"
    (is "plan_ok ts min_id (map ?f (filter ?P ?e))")
proof -
  have mem: "(r, u) \<in> set ?e \<longleftrightarrow> r < length bounds \<and> u = bounds ! r" for r u
    by (auto simp: in_set_enumerate_eq)
  have start: "min_id + r * width \<le> max_id" if "r < length bounds" for r
  proof -
    have "r * width \<le> (max_id - min_id) div width * width" using that len by (intro mult_le_mono1) simp
    also have "\<dots> \<le> max_id - min_id" by simp
    finally show ?thesis using mm by simp
  qed
  have "batch_ok ts (?f (r, u)) \<and> min_id \<le> pt_start (?f (r, u))" if "(r, u) \<in> set ?e" for r u
  proof -
    have r: "r < length bounds" "u = bounds ! r" using that mem by auto
    have "f_nonneg (sparse_score ts i) \<and> sparse_score ts i \<le> u" if "in_batch (?f (r, u)) i" for i
      using bound [OF r(1), of i] range_of_id [OF w, of min_id r i] that r(2) by (auto simp: in_batch_def range_batch_def batch_end_def)
    moreover have "u \<noteq> NaN" using bound [OF r(1), of "min_id + r * width"] w r(2) by simp
    ultimately show ?thesis using start [OF r(1)] by (auto simp: batch_ok_def range_batch_def batch_end_def)
  qed
  then have "\<forall>b\<in>set (map ?f (filter ?P ?e)). batch_ok ts b \<and> min_id \<le> pt_start b" by auto
  moreover have "sorted_wrt (\<lambda>a b. pt_end a < pt_start b) (map ?f (filter ?P ?e))"
  proof -
    have "sorted_wrt (\<lambda>a b. fst a < fst b) ?e"
      by (simp add: sorted_wrt_iff_nth_less nth_enumerate_eq)
    then have "sorted_wrt (\<lambda>a b. fst a < fst b) (filter ?P ?e)" by (rule sorted_wrt_filter)
    then show ?thesis unfolding sorted_wrt_map
    proof (rule sorted_wrt_mono_rel [rotated])
      fix a b :: "nat \<times> flt" assume "fst a < fst b"
      then have "Suc (fst a) * width \<le> fst b * width" by (intro mult_le_mono1) simp
      then show "pt_end (?f a) < pt_start (?f b)" using w by (auto simp: range_batch_def batch_end_def split: prod.splits)
    qed
  qed
  moreover have "\<exists>b\<in>set (map ?f (filter ?P ?e)). in_batch b i" if i: "min_id \<le> i" "sparse_score ts i \<noteq> Fin 0" for i
  proof -
    let ?r = "(i - min_id) div width"
    have "i \<le> max_id" using out i(2) by (meson not_less)
    then have r: "?r < length bounds" using len by (simp add: div_le_mono less_Suc_eq_le)
    have "\<not> f_eq (bounds ! ?r) (Fin 0)" using bound [OF r refl] i(2) f_nonneg_zero_eq by blast
    moreover have "in_batch (?f (?r, bounds ! ?r)) i"
      using id_in_range [OF w i(1)] \<open>i \<le> max_id\<close> by (simp add: in_batch_def range_batch_def batch_end_def)
    ultimately show ?thesis using mem r by (intro bexI [of _ "?f (?r, bounds ! ?r)"]) auto
  qed
  ultimately show ?thesis by (auto simp: plan_ok_def)
qed

context posting_iter
begin

lemma plan_batches_native_ok:
  assumes "\<forall>p\<in>set ps. listed p" "0 < batch_size" "plan_batches_native ops ps batch_size tel = Some (bs, tel')"
  shows "plan_ok (map term_of ps) 0 bs"
proof (cases "id_bounds ops ps")
  case None
  then have "ps = []" using id_bounds_ok [OF assms(1)] by (auto split: if_splits)
  with None assms(3) show ?thesis by (auto simp: plan_batches_native_def plan_ok_def sparse_score_def split: if_splits)
next
  case (Some mm)
  obtain min_id max_id where mm: "mm = (min_id, max_id)" by fastforce
  note b = id_bounds_some [OF assms(1) Some [unfolded mm]]
  let ?n = "(max_id - min_id) div batch_size + 1" and ?ts = "map term_of ps"
  obtain bounds where nb: "native_bounds ops min_id batch_size ps (replicate ?n (Fin 0)) = Some bounds"
    and bs: "bs = map (range_batch min_id batch_size max_id) (filter (\<lambda>(_, upper). \<not> f_eq upper (Fin 0)) (List.enumerate 0 bounds))"
    using assms(3) Some mm by (auto simp: plan_batches_native_def Let_def split: if_splits option.splits)
  note n = native_bounds_ok [OF assms(1,2) nb]
  have len: "length bounds = ?n" using n by simp
  have "plan_ok ?ts min_id bs"
    unfolding bs
  proof (rule native_plan_ok [OF assms(2) b(1) len])
    fix r i assume r: "r < length bounds" "(i - min_id) div batch_size = r"
    have "replicate ?n (Fin 0) ! r = Fin 0" using r(1) len by (metis nth_replicate)
    with n r len obtain mqs where mqs: "bounds ! r = bound_fold (Fin 0) mqs" "list_all2 (dominates i) ?ts mqs"
      by (metis length_replicate)
    from sparse_score_le_bound [OF mqs(2)] mqs(1)
    show "f_nonneg (sparse_score ?ts i) \<and> sparse_score ?ts i \<le> bounds ! r \<and> bounds ! r \<noteq> NaN" by simp
  qed (use outside_zero [OF b(2)] in blast)
  with plan_ok_start [OF this] outside_zero [OF b(2)] show ?thesis by simp
qed

text \<open>The posting lists of a query, all read from their beginning.\<close>

definition serves :: "(nat \<Rightarrow> io_error + 'it) \<Rightarrow> (nat \<times> flt) list \<Rightarrow> bool" where
  "serves index terms \<longleftrightarrow> (\<forall>(d, q)\<in>set terms. weight_ok q \<and>
     (\<exists>it. index d = Inr it \<and> ok it \<and> todo it = all_of it \<and> (\<forall>e\<in>set (all_of it). weight_ok (snd e))))"

definition index_terms :: "(nat \<Rightarrow> io_error + 'it) \<Rightarrow> (nat \<times> flt) list \<Rightarrow> sparse_term list" where
  "index_terms index terms = map (\<lambda>(d, q). (case index d of Inl _ \<Rightarrow> [] | Inr it \<Rightarrow> all_of it, q)) terms"

lemma open_terms_ok:
  "serves index terms \<Longrightarrow> \<exists>ps. open_terms ops index terms = Inr ps \<and> (\<forall>p\<in>set ps. listed p) \<and>
     (\<forall>i acc. foldl (term_step i) acc (map term_of ps) = foldl (term_step i) acc (index_terms index terms))"
proof (induction terms)
  case Nil
  then show ?case by (simp add: index_terms_def)
next
  case (Cons t terms)
  obtain d q where t: "t = (d, q)" by fastforce
  have "serves index terms" using Cons.prems by (simp add: serves_def)
  with Cons.IH obtain ps where ps: "open_terms ops index terms = Inr ps" "\<forall>p\<in>set ps. listed p"
    "\<forall>i acc. foldl (term_step i) acc (map term_of ps) = foldl (term_step i) acc (index_terms index terms)" by blast
  obtain it where it: "index d = Inr it" "ok it" "todo it = all_of it" "\<forall>e\<in>set (all_of it). weight_ok (snd e)" "weight_ok q"
    using Cons.prems t by (auto simp: serves_def)
  have last: "pi_last_id ops it = None \<longleftrightarrow> all_of it = []" using iter_last_id [OF it(2)] by simp
  show ?case
  proof (cases "all_of it = []")
    case True
    moreover have "term_step i acc ([], q) = acc" for i acc by (simp add: term_step_def)
    ultimately show ?thesis using ps it t last by (auto simp: index_terms_def)
  next
    case False
    let ?p = "\<lparr>wp_iterator = it, wp_query_weight = q\<rparr>"
    have "listed ?p" using it False by (simp add: listed_def fresh_def weights_ok_def)
    moreover have "term_of ?p = (all_of it, q)" by (simp add: term_of_def)
    ultimately show ?thesis using ps it t last False by (auto simp: index_terms_def)
  qed
qed

lemma open_postings_ok:
  assumes "serves index (zip (rsv_indices query) (rsv_values query))"
  obtains ps where "open_postings ops index query = Inr ps" "\<forall>p\<in>set ps. listed p"
    "sparse_score (map term_of ps) = sparse_score (index_terms index (zip (rsv_indices query) (rsv_values query)))"
  using open_terms_ok [OF assms] by (auto simp: open_postings_def sparse_score_def fun_eq_iff)

lemma plan_ok_cong: "sparse_score ts = sparse_score ts' \<Longrightarrow> plan_ok ts start bs = plan_ok ts' start bs"
  by (simp add: plan_ok_def batch_ok_def)

lemma kernel_new_ok:
  assumes "serves index (zip (rsv_indices query) (rsv_values query))" "0 < batch_size" "fits_u32 batch_size"
  shows "\<exists>bs tel'. kernel_new ops index query batch_size tel = Inr (\<lparr>kn_query = query, kn_active_batches = [], kn_scores = []\<rparr>, bs, tel') \<and>
    plan_ok (index_terms index (zip (rsv_indices query) (rsv_values query))) 0 bs"
proof -
  obtain ps where ps: "open_postings ops index query = Inr ps" "\<forall>p\<in>set ps. listed p"
    "sparse_score (map term_of ps) = sparse_score (index_terms index (zip (rsv_indices query) (rsv_values query)))"
    by (rule open_postings_ok [OF assms(1)])
  define tel1 where "tel1 = tel\<lparr>query_posting_elements := sum_list (map (\<lambda>p. pi_len_to_end ops (wp_iterator p)) ps),
    posting_lists := length ps\<rparr>"
  have "\<exists>bs tel2. (case plan_batches_native ops ps batch_size tel1 of Some plan \<Rightarrow> Inr plan
      | None \<Rightarrow> plan_batches ops ps batch_size tel1) = Inr (bs, tel2) \<and> plan_ok (map term_of ps) 0 bs"
    using plan_batches_native_ok [OF ps(2) assms(2)] plan_batches_ok [OF ps(2) assms(3), of tel1]
    by (auto split: option.split)
  then obtain bs tel2 where plan: "(case plan_batches_native ops ps batch_size tel1 of Some plan \<Rightarrow> Inr plan
      | None \<Rightarrow> plan_batches ops ps batch_size tel1) = Inr (bs, tel2)" "plan_ok (map term_of ps) 0 bs" by blast
  have "kernel_new ops index query batch_size tel =
      Inr (\<lparr>kn_query = query, kn_active_batches = [], kn_scores = []\<rparr>, bs, tel2\<lparr>max_pending_batches := length bs\<rparr>)"
    unfolding kernel_new_def ps(1) sum.case Let_def tel1_def [symmetric] plan(1) by simp
  with plan(2) plan_ok_cong [OF ps(3)] show ?thesis by blast
qed

end

section \<open>Expanding a batch\<close>

definition batch_points :: "sparse_term list \<Rightarrow> pending_batch \<Rightarrow> scored_point_offset list" where
  "batch_points ts b =
     map (scored (sparse_score ts)) (filter (\<lambda>i. sparse_score ts i \<noteq> Fin 0) [pt_start b..<Suc (pt_end b)])"

lemma heap_pop_nil [simp]: "heap_pop le [] = None"
  by simp

lemma collect_scored_points_ok:
  assumes "\<forall>n. \<not> stopped n" "\<forall>i. start + offset \<le> i \<longrightarrow> i < n \<longrightarrow> f_nonneg (g i) \<and> g i \<le> upper"
  shows "\<exists>polls' tel'. collect_scored_points stopped start upper offset (map g [start + offset..<n]) polls tel =
    (Inr (map (scored g) (filter (\<lambda>i. g i \<noteq> Fin 0) [start + offset..<n])), polls', tel')"
  using assms(2)
proof (induction "n - (start + offset)" arbitrary: offset polls tel)
  case (Suc k)
  let ?a = "start + offset"
  have less: "?a < n" using Suc.hyps(2) by simp
  then have up: "[?a..<n] = ?a # [start + Suc offset..<n]" by (simp add: upt_conv_Cons)
  let ?t = "if g ?a = Fin 0 then tel else tel\<lparr>nonzero_documents_scored := nonzero_documents_scored tel + 1\<rparr>"
  have "\<exists>polls' tel'. collect_scored_points stopped start upper (Suc offset) (map g [start + Suc offset..<n]) (Suc polls) ?t =
      (Inr (map (scored g) (filter (\<lambda>i. g i \<noteq> Fin 0) [start + Suc offset..<n])), polls', tel')"
    using Suc.hyps(2) Suc.prems by (intro Suc.hyps(1)) auto
  then obtain polls' tel' where rec: "collect_scored_points stopped start upper (Suc offset) (map g [start + Suc offset..<n]) (Suc polls) ?t =
      (Inr (map (scored g) (filter (\<lambda>i. g i \<noteq> Fin 0) [start + Suc offset..<n])), polls', tel')" by blast
  have g: "f_nonneg (g ?a)" "g ?a \<le> upper" using Suc.prems less by auto
  then have "\<not> f_lt upper (g ?a)" "f_eq (g ?a) (Fin 0) \<longleftrightarrow> g ?a = Fin 0" by (auto simp: f_lt_def f_eq_def)
  with rec assms(1) show ?case unfolding up by (cases "g ?a = Fin 0") (simp_all add: Let_def scored_def del: upt_Suc)
qed simp

lemma pending_block_point_le_iff: "pending_block_point_le a b \<longleftrightarrow> exact_order_le b a"
  by (auto simp: pending_block_point_le_def pending_block_point_cmp_def rank_simps)

interpretation pending_block_point_le: linear_rank pending_block_point_le
  by unfold_locales (auto simp: pending_block_point_le_iff intro: exact_order_le.rank_trans exact_order_le.rank_antisym
      exact_order_le.rank_total [THEN disjE])

lemma sparse_pending_le_iff: "sparse_pending_le a b \<longleftrightarrow> exact_order_le (sq_point b) (sq_point a)"
  by (auto simp: sparse_pending_le_def sparse_pending_cmp_def rank_simps)

interpretation sparse_pending_le: total_rank sparse_pending_le
  by unfold_locales (auto simp: sparse_pending_le_iff intro: exact_order_le.rank_trans exact_order_le.rank_total [THEN disjE])

lemma pending_batch_le_iff:
  "pending_batch_le a b \<longleftrightarrow> pt_upper_bound a < pt_upper_bound b \<or> pt_upper_bound a = pt_upper_bound b \<and> pt_start b \<le> pt_start a"
  by (auto simp: pending_batch_le_def pending_batch_cmp_def rank_simps)

interpretation pending_batch_le: total_rank pending_batch_le
  by unfold_locales (auto simp: pending_batch_le_iff)

text \<open>What expanding a batch adds to the kernel.\<close>

definition expanded ::
  "sparse_term list \<Rightarrow> pending_batch \<Rightarrow> scored_point_offset list list \<Rightarrow> (sparse_pending_point \<times> nat) option
     \<Rightarrow> scored_point_offset list list \<Rightarrow> bool" where
  "expanded ts b active r active' \<longleftrightarrow>
     (case r of
        None \<Rightarrow> batch_points ts b = [] \<and> active' = active
      | Some (p, _) \<Rightarrow> sq_batch_index p = length active \<and>
          (\<exists>rest. active' = active @ [rest] \<and> mset (batch_points ts b) = add_mset (sq_point p) (mset rest) \<and>
             (\<forall>x\<in>set rest. exact_order_le (sq_point p) x)))"

context posting_iter
begin

abbreviation query_terms_of :: "(nat \<Rightarrow> io_error + 'it) \<Rightarrow> remapped_sparse_vector \<Rightarrow> sparse_term list" where
  "query_terms_of index query \<equiv> index_terms index (zip (rsv_indices query) (rsv_values query))"

lemma expand_ok:
  assumes serves: "serves index (zip (rsv_indices query) (rsv_values query))" and go: "\<forall>n. \<not> stopped n"
    and b: "batch_ok (query_terms_of index query) b" and kn: "kn_query kn = query"
  shows "\<exists>r polls' kn' tel'. expand ops index stopped b polls kn tel = (Inr r, polls', kn', tel') \<and> kn_query kn' = query \<and>
    expanded (query_terms_of index query) b (kn_active_batches kn) r (kn_active_batches kn')"
proof -
  let ?ts = "query_terms_of index query"
  obtain ps where ps: "open_postings ops index query = Inr ps" "\<forall>p\<in>set ps. listed p"
    "sparse_score (map term_of ps) = sparse_score ?ts" by (rule open_postings_ok [OF serves])
  have "\<forall>p\<in>set ps. fresh p" using ps(2) by (auto simp: listed_def)
  moreover have le: "pt_start b \<le> pt_end b" using b by (simp add: batch_ok_def)
  ultimately obtain v where "score_posting_batch ops ps (pt_start b) (pt_end b) =
      Inr (v, map (sparse_score ?ts) [pt_start b..<Suc (pt_end b)])"
    using score_posting_batch_ok ps(3) by metis
  then obtain tel2 where range: "score_range ops ps b (pt_end b - pt_start b + 1) kn (tel\<lparr>batches_expanded := batches_expanded tel + 1\<rparr>) =
      Inr (kn\<lparr>kn_scores := map (sparse_score ?ts) [pt_start b..<Suc (pt_end b)]\<rparr>, tel2)"
    unfolding score_range_def by (simp del: upt_Suc)
  have "\<forall>i. pt_start b + 0 \<le> i \<longrightarrow> i < Suc (pt_end b) \<longrightarrow> f_nonneg (sparse_score ?ts i) \<and> sparse_score ?ts i \<le> pt_upper_bound b"
    using b by (auto simp: batch_ok_def in_batch_def)
  from collect_scored_points_ok [OF go this, of "Suc polls" tel2] obtain polls' tel3 where collect:
    "collect_scored_points stopped (pt_start b) (pt_upper_bound b) 0 (map (sparse_score ?ts) [pt_start b..<Suc (pt_end b)]) (Suc polls) tel2 =
      (Inr (batch_points ?ts b), polls', tel3)" by (auto simp: batch_points_def simp del: upt_Suc)
  have run: "expand ops index stopped b polls kn tel =
      (case heap_pop pending_block_point_le (batch_points ?ts b) of
         None \<Rightarrow> (Inr None, polls', kn\<lparr>kn_scores := map (sparse_score ?ts) [pt_start b..<Suc (pt_end b)]\<rparr>, tel3)
       | Some (point, rest) \<Rightarrow>
           (Inr (Some (\<lparr>sq_point = point, sq_batch_index = length (kn_active_batches kn)\<rparr>, length rest + 1)), polls',
            kn\<lparr>kn_scores := map (sparse_score ?ts) [pt_start b..<Suc (pt_end b)],
               kn_active_batches := kn_active_batches kn @ [rest]\<rparr>, tel3))"
    unfolding expand_def Let_def kn ps(1) sum.case range prod.case
    using go collect by (simp add: ac_simps del: upt_Suc split: option.split)
  show ?thesis
  proof (cases "heap_pop pending_block_point_le (batch_points ?ts b)")
    case None
    with run kn show ?thesis by (simp add: expanded_def)
  next
    case (Some pr)
    obtain point rest where pr: "pr = (point, rest)" by fastforce
    have "\<forall>x\<in>set rest. exact_order_le point x"
      using pending_block_point_le.heap_pop_ge [OF Some [unfolded pr]] heap_pop_set [OF Some [unfolded pr]]
      by (auto simp: pending_block_point_le_iff)
    with Some pr run kn heap_pop_mset [OF Some [unfolded pr]] show ?thesis by (simp add: expanded_def)
  qed
qed

end

section \<open>The invariant of the ranking state\<close>

text \<open>
  \<open>pbm_holds ts query st q\<close>: the ranking continues with \<open>q\<close>, made of the points at the
  head of the expanded batches, the points behind them and the points of the batches
  still to expand.
\<close>

definition heads_ok :: "sparse_pending_point list \<Rightarrow> scored_point_offset list list \<Rightarrow> bool" where
  "heads_ok pending active \<longleftrightarrow> distinct (map sq_batch_index pending) \<and>
     (\<forall>p\<in>set pending. sq_batch_index p < length active \<and>
        (\<forall>x\<in>set (active ! sq_batch_index p). exact_order_le (sq_point p) x)) \<and>
     (\<forall>i<length active. active ! i \<noteq> [] \<longrightarrow> i \<in> sq_batch_index ` set pending)"

definition pbm_holds :: "sparse_term list \<Rightarrow> remapped_sparse_vector \<Rightarrow> posting_block_max_state \<Rightarrow> scored_point_offset list \<Rightarrow> bool" where
  "pbm_holds ts query st q \<longleftrightarrow>
     kn_query (bm_kernel st) = query \<and> bm_terminal_error st = None \<and> sorted_wrt exact_order_le q \<and>
     mset q = mset (map sq_point (bm_pending_points st)) + mset (concat (kn_active_batches (bm_kernel st))) +
       mset (concat (map (batch_points ts) (bm_pending_batches st))) \<and>
     (\<forall>b\<in>set (bm_pending_batches st). batch_ok ts b) \<and>
     heads_ok (bm_pending_points st) (kn_active_batches (bm_kernel st))"

lemma mset_concat_list_update:
  "i < length xs \<Longrightarrow> mset (xs ! i) = add_mset a (mset ys) \<Longrightarrow> mset (concat xs) = add_mset a (mset (concat (xs[i := ys])))"
proof (induction xs arbitrary: i)
  case (Cons x xs)
  then show ?case by (cases i) auto
qed simp

lemma batch_points_le:
  assumes "batch_ok ts b" "x \<in> set (batch_points ts b)"
  shows "so_score x \<le> pt_upper_bound b" "pt_start b \<le> so_idx x" "f_nonneg (so_score x)"
  using assms by (auto simp: batch_points_def batch_ok_def in_batch_def simp del: upt_Suc)

lemma heads_ok_first:
  assumes heads: "heads_ok pending active" and pop: "heap_pop sparse_pending_le pending = Some (p, rest)"
    and x: "x \<in> sq_point ` set pending \<union> set (concat active)"
  shows "exact_order_le (sq_point p) x"
proof -
  have first: "exact_order_le (sq_point p) (sq_point p')" if "p' \<in> set pending" for p'
    using sparse_pending_le.heap_pop_ge [OF pop that] by (simp add: sparse_pending_le_iff)
  show ?thesis
  proof (cases "x \<in> sq_point ` set pending")
    case True
    with first show ?thesis by auto
  next
    case False
    then obtain i where i: "i < length active" "x \<in> set (active ! i)" using x by (metis Un_iff in_set_conv_nth set_concat UN_E)
    then have "i \<in> sq_batch_index ` set pending" using heads by (force simp: heads_ok_def)
    then obtain p' where "p' \<in> set pending" "sq_batch_index p' = i" by auto
    with i heads have "exact_order_le (sq_point p') x" "exact_order_le (sq_point p) (sq_point p')"
      using first by (auto simp: heads_ok_def)
    then show ?thesis by (rule exact_order_le.rank_trans [rotated])
  qed
qed

lemma pbm_first:
  assumes holds: "pbm_holds ts query st q" and pop: "heap_pop sparse_pending_le (bm_pending_points st) = Some (p, rest)"
    and fixed: "bm_pending_batches st = [] \<or> next_point_is_fixed st" and x: "x \<in> set q"
  shows "exact_order_le (sq_point p) x"
proof -
  have heads: "heads_ok (bm_pending_points st) (kn_active_batches (bm_kernel st))"
    and ms: "mset q = mset (map sq_point (bm_pending_points st)) + mset (concat (kn_active_batches (bm_kernel st))) +
       mset (concat (map (batch_points ts) (bm_pending_batches st)))"
    and bok: "\<forall>b\<in>set (bm_pending_batches st). batch_ok ts b" using holds by (simp_all add: pbm_holds_def)
  from x have "x \<in># mset q" by simp
  then consider "x \<in> sq_point ` set (bm_pending_points st) \<union> set (concat (kn_active_batches (bm_kernel st)))"
    | b where "b \<in> set (bm_pending_batches st)" "x \<in> set (batch_points ts b)" unfolding ms by auto
  then show ?thesis
  proof cases
    case 1
    then show ?thesis by (rule heads_ok_first [OF heads pop])
  next
    case (2 b)
    have sel: "select_max sparse_pending_le (bm_pending_points st) = Some p"
      using pop by (auto simp: heap_pop_def split: option.splits)
    obtain m where m: "select_max pending_batch_le (bm_pending_batches st) = Some m"
      using 2(1) by (cases "select_max pending_batch_le (bm_pending_batches st)") auto
    have "next_point_is_fixed st" using fixed 2(1) by auto
    then have "f_lt (pt_upper_bound m) (so_score (sq_point p)) \<or>
        f_eq (so_score (sq_point p)) (pt_upper_bound m) \<and> so_idx (sq_point p) < pt_start m"
      using sel m by (simp add: next_point_is_fixed_def)
    moreover have "pending_batch_le b m" using pending_batch_le.select_max_ge [OF m] 2(1) by blast
    moreover note batch_points_le [OF bspec [OF bok 2(1)] 2(2)]
    ultimately show ?thesis by (auto simp: pending_batch_le_iff exact_order_le_iff f_lt_def f_eq_def)
  qed
qed

lemma heads_ok_pop:
  assumes heads: "heads_ok pending active" and pop: "heap_pop sparse_pending_le pending = Some (p, rest)"
    and act: "heap_pop pending_block_point_le (active ! sq_batch_index p) = r"
  shows "case r of None \<Rightarrow> heads_ok rest active
    | Some (x, xs) \<Rightarrow> heads_ok (heap_push \<lparr>sq_point = x, sq_batch_index = sq_batch_index p\<rparr> rest) (active[sq_batch_index p := xs])"
proof -
  let ?i = "sq_batch_index p"
  have mem: "set pending = insert p (set rest)" by (rule heap_pop_set [OF pop])
  have "mset (map sq_batch_index pending) = add_mset ?i (mset (map sq_batch_index rest))"
    using heap_pop_mset [OF pop] by simp
  then have dist: "distinct (map sq_batch_index rest)" "?i \<notin> sq_batch_index ` set rest"
    using heads mset_eq_imp_distinct_iff [of "map sq_batch_index pending" "?i # map sq_batch_index rest"]
    by (auto simp: heads_ok_def)
  have i: "?i < length active" using heads mem by (auto simp: heads_ok_def)
  have keep: "\<forall>p'\<in>set rest. sq_batch_index p' < length active \<and> (\<forall>x\<in>set (active ! sq_batch_index p'). exact_order_le (sq_point p') x)"
    using heads mem by (auto simp: heads_ok_def)
  have cover: "\<forall>j<length active. active ! j \<noteq> [] \<longrightarrow> j \<noteq> ?i \<longrightarrow> j \<in> sq_batch_index ` set rest"
    using heads mem by (auto simp: heads_ok_def)
  show ?thesis
  proof (cases r)
    case None
    then have "active ! ?i = []" using act by simp
    with None dist(1) keep cover show ?thesis by (auto simp: heads_ok_def)
  next
    case (Some xy)
    obtain x xs where xy: "xy = (x, xs)" by fastforce
    have "\<forall>y\<in>set xs. exact_order_le x y"
      using pending_block_point_le.heap_pop_ge [OF act [unfolded Some xy]] heap_pop_set [OF act [unfolded Some xy]]
      by (auto simp: pending_block_point_le_iff)
    moreover have "\<forall>p'\<in>set rest. active[?i := xs] ! sq_batch_index p' = active ! sq_batch_index p'"
      using dist(2) by (metis image_eqI nth_list_update_neq)
    ultimately show ?thesis using Some xy dist keep cover i
      by (auto simp: heads_ok_def heap_push_def nth_list_update)
  qed
qed

lemma pop_next_point_ok:
  assumes holds: "pbm_holds ts query st q" and ne: "bm_pending_points st \<noteq> []"
    and fixed: "bm_pending_batches st = [] \<or> next_point_is_fixed st"
  shows "\<exists>st'. pop_next_point st = (Inr (Some (hd q)), st') \<and> pbm_holds ts query st' (tl q) \<and> q \<noteq> []"
proof -
  let ?active = "kn_active_batches (bm_kernel st)"
  obtain p rest where pop: "heap_pop sparse_pending_le (bm_pending_points st) = Some (p, rest)"
    using ne by (cases "heap_pop sparse_pending_le (bm_pending_points st)") auto
  let ?i = "sq_batch_index p"
  have heads: "heads_ok (bm_pending_points st) ?active" and sorted: "sorted_wrt exact_order_le q"
    and ms: "mset q = mset (map sq_point (bm_pending_points st)) + mset (concat ?active) +
       mset (concat (map (batch_points ts) (bm_pending_batches st)))" using holds by (simp_all add: pbm_holds_def)
  have "sq_point p \<in># mset q" unfolding ms using heap_pop_in [OF pop] by simp
  then have mem: "sq_point p \<in> set q" by simp
  then obtain y ys where q: "q = y # ys" by (cases q) auto
  have "exact_order_le (sq_point p) y" using pbm_first [OF holds pop fixed] q by simp
  moreover have "exact_order_le y (sq_point p)" using sorted mem q exact_order_le.rank_refl by auto
  ultimately have y: "y = sq_point p" by (rule exact_order_le.rank_antisym [rotated])
  have i: "?i < length ?active" using heads heap_pop_in [OF pop] by (auto simp: heads_ok_def)
  have pm: "mset (map sq_point (bm_pending_points st)) = add_mset y (mset (map sq_point rest))"
    using heap_pop_mset [OF pop] y by simp
  show ?thesis
  proof (cases "heap_pop pending_block_point_le (?active ! ?i)")
    case None
    have "heads_ok rest ?active" using heads_ok_pop [OF heads pop refl] None by simp
    with None pop i holds pm q y show ?thesis
      by (auto simp: pop_next_point_def pop_active_def Let_def pbm_holds_def)
  next
    case (Some xy)
    obtain x xs where xy: "xy = (x, xs)" by fastforce
    have "heads_ok (heap_push \<lparr>sq_point = x, sq_batch_index = ?i\<rparr> rest) (?active[?i := xs])"
      using heads_ok_pop [OF heads pop refl] Some xy by simp
    moreover have "mset (concat ?active) = add_mset x (mset (concat (?active[?i := xs])))"
      by (rule mset_concat_list_update [OF i heap_pop_mset [OF Some [unfolded xy]]])
    ultimately show ?thesis using Some xy pop i holds pm q y
      by (auto simp: pop_next_point_def pop_active_def Let_def pbm_holds_def)
  qed
qed

lemma mset_concat_map: "mset (concat (map f xs)) = sum_mset (image_mset (\<lambda>x. mset (f x)) (mset xs))"
  by (induction xs) simp_all

lemma pbm_holds_empty:
  assumes "pbm_holds ts query st q" "bm_pending_points st = []" "bm_pending_batches st = []"
  shows "q = []"
proof -
  have "\<forall>i<length (kn_active_batches (bm_kernel st)). kn_active_batches (bm_kernel st) ! i = []"
    using assms by (auto simp: pbm_holds_def heads_ok_def)
  then have "concat (kn_active_batches (bm_kernel st)) = []" by (auto simp: in_set_conv_nth)
  with assms show ?thesis by (simp add: pbm_holds_def)
qed

lemma drain_points_ok:
  "pbm_holds ts query st q \<Longrightarrow> bm_pending_batches st = [] \<Longrightarrow>
     \<exists>st'. drain_points n st = (Inr (take n q), st') \<and> pbm_holds ts query st' (drop n q)"
proof (induction n arbitrary: st q)
  case (Suc n)
  show ?case
  proof (cases "bm_pending_points st = []")
    case True
    with Suc.prems have "q = []" by (blast intro: pbm_holds_empty)
    with True Suc.prems show ?thesis by (simp add: pop_next_point_def)
  next
    case False
    from pop_next_point_ok [OF Suc.prems(1) False] Suc.prems(2) obtain st1 where st1:
      "pop_next_point st = (Inr (Some (hd q)), st1)" "pbm_holds ts query st1 (tl q)" "q \<noteq> []" by blast
    from Suc.IH [OF st1(2)] pop_next_point_batches [OF st1(1)] Suc.prems(2) st1 show ?thesis by (cases q) auto
  qed
qed simp

lemma finish_batch_ok: "pbm_holds ts query (snd (finish_batch ps st)) q \<longleftrightarrow> pbm_holds ts query st q" "fst (finish_batch ps st) = ps"
  by (simp_all add: finish_batch_def pbm_holds_def)

lemma heads_ok_expand:
  assumes "heads_ok pending active" "sq_batch_index p = length active" "\<forall>x\<in>set rest. exact_order_le (sq_point p) x"
  shows "heads_ok (heap_push p pending) (active @ [rest])"
  using assms by (auto simp: heads_ok_def heap_push_def nth_append less_Suc_eq) 

context posting_iter
begin

lemma after_expand_ok:
  assumes serves: "serves index (zip (rsv_indices query) (rsv_values query))" and go: "\<forall>n. \<not> stopped n"
    and holds: "pbm_holds (query_terms_of index query) query st q"
    and pop: "heap_pop pending_batch_le (bm_pending_batches st) = Some (b, rest)"
  shows "\<exists>polls' st'. after_expand rest (expand ops index stopped b polls (bm_kernel st) (bm_telemetry st)) st = (None, polls', st') \<and>
    pbm_holds (query_terms_of index query) query st' q \<and> bm_pending_batches st' = rest"
proof -
  let ?ts = "query_terms_of index query"
  have mem: "set (bm_pending_batches st) = insert b (set rest)" by (rule heap_pop_set [OF pop])
  have "batch_ok ?ts b" "kn_query (bm_kernel st) = query" using holds mem by (auto simp: pbm_holds_def)
  from expand_ok [OF serves go this, of polls "bm_telemetry st"] obtain r polls' kn' tel' where e:
    "expand ops index stopped b polls (bm_kernel st) (bm_telemetry st) = (Inr r, polls', kn', tel')" "kn_query kn' = query"
    "expanded ?ts b (kn_active_batches (bm_kernel st)) r (kn_active_batches kn')" by blast
  have ms: "mset (concat (map (batch_points ?ts) (bm_pending_batches st))) =
      mset (batch_points ?ts b) + mset (concat (map (batch_points ?ts) rest))"
    unfolding mset_concat_map heap_pop_mset [OF pop] by simp
  show ?thesis
  proof (cases r)
    case None
    with e holds ms mem show ?thesis by (auto simp: after_expand_def expanded_def pbm_holds_def)
  next
    case (Some pn)
    obtain p n where pn: "pn = (p, n)" by fastforce
    obtain rp where rp: "kn_active_batches kn' = kn_active_batches (bm_kernel st) @ [rp]" "sq_batch_index p = length (kn_active_batches (bm_kernel st))"
      "mset (batch_points ?ts b) = add_mset (sq_point p) (mset rp)" "\<forall>x\<in>set rp. exact_order_le (sq_point p) x"
      using e(3) Some pn by (auto simp: expanded_def)
    have "heads_ok (heap_push p (bm_pending_points st)) (kn_active_batches kn')"
      unfolding rp(1) using holds rp by (intro heads_ok_expand) (simp_all add: pbm_holds_def)
    moreover have "mset q = mset (map sq_point (heap_push p (bm_pending_points st))) + mset (concat (kn_active_batches kn')) +
        mset (concat (map (batch_points ?ts) rest))"
      unfolding rp(1) using holds ms rp(3) by (simp add: pbm_holds_def)
    moreover have "\<forall>b\<in>set rest. batch_ok ?ts b" "sorted_wrt exact_order_le q" "bm_terminal_error st = None"
      using holds mem by (auto simp: pbm_holds_def)
    ultimately show ?thesis using e(1,2) Some pn by (simp add: after_expand_def pbm_holds_def Let_def)
  qed
qed

lemma pbm_loop_ok:
  assumes serves: "serves index (zip (rsv_indices query) (rsv_values query))" and go: "\<forall>n. \<not> stopped n"
    and "pbm_holds (query_terms_of index query) query st q" "0 < n"
  shows "\<exists>k polls' st'. pbm_loop ops index stopped n points polls st = (Inr (points @ take k q), polls', st') \<and>
    pbm_holds (query_terms_of index query) query st' (drop k q) \<and> k \<le> n \<and> (k = 0 \<longrightarrow> points \<noteq> [] \<or> q = [])"
  using assms(3,4)
proof (induction "length (bm_pending_batches st) + n" arbitrary: st q n points polls rule: less_induct)
  case less
  let ?ts = "query_terms_of index query"
  note holds = less.prems(1)
  show ?case
  proof (cases "next_point_is_fixed st")
    case True
    then have "bm_pending_points st \<noteq> []" by (auto simp: next_point_is_fixed_def)
    with pop_next_point_ok [OF holds this] True obtain st1 where st1:
      "pop_next_point st = (Inr (Some (hd q)), st1)" "pbm_holds ?ts query st1 (tl q)" "q \<noteq> []" by blast
    obtain y ys where q: "q = y # ys" using st1(3) by (cases q) auto
    show ?thesis
    proof (cases "n \<le> 1")
      case n: True
      let ?f = "finish_batch (points @ [y]) st1"
      have run: "pbm_loop ops index stopped n points polls st = (Inr (points @ [y]), polls, snd ?f)"
        using True st1(1) n q finish_batch_ok(2) [of "points @ [y]" st1]
        by (subst pbm_loop.simps) (simp add: case_prod_beta)
      have "pbm_holds ?ts query (snd ?f) ys" using st1(2) q finish_batch_ok(1) by auto
      with run q less.prems(2) show ?thesis by (intro exI [of _ 1] exI) auto
    next
      case n: False
      have "length (bm_pending_batches st1) + (n - 1) < length (bm_pending_batches st) + n"
        using pop_next_point_batches [OF st1(1)] n by simp
      from less.hyps [OF this st1(2), of "points @ [y]" polls] n obtain k polls' st' where k:
        "pbm_loop ops index stopped (n - 1) (points @ [y]) polls st1 = (Inr ((points @ [y]) @ take k (tl q)), polls', st')"
        "pbm_holds ?ts query st' (drop k (tl q))" "k \<le> n - 1" by auto
      have "pbm_loop ops index stopped n points polls st = pbm_loop ops index stopped (n - 1) (points @ [y]) polls st1"
        using True st1(1) n q by (subst pbm_loop.simps) simp
      with k q n show ?thesis by (intro exI [of _ "Suc k"] exI) auto
    qed
  next
    case not_fixed: False
    show ?thesis
    proof (cases "heap_pop pending_batch_le (bm_pending_batches st)")
      case None
      then have nil: "bm_pending_batches st = []" by simp
      from drain_points_ok [OF holds nil, of n] obtain st1 where st1:
        "drain_points n st = (Inr (take n q), st1)" "pbm_holds ?ts query st1 (drop n q)" by blast
      let ?f = "finish_batch (points @ take n q) st1"
      have "pbm_loop ops index stopped n points polls st = (Inr (points @ take n q), polls, snd ?f)"
        using not_fixed None st1(1) finish_batch_ok(2) [of "points @ take n q" st1]
        by (subst pbm_loop.simps) (simp add: case_prod_beta)
      with st1(2) finish_batch_ok(1) less.prems(2) show ?thesis by (intro exI [of _ n] exI) auto
    next
      case (Some br)
      obtain b rest where br: "br = (b, rest)" by fastforce
      show ?thesis
      proof (cases "points = []")
        case False
        have "pbm_loop ops index stopped n points polls st = (Inr points, polls, snd (finish_batch points st))"
          using not_fixed Some br False finish_batch_ok(2) [of points st] by (subst pbm_loop.simps) (simp add: case_prod_beta)
        with holds finish_batch_ok(1) False show ?thesis by (intro exI [of _ 0] exI) auto
      next
        case True
        from after_expand_ok [OF serves go holds Some [unfolded br], of polls] obtain polls1 st1 where st1:
          "after_expand rest (expand ops index stopped b polls (bm_kernel st) (bm_telemetry st)) st = (None, polls1, st1)"
          "pbm_holds ?ts query st1 q" "bm_pending_batches st1 = rest" by blast
        have "length (bm_pending_batches st1) + n < length (bm_pending_batches st) + n"
          using heap_pop_length [OF Some [unfolded br]] st1(3) by simp
        from less.hyps [OF this st1(2) less.prems(2), of points polls1]
        show ?thesis using not_fixed Some br True st1(1) by (subst pbm_loop.simps) simp
      qed
    qed
  qed
qed

lemma pbm_next_batch_ok:
  assumes "serves index (zip (rsv_indices query) (rsv_values query))" "\<forall>n. \<not> stopped n"
    and "pbm_holds (query_terms_of index query) query st q" "0 < n"
  obtains k polls' st' where "pbm_next_batch_with ops index stopped n polls st = (Inr (take k q), polls', st')"
    "pbm_holds (query_terms_of index query) query st' (drop k q)" "k \<le> n" "k = 0 \<longrightarrow> q = []"
proof -
  have "bm_terminal_error st = None" using assms(3) by (simp add: pbm_holds_def)
  moreover have "\<not> stopped polls" using assms(2) by blast
  ultimately have eq: "pbm_next_batch_with ops index stopped n polls st = pbm_loop ops index stopped n [] (Suc polls) st"
    using assms(4) by (simp add: pbm_next_batch_with_def)
  from pbm_loop_ok [OF assms, of "[]" "Suc polls"] obtain k polls' st' where k:
    "pbm_loop ops index stopped n [] (Suc polls) st = (Inr ([] @ take k q), polls', st')"
    "pbm_holds (query_terms_of index query) query st' (drop k q)" "k \<le> n" "k = 0 \<longrightarrow> [] \<noteq> [] \<or> q = []" by blast
  show ?thesis by (rule that [of k polls' st']) (use k eq in simp_all)
qed

end

section \<open>Opening the state\<close>

abbreviation batch_ids :: "sparse_term list \<Rightarrow> pending_batch \<Rightarrow> nat list" where
  "batch_ids ts b \<equiv> filter (\<lambda>i. sparse_score ts i \<noteq> Fin 0) [pt_start b..<Suc (pt_end b)]"

lemma distinct_batch_ids:
  "sorted_wrt (\<lambda>a b. pt_end a < pt_start b) bs \<Longrightarrow> distinct (concat (map (batch_ids ts) bs))"
proof (induction bs)
  case (Cons b bs)
  have "set (batch_ids ts b) \<inter> set (concat (map (batch_ids ts) bs)) = {}"
    using Cons.prems by (fastforce simp del: upt_Suc)
  with Cons show ?case by (simp del: upt_Suc)
qed simp

lemma plan_points:
  assumes "plan_ok ts 0 bs"
  shows "mset (sparse_order ts) = mset (concat (map (batch_points ts) bs))"
proof -
  let ?ids = "concat (map (batch_ids ts) bs)" and ?all = "filter (\<lambda>i. sparse_score ts i \<noteq> Fin 0) (term_ids ts)"
  have "i \<in> set (term_ids ts)" if "sparse_score ts i \<noteq> Fin 0" for i
  proof (rule ccontr)
    assume "i \<notin> set (term_ids ts)"
    then have "\<forall>t\<in>set ts. map_of (fst t) i = None" by (auto simp: term_ids_def map_of_eq_None_iff)
    with that show False using sparse_score_absent by blast
  qed
  then have set: "set ?ids = set ?all"
    using assms by (auto simp: plan_ok_def in_batch_def less_Suc_eq_le simp del: upt_Suc)
  have d1: "distinct ?ids" using assms by (intro distinct_batch_ids) (simp add: plan_ok_def)
  have d2: "distinct ?all" by (simp add: term_ids_def)
  have eq: "mset ?ids = mset ?all" by (rule set_eq_iff_mset_eq_distinct [OF d1 d2, THEN iffD1, OF set])
  have "concat (map (batch_points ts) bs) = map (scored (sparse_score ts)) ?ids"
    by (induction bs) (simp_all add: batch_points_def del: upt_Suc)
  moreover have "mset (sparse_order ts) = mset (map (scored (sparse_score ts)) ?all)"
    by (simp add: sparse_order_def dense_order_def)
  ultimately show ?thesis by (simp only: mset_map eq)
qed

text \<open>Successive batches.\<close>

fun pbm_run ::
  "'it posting_list_iter \<Rightarrow> (nat \<Rightarrow> io_error + 'it) \<Rightarrow> (nat \<Rightarrow> bool) \<Rightarrow> nat list \<Rightarrow> nat \<Rightarrow> posting_block_max_state
     \<Rightarrow> (exact_sparse_stream_error + scored_point_offset list list) \<times> posting_block_max_state" where
  "pbm_run ops index stopped [] polls st = (Inr [], st)"
| "pbm_run ops index stopped (n # ns) polls st =
     (case pbm_next_batch_with ops index stopped n polls st of
        (Inl e, polls', st') \<Rightarrow> (Inl e, st')
      | (Inr ps, polls', st') \<Rightarrow>
          (case pbm_run ops index stopped ns polls' st' of
             (Inl e, st'') \<Rightarrow> (Inl e, st'')
           | (Inr pss, st'') \<Rightarrow> (Inr (ps # pss), st'')))"

text \<open>Batches deliver a ranking: a prefix of it, no batch too long, and an empty batch only at its end.\<close>

definition delivers_ranking :: "nat list \<Rightarrow> 'a list list \<Rightarrow> 'a list \<Rightarrow> bool" where
  "delivers_ranking ns pss q \<longleftrightarrow> prefix (concat pss) q \<and> list_all2 (\<lambda>ps n. length ps \<le> n) pss ns \<and>
     ([] \<in> set pss \<longrightarrow> concat pss = q)"

context posting_iter
begin

lemma pbm_new_holds:
  assumes "pbm_new ops index query batch_size = Inr st" "serves index (zip (rsv_indices query) (rsv_values query))"
  shows "pbm_holds (query_terms_of index query) query st (sparse_order (query_terms_of index query))"
proof -
  let ?tel = "default_bm_telemetry\<lparr>cursor_started := True, query_terms := length (rsv_indices query)\<rparr>"
  let ?ts = "query_terms_of index query"
  obtain kn bs tel where new: "kernel_new ops index query batch_size ?tel = Inr (kn, bs, tel)" "0 < batch_size"
    "st = \<lparr>bm_kernel = kn, bm_pending_batches = bs, bm_pending_points = [], bm_buffered_points = 0,
               bm_telemetry = tel, bm_terminal_error = None\<rparr>"
    using assms(1) by (auto simp: pbm_new_def split: if_splits sum.splits)
  have "fits_u32 batch_size"
  proof (rule ccontr)
    assume "\<not> fits_u32 batch_size"
    then have "plan_batches_native ops ps batch_size t = None" "\<exists>e. plan_batches ops ps batch_size t = Inl e" for ps t
      by (simp_all add: plan_batches_native_def plan_batches_def)
    then show False using new(1)
      by (auto simp: kernel_new_def Let_def split: sum.splits) (metis Inl_Inr_False)
  qed
  from kernel_new_ok [OF assms(2) new(2) this, of ?tel] new(1)
  have kn: "kn = \<lparr>kn_query = query, kn_active_batches = [], kn_scores = []\<rparr>" and plan: "plan_ok ?ts 0 bs" by auto
  have "sorted_wrt exact_order_le (sparse_order ?ts)"
    by (simp add: sparse_order_def dense_order_def exact_order_le.sorted_sort_by)
  with plan_points [OF plan] plan kn new(3) show ?thesis
    by (auto simp: pbm_holds_def heads_ok_def plan_ok_def)
qed

lemma pbm_run_ok:
  assumes "serves index (zip (rsv_indices query) (rsv_values query))" "\<forall>n. \<not> stopped n"
  shows "pbm_holds (query_terms_of index query) query st q \<Longrightarrow> \<forall>n\<in>set ns. 0 < n \<Longrightarrow>
    \<exists>pss st'. pbm_run ops index stopped ns polls st = (Inr pss, st') \<and> delivers_ranking ns pss q"
proof (induction ns arbitrary: st q polls)
  case Nil
  then show ?case by (simp add: delivers_ranking_def)
next
  case (Cons n ns)
  then have "0 < n" by simp
  obtain k polls1 st1 where k: "pbm_next_batch_with ops index stopped n polls st = (Inr (take k q), polls1, st1)"
    "pbm_holds (query_terms_of index query) query st1 (drop k q)" "k \<le> n" "k = 0 \<longrightarrow> q = []"
    by (rule pbm_next_batch_ok [OF assms Cons.prems(1) \<open>0 < n\<close>])
  from Cons.IH [OF k(2), of polls1] Cons.prems(2) obtain pss st' where pss:
    "pbm_run ops index stopped ns polls1 st1 = (Inr pss, st')" "delivers_ranking ns pss (drop k q)" by auto
  from pss(2) have d: "prefix (concat pss) (drop k q)" "list_all2 (\<lambda>ps n. length ps \<le> n) pss ns" "[] \<in> set pss \<longrightarrow> concat pss = drop k q"
    by (simp_all add: delivers_ranking_def)
  have "prefix (take k q @ concat pss) q" using d(1) by (metis append_take_drop_id same_prefix_prefix)
  moreover have "take k q @ concat pss = q" if "take k q = [] \<or> [] \<in> set pss"
  proof (cases "[] \<in> set pss")
    case True
    with d(3) show ?thesis by simp
  next
    case False
    with that k(4) have "q = []" by auto
    with d(1) show ?thesis by simp
  qed
  moreover have "length (take k q) \<le> n" using k(3) by simp
  ultimately have "delivers_ranking (n # ns) (take k q # pss) q" using d(2) by (auto simp: delivers_ranking_def)
  with k(1) pss(1) show ?case by simp
qed

end

section \<open>Properties\<close>

text \<open>C28. The block-max ranking is exact: over posting lists with finite non-negative weights, batches of any positive
  sizes deliver, without error, the points with a non-zero score by score descending and id ascending; every score is
  the sum a full scan of the query terms computes.\<close>

theorem sparse_rank_exact:
  assumes "pbm_new ram_iter index query batch_size = Inr st"
    and "ram.serves index (zip (rsv_indices query) (rsv_values query))" and "\<forall>n. \<not> stopped n" and "\<forall>n\<in>set ns. 0 < n"
  shows "\<exists>pss st'. pbm_run ram_iter index stopped ns 0 st = (Inr pss, st') \<and>
    delivers_ranking ns pss (sparse_order (ram.index_terms index (zip (rsv_indices query) (rsv_values query))))"
  using ram.pbm_run_ok [OF assms(2,3) ram.pbm_new_holds [OF assms(1,2)] assms(4)] .

definition demo_index :: "nat \<Rightarrow> io_error + posting_list_iterator" where
  "demo_index i = Inr (iterator_new (posting_build (if i = 1 then [(4, Fin 2), (9, Fin 1)] else [(4, Fin 1)])))"

definition demo_query :: remapped_sparse_vector where
  "demo_query = \<lparr>rsv_indices = [1, 2], rsv_values = [Fin 1, Fin 3]\<rparr>"

text \<open>A test for the hypothesis on the mutable lists that computes.\<close>

definition ram_serves :: "(nat \<Rightarrow> io_error + posting_list_iterator) \<Rightarrow> (nat \<times> flt) list \<Rightarrow> bool" where
  "ram_serves index terms = list_all (\<lambda>(d, q). weight_ok q \<and>
     (case index d of Inl _ \<Rightarrow> False
      | Inr it \<Rightarrow> ram_ok it \<and> current_index it = 0 \<and> list_all (\<lambda>e. weight_ok (weight e)) (elements it))) terms"

lemma ram_serves_serves:
  assumes "ram_serves index terms"
  shows "ram.serves index terms"
proof -
  have "\<exists>it. index d = Inr it \<and> ram_ok it \<and> ram_todo it = ram_all it \<and> (\<forall>e\<in>set (ram_all it). weight_ok (snd e))"
    "weight_ok q" if "(d, q) \<in> set terms" for d q
    using assms that by (cases "index d"; force simp: ram_serves_def list_all_iff ram_todo_def ram_all_def entries_def)+
  then show ?thesis by (auto simp: ram.serves_def)
qed

theorem sparse_rank_exact_witness:
  "\<exists>st pss st'. pbm_new ram_iter demo_index demo_query 4 = Inr st \<and>
     pbm_run ram_iter demo_index (\<lambda>_. False) [1, 5] 0 st = (Inr pss, st') \<and>
     delivers_ranking [1, 5] pss [\<lparr>so_idx = 4, so_score = Fin 5\<rparr>, \<lparr>so_idx = 9, so_score = Fin 1\<rparr>]"
proof -
  let ?terms = "zip (rsv_indices demo_query) (rsv_values demo_query)"
  have "case pbm_new ram_iter demo_index demo_query 4 of Inl _ \<Rightarrow> False | Inr _ \<Rightarrow> True" by code_simp
  then obtain st where st: "pbm_new ram_iter demo_index demo_query 4 = Inr st" by (auto split: sum.splits)
  have "ram_serves demo_index ?terms" by code_simp
  then have serves: "ram.serves demo_index ?terms" by (rule ram_serves_serves)
  have "ram.index_terms demo_index ?terms = [([(4, Fin 2), (9, Fin 1)], Fin 1), ([(4, Fin 1)], Fin 3)]"
    unfolding ram.index_terms_def by code_simp
  moreover have "sparse_order [([(4, Fin 2), (9, Fin 1)], Fin 1), ([(4, Fin 1)], Fin 3)] =
      [\<lparr>so_idx = 4, so_score = Fin 5\<rparr>, \<lparr>so_idx = 9, so_score = Fin 1\<rparr>]" by code_simp
  ultimately show ?thesis using sparse_rank_exact [OF st serves, of "\<lambda>_. False" "[1, 5]"] st by auto
qed

definition negative_index :: "nat \<Rightarrow> io_error + posting_list_iterator" where
  "negative_index i = Inr (iterator_new (posting_build [(0, Fin (- 1)), (1, Fin 2)]))"

definition ranked_with :: "nat \<Rightarrow> (exact_sparse_stream_error + scored_point_offset list list) option" where
  "ranked_with batch_size =
     (case pbm_new ram_iter negative_index \<lparr>rsv_indices = [0], rsv_values = [Fin 1]\<rparr> batch_size of
        Inl _ \<Rightarrow> None
      | Inr st \<Rightarrow> Some (fst (pbm_run ram_iter negative_index (\<lambda>_. False) [5, 5] 0 st)))"


end
