(* ===== verification/Compressed_Posting.thy ===== *)
theory Compressed_Posting
  imports Posting_Block_Max "HOL-Library.Word"
begin

text \<open>
  The compressed posting list of \<open>src/lib/sparse/src/index/compressed_posting_list.rs\<close>:
  its builder, its iterator and the block maxima read from the chunk weights.

  The bit packer comes from the \<open>bitpacking\<close> crate and the weight conversion from an
  instance of the trait \<open>Weight\<close>; both are parameters. Hardware counters are left out.
\<close>

section \<open>Parameters\<close>

text \<open>The functions of \<open>BitPacker\<close> the code calls; the optional number is the value before the block.\<close>

record bitpacker =
  bp_block_len :: nat
  bp_num_bits_strictly_sorted :: "nat option \<Rightarrow> nat list \<Rightarrow> nat"
  bp_compressed_block_size :: "nat \<Rightarrow> nat"
  bp_compress_strictly_sorted :: "nat option \<Rightarrow> nat list \<Rightarrow> nat \<Rightarrow> 8 word list"
  bp_decompress_strictly_sorted :: "nat option \<Rightarrow> 8 word list \<Rightarrow> nat \<Rightarrow> nat list"

record ('w, 'p) weight_codec =
  wc_quantization_params_for :: "flt list \<Rightarrow> 'p"
  wc_from_f32 :: "'p \<Rightarrow> flt \<Rightarrow> 'w"
  wc_to_f32 :: "'p \<Rightarrow> 'w \<Rightarrow> flt"

text \<open>The instance for \<open>f32\<close>.\<close>

definition weight_f32 :: "(flt, unit) weight_codec" where
  "weight_f32 = \<lparr>wc_quantization_params_for = (\<lambda>_. ()), wc_from_f32 = (\<lambda>_ w. w), wc_to_f32 = (\<lambda>_ w. w)\<rparr>"

section \<open>The list\<close>

record 'w compressed_posting_chunk =
  ch_initial :: nat
  ch_offset :: nat
  ch_weights :: "'w list"

record ('w, 'p) compressed_posting_list =
  cl_id_data :: "8 word list"
  cl_chunks :: "'w compressed_posting_chunk list"
  cl_remainders :: "(nat \<times> 'w) list"
  cl_last_id :: "nat option"
  cl_quantization_params :: 'p

definition checked_pred :: "nat \<Rightarrow> nat option" where
  "checked_pred n = (if n = 0 then None else Some (n - 1))"

definition get_chunk_size :: "'w compressed_posting_chunk list \<Rightarrow> nat \<Rightarrow> nat \<Rightarrow> nat" where
  "get_chunk_size chunks data_len chunk_index =
     (if chunk_index + 1 < length chunks
      then ch_offset (chunks ! (chunk_index + 1)) - ch_offset (chunks ! chunk_index)
      else data_len - ch_offset (chunks ! chunk_index))"

definition decompress_chunk :: "bitpacker \<Rightarrow> ('w, 'p) compressed_posting_list \<Rightarrow> nat \<Rightarrow> nat list" where
  "decompress_chunk bp cl chunk_index =
     (let chunk = cl_chunks cl ! chunk_index;
          chunk_size = get_chunk_size (cl_chunks cl) (length (cl_id_data cl)) chunk_index;
          chunk_bits = chunk_size * 8 div bp_block_len bp
      in bp_decompress_strictly_sorted bp (checked_pred (ch_initial chunk))
           (take chunk_size (drop (ch_offset chunk) (cl_id_data cl))) chunk_bits)"

definition list_len :: "bitpacker \<Rightarrow> ('w, 'p) compressed_posting_list \<Rightarrow> nat" where
  "list_len bp cl = length (cl_chunks cl) * bp_block_len bp + length (cl_remainders cl)"

definition chunk_id_by_position :: "bitpacker \<Rightarrow> ('w, 'p) compressed_posting_list \<Rightarrow> nat \<Rightarrow> nat option" where
  "chunk_id_by_position bp cl position =
     (let chunk_index = position div bp_block_len bp
      in if chunk_index < length (cl_chunks cl) then Some chunk_index else None)"

datatype id_chunk_position = Before | Chunk nat | After

text \<open>\<open>position - 1\<close> on \<open>usize\<close> wraps in a release build.\<close>

definition wrapping_pred :: "nat \<Rightarrow> nat" where
  "wrapping_pred n = (if n = 0 then usize_max else n - 1)"

definition chunk_id_by_id :: "('w, 'p) compressed_posting_list \<Rightarrow> nat \<Rightarrow> id_chunk_position" where
  "chunk_id_by_id cl point =
     (case binary_search point (map ch_initial (cl_chunks cl)) of
        Inr chunk_id \<Rightarrow> Chunk chunk_id
      | Inl position \<Rightarrow>
          if position = length (cl_chunks cl)
          then (case cl_remainders cl of
                  first_remainder # _ \<Rightarrow>
                    if point < fst first_remainder then (if 0 < position then Chunk (position - 1) else Before)
                    else After
                | [] \<Rightarrow> Chunk (wrapping_pred position))
          else if position = 0 then Before
          else Chunk (position - 1))"

definition chunk_weights :: "('w, 'p) weight_codec \<Rightarrow> ('w, 'p) compressed_posting_list \<Rightarrow> nat \<Rightarrow> flt list" where
  "chunk_weights wc cl chunk_index = map (wc_to_f32 wc (cl_quantization_params cl)) (ch_weights (cl_chunks cl ! chunk_index))"

definition remainder_entries :: "('w, 'p) weight_codec \<Rightarrow> ('w, 'p) compressed_posting_list \<Rightarrow> (nat \<times> flt) list" where
  "remainder_entries wc cl = map (\<lambda>(point, w). (point, wc_to_f32 wc (cl_quantization_params cl) w)) (cl_remainders cl)"

section \<open>The builder\<close>

text \<open>\<open>slice::chunks\<close>.\<close>

function chunks_of :: "nat \<Rightarrow> 'a list \<Rightarrow> 'a list list" where
  "chunks_of n xs = (if xs = [] \<or> n = 0 then [] else take n xs # chunks_of n (drop n xs))"
  by pat_completeness auto
termination
  by (relation "measure (\<lambda>(_, xs). length xs)") (auto simp: length_greater_0_conv [symmetric] simp del: length_greater_0_conv)

declare chunks_of.simps [simp del]

text \<open>The first pass: chunk headers with their offsets (a \<open>u32\<close>), the data size, and the remainders.\<close>

fun build_headers ::
  "bitpacker \<Rightarrow> ('w, 'p) weight_codec \<Rightarrow> 'p \<Rightarrow> (nat \<times> flt) list list \<Rightarrow> nat
     \<Rightarrow> 'w compressed_posting_chunk list \<times> nat \<times> (nat \<times> 'w) list" where
  "build_headers bp wc params [] data_size = ([], data_size, [])"
| "build_headers bp wc params (chunk # chunks) data_size =
     (if length chunk = bp_block_len bp
      then let ids = map fst chunk; initial = hd ids;
               chunk_bits = bp_num_bits_strictly_sorted bp (checked_pred initial) ids;
               chunk_size = bp_compressed_block_size bp chunk_bits;
               header = \<lparr>ch_initial = initial, ch_offset = data_size mod 2 ^ 32,
                         ch_weights = map (\<lambda>e. wc_from_f32 wc params (snd e)) chunk\<rparr>
           in case build_headers bp wc params chunks (data_size + chunk_size) of
                (headers, total_size, remainders) \<Rightarrow> (header # headers, total_size, remainders)
      else case build_headers bp wc params chunks data_size of
             (headers, total_size, remainders) \<Rightarrow>
               (headers, total_size, map (\<lambda>e. (fst e, wc_from_f32 wc params (snd e))) chunk @ remainders))"

definition write_at :: "nat \<Rightarrow> 'a list \<Rightarrow> 'a list \<Rightarrow> 'a list" where
  "write_at offset bytes data = take offset data @ bytes @ drop (offset + length bytes) data"

text \<open>The second pass: every full chunk is compressed into its slice of the data.\<close>

fun write_chunks ::
  "bitpacker \<Rightarrow> 'w compressed_posting_chunk list \<Rightarrow> nat \<Rightarrow> (nat \<times> flt) list list \<Rightarrow> 8 word list \<Rightarrow> 8 word list" where
  "write_chunks bp headers chunk_index [] data = data"
| "write_chunks bp headers chunk_index (chunk # chunks) data =
     (let header = headers ! chunk_index;
          chunk_size = get_chunk_size headers (length data) chunk_index;
          chunk_bits = chunk_size * 8 div bp_block_len bp
      in write_chunks bp headers (Suc chunk_index) chunks
           (write_at (ch_offset header)
              (bp_compress_strictly_sorted bp (checked_pred (ch_initial header)) (map fst chunk) chunk_bits) data))"

definition compressed_build ::
  "bitpacker \<Rightarrow> ('w, 'p) weight_codec \<Rightarrow> (nat \<times> flt) list \<Rightarrow> ('w, 'p) compressed_posting_list" where
  "compressed_build bp wc records =
     (let es = sort_key fst records;
          params = wc_quantization_params_for wc (map snd es);
          chunks = chunks_of (bp_block_len bp) es
      in case build_headers bp wc params chunks 0 of
           (headers, data_size, remainders) \<Rightarrow>
             \<lparr>cl_id_data = write_chunks bp headers 0 (filter (\<lambda>c. length c = bp_block_len bp) chunks) (replicate data_size 0),
              cl_chunks = headers, cl_remainders = remainders,
              cl_last_id = (if es = [] then None else Some (fst (last es))), cl_quantization_params = params\<rparr>)"

section \<open>The iterator\<close>

record ('w, 'p) compressed_iterator =
  ci_list :: "('w, 'p) compressed_posting_list"
  ci_unpacked :: bool
  ci_decompressed :: "nat list"
  ci_pos :: nat
  ci_current :: "nat option"

definition compressed_iterator_new :: "bitpacker \<Rightarrow> ('w, 'p) compressed_posting_list \<Rightarrow> ('w, 'p) compressed_iterator" where
  "compressed_iterator_new bp cl =
     \<lparr>ci_list = cl, ci_unpacked = False, ci_decompressed = replicate (bp_block_len bp) 0, ci_pos = 0, ci_current = None\<rparr>"

definition get_weight :: "bitpacker \<Rightarrow> ('w, 'p) weight_codec \<Rightarrow> ('w, 'p) compressed_posting_list \<Rightarrow> nat \<Rightarrow> flt" where
  "get_weight bp wc cl pos =
     wc_to_f32 wc (cl_quantization_params cl) (ch_weights (cl_chunks cl ! (pos div bp_block_len bp)) ! (pos mod bp_block_len bp))"

definition compressed_peek ::
  "bitpacker \<Rightarrow> ('w, 'p) weight_codec \<Rightarrow> ('w, 'p) compressed_iterator \<Rightarrow> (nat \<times> flt) option \<times> ('w, 'p) compressed_iterator" where
  "compressed_peek bp wc it =
     (let pos = ci_pos it; cl = ci_list it
      in if pos div bp_block_len bp < length (cl_chunks cl)
         then let it' = (if ci_unpacked it then it
                         else it\<lparr>ci_decompressed := decompress_chunk bp cl (pos div bp_block_len bp), ci_unpacked := True\<rparr>)
              in (Some (ci_decompressed it' ! (pos mod bp_block_len bp), get_weight bp wc cl pos), it')
         else let i = pos - length (cl_chunks cl) * bp_block_len bp
              in (if i < length (cl_remainders cl) then Some (remainder_entries wc cl ! i) else None, it))"

definition next_from :: "bitpacker \<Rightarrow> ('w, 'p) compressed_iterator \<Rightarrow> ('w, 'p) compressed_iterator" where
  "next_from bp it =
     (if ci_pos it div bp_block_len bp < length (cl_chunks (ci_list it))
      then it\<lparr>ci_pos := ci_pos it + 1, ci_current := None,
              ci_unpacked := (if (ci_pos it + 1) mod bp_block_len bp = 0 then False else ci_unpacked it)\<rparr>
      else it\<lparr>ci_pos := ci_pos it + 1, ci_current := None\<rparr>)"

definition compressed_next ::
  "bitpacker \<Rightarrow> ('w, 'p) weight_codec \<Rightarrow> ('w, 'p) compressed_iterator \<Rightarrow> (nat \<times> flt) option \<times> ('w, 'p) compressed_iterator" where
  "compressed_next bp wc it =
     (case compressed_peek bp wc it of
        (None, it') \<Rightarrow> (None, it')
      | (Some e, it') \<Rightarrow> (Some e, next_from bp it'))"

text \<open>The loop of \<open>skip_to\<close>; \<open>n\<close> elements are left, and at the end of the list \<open>peek\<close> finds none.\<close>

fun skip_loop ::
  "bitpacker \<Rightarrow> ('w, 'p) weight_codec \<Rightarrow> nat \<Rightarrow> nat \<Rightarrow> ('w, 'p) compressed_iterator
     \<Rightarrow> (nat \<times> flt) option \<times> ('w, 'p) compressed_iterator" where
  "skip_loop bp wc point 0 it = (None, it)"
| "skip_loop bp wc point (Suc n) it =
     (case compressed_peek bp wc it of
        (None, it') \<Rightarrow> (None, it')
      | (Some e, it') \<Rightarrow>
          let it'' = it'\<lparr>ci_current := Some (fst e)\<rparr>
          in if fst e = point then (Some e, it'')
             else if point < fst e then (None, it'')
             else skip_loop bp wc point n (next_from bp it''))"

definition compressed_skip_to ::
  "bitpacker \<Rightarrow> ('w, 'p) weight_codec \<Rightarrow> nat \<Rightarrow> ('w, 'p) compressed_iterator
     \<Rightarrow> (nat \<times> flt) option \<times> ('w, 'p) compressed_iterator" where
  "compressed_skip_to bp wc point it =
     (if (case ci_current it of None \<Rightarrow> False | Some current \<Rightarrow> point < current) then (None, it)
      else let cl = ci_list it; walk = (\<lambda>it'. skip_loop bp wc point (list_len bp cl - ci_pos it') it')
           in case (chunk_id_by_id cl point, chunk_id_by_position bp cl (ci_pos it)) of
                (Chunk chunk_id, Some current_chunk_id) \<Rightarrow>
                  if chunk_id < current_chunk_id then (None, it)
                  else if chunk_id = current_chunk_id
                  then walk (it\<lparr>ci_pos := max (ci_pos it) (chunk_id * bp_block_len bp), ci_current := None\<rparr>)
                  else walk (it\<lparr>ci_pos := chunk_id * bp_block_len bp, ci_current := None, ci_unpacked := False\<rparr>)
              | (Chunk _, None) \<Rightarrow> (None, it)
              | (Before, _) \<Rightarrow> (None, it)
              | (After, _) \<Rightarrow>
                  walk (it\<lparr>ci_pos := max (ci_pos it) (length (cl_chunks cl) * bp_block_len bp), ci_current := None,
                           ci_unpacked := False\<rparr>))"

definition compressed_skip_to_end :: "bitpacker \<Rightarrow> ('w, 'p) compressed_iterator \<Rightarrow> ('w, 'p) compressed_iterator" where
  "compressed_skip_to_end bp it = it\<lparr>ci_pos := list_len bp (ci_list it), ci_current := None\<rparr>"

definition compressed_len_to_end :: "bitpacker \<Rightarrow> ('w, 'p) compressed_iterator \<Rightarrow> nat" where
  "compressed_len_to_end bp it = list_len bp (ci_list it) - ci_pos it"

definition count_le_sorted :: "nat \<Rightarrow> nat list \<Rightarrow> nat" where
  "count_le_sorted val data =
     (if data = [] \<or> last data < val then length data
      else case binary_search val data of Inl x \<Rightarrow> x | Inr x \<Rightarrow> x + 1)"

text \<open>
  The chunk loop of \<open>for_each_till_id\<close> with \<open>n\<close> chunks left from the current one: the
  elements visited, and the iterator if the loop returned inside a chunk.
\<close>

primrec till_chunks ::
  "bitpacker \<Rightarrow> ('w, 'p) weight_codec \<Rightarrow> nat \<Rightarrow> nat \<Rightarrow> bool \<Rightarrow> nat \<Rightarrow> ('w, 'p) compressed_iterator
     \<Rightarrow> (nat \<times> flt) list \<times> nat \<times> bool \<times> ('w, 'p) compressed_iterator" where
  "till_chunks bp wc point 0 need_unpack pos it = ([], pos, False, it)"
| "till_chunks bp wc point (Suc n) need_unpack pos it =
     (let size = bp_block_len bp; cl = ci_list it; index = pos div size; start = pos mod size;
          it1 = (if need_unpack then it\<lparr>ci_decompressed := decompress_chunk bp cl index\<rparr> else it);
          count = count_le_sorted point (drop start (ci_decompressed it1));
          visited = zip (take count (drop start (ci_decompressed it1))) (take count (drop start (chunk_weights wc cl index)));
          pos' = pos + count
      in if start + count \<noteq> size
         then (visited, pos', True, it1\<lparr>ci_unpacked := True, ci_pos := pos', ci_current := None\<rparr>)
         else case till_chunks bp wc point n True pos' it1 of
                (later, pos'', returned, it2) \<Rightarrow> (visited @ later, pos'', returned, it2))"

definition compressed_for_each_till_id ::
  "bitpacker \<Rightarrow> ('w, 'p) weight_codec \<Rightarrow> nat \<Rightarrow> ('w, 'p) compressed_iterator
     \<Rightarrow> (nat \<times> flt) list \<times> ('w, 'p) compressed_iterator" where
  "compressed_for_each_till_id bp wc point it =
     (let cl = ci_list it; pos = ci_pos it
      in case till_chunks bp wc point (length (cl_chunks cl) - pos div bp_block_len bp) (\<not> ci_unpacked it) pos it of
           (visited, pos', True, it') \<Rightarrow> (visited, it')
         | (visited, pos', False, it') \<Rightarrow>
             let later = takeWhile (\<lambda>e. fst e \<le> point)
                   (drop (pos' - length (cl_chunks cl) * bp_block_len bp) (remainder_entries wc cl))
             in (visited @ later, it'\<lparr>ci_pos := pos' + length later, ci_current := None\<rparr>))"

fun range_chunks ::
  "bitpacker \<Rightarrow> ('w, 'p) weight_codec \<Rightarrow> nat \<Rightarrow> nat \<Rightarrow> nat list \<Rightarrow> ('w, 'p) compressed_posting_list \<Rightarrow> (nat \<times> flt) list" where
  "range_chunks bp wc start stop [] cl = []"
| "range_chunks bp wc start stop (index # indices) cl =
     (if stop < ch_initial (cl_chunks cl ! index) then []
      else let ids = decompress_chunk bp cl index;
               local_start = length (takeWhile (\<lambda>i. i < start) ids);
               local_end = length (takeWhile (\<lambda>i. i \<le> stop) ids);
               count = local_end - local_start;
               visited = zip (take count (drop local_start ids)) (take count (drop local_start (chunk_weights wc cl index)))
           in if count = 0 then range_chunks bp wc start stop indices cl
              else if local_end \<noteq> bp_block_len bp then visited
              else visited @ range_chunks bp wc start stop indices cl)"

definition compressed_for_each_in_id_range ::
  "bitpacker \<Rightarrow> ('w, 'p) weight_codec \<Rightarrow> nat \<Rightarrow> nat \<Rightarrow> ('w, 'p) compressed_iterator \<Rightarrow> (nat \<times> flt) list" where
  "compressed_for_each_in_id_range bp wc start stop it =
     (if stop < start then []
      else let cl = ci_list it;
               first_chunk = length (takeWhile (\<lambda>c. ch_initial c \<le> start) (cl_chunks cl)) - 1
           in range_chunks bp wc start stop [first_chunk..<length (cl_chunks cl)] cl @
              takeWhile (\<lambda>e. fst e \<le> stop) (dropWhile (\<lambda>e. fst e < start) (remainder_entries wc cl)))"

section \<open>Block maxima\<close>

definition decoded_chunk_max :: "('w, 'p) weight_codec \<Rightarrow> ('w, 'p) compressed_posting_list \<Rightarrow> nat \<Rightarrow> flt" where
  "decoded_chunk_max wc cl index = foldl f_max (Fin 0) (chunk_weights wc cl index)"

definition compressed_max_weight_till_id ::
  "bitpacker \<Rightarrow> ('w, 'p) weight_codec \<Rightarrow> nat \<Rightarrow> ('w, 'p) compressed_iterator \<Rightarrow> operation_error + flt option" where
  "compressed_max_weight_till_id bp wc point it =
     (let cl = ci_list it; chunk_count = length (cl_chunks cl); current_chunk = ci_pos it div bp_block_len bp;
          end_chunk = length (takeWhile (\<lambda>c. ch_initial c \<le> point) (cl_chunks cl))
      in if current_chunk < chunk_count \<and> end_chunk < current_chunk
         then Inl (Panicked (Text ''slice index starts behind its end''))
         else let chunk_maxima = (if current_chunk < chunk_count
                    then map (decoded_chunk_max wc cl) [current_chunk..<end_chunk] else []);
                  remainder_start = ci_pos it - chunk_count * bp_block_len bp;
                  in_remainder = (chunk_count * bp_block_len bp \<le> ci_pos it \<or>
                    (case cl_remainders cl of [] \<Rightarrow> False | first # _ \<Rightarrow> fst first \<le> point));
                  weights = (if in_remainder
                    then map snd (takeWhile (\<lambda>e. fst e \<le> point) (drop remainder_start (remainder_entries wc cl))) else [])
              in Inr (Some (foldl f_max (foldl f_max (Fin 0) chunk_maxima) weights)))"

definition compressed_skip_till_id ::
  "bitpacker \<Rightarrow> ('w, 'p) weight_codec \<Rightarrow> nat \<Rightarrow> ('w, 'p) compressed_iterator \<Rightarrow> ('w, 'p) compressed_iterator" where
  "compressed_skip_till_id bp wc point it =
     (case compressed_skip_to bp wc point it of
        (Some e, it') \<Rightarrow> next_from bp it'
      | (None, it') \<Rightarrow> it')"

definition covered_end :: "('w, 'p) compressed_posting_list \<Rightarrow> nat \<Rightarrow> nat" where
  "covered_end cl index =
     (if index + 1 < length (cl_chunks cl) then ch_initial (cl_chunks cl ! (index + 1)) - 1
      else case cl_remainders cl of
             first # _ \<Rightarrow> fst first - 1
           | [] \<Rightarrow> (case cl_last_id cl of Some last_id \<Rightarrow> last_id | None \<Rightarrow> ch_initial (cl_chunks cl ! index)))"

definition raise_ranges :: "nat \<Rightarrow> nat \<Rightarrow> flt \<Rightarrow> flt list \<Rightarrow> flt list" where
  "raise_ranges first_range last_range maximum maxima =
     map (\<lambda>(range, bound). if first_range \<le> range \<and> range \<le> last_range then f_max bound maximum else bound)
       (List.enumerate 0 maxima)"

definition chunk_ranges ::
  "('w, 'p) weight_codec \<Rightarrow> nat \<Rightarrow> nat \<Rightarrow> ('w, 'p) compressed_posting_list \<Rightarrow> nat \<Rightarrow> flt list \<Rightarrow> flt list" where
  "chunk_ranges wc range_start range_width cl index maxima =
     raise_ranges ((ch_initial (cl_chunks cl ! index) - range_start) div range_width)
       ((covered_end cl index - range_start) div range_width) (decoded_chunk_max wc cl index) maxima"

definition element_range :: "nat \<Rightarrow> nat \<Rightarrow> nat \<times> flt \<Rightarrow> flt list \<Rightarrow> flt list" where
  "element_range range_start range_width e maxima =
     raise_ranges ((fst e - range_start) div range_width) ((fst e - range_start) div range_width) (snd e) maxima"

definition compressed_fill_block_max_ranges ::
  "('w, 'p) weight_codec \<Rightarrow> nat \<Rightarrow> nat \<Rightarrow> nat \<Rightarrow> ('w, 'p) compressed_iterator \<Rightarrow> flt list option" where
  "compressed_fill_block_max_ranges wc range_start range_width n it =
     (let cl = ci_list it
      in Some (fold (element_range range_start range_width) (remainder_entries wc cl)
           (fold (chunk_ranges wc range_start range_width cl) [0..<length (cl_chunks cl)] (replicate n (Fin 0)))))"

definition compressed_iter ::
  "bitpacker \<Rightarrow> ('w, 'p) weight_codec \<Rightarrow> ('w, 'p) compressed_iterator posting_list_iter" where
  "compressed_iter bp wc =
     \<lparr>pi_peek = compressed_peek bp wc, pi_last_id = (\<lambda>it. cl_last_id (ci_list it)),
      pi_len_to_end = compressed_len_to_end bp,
      pi_skip_to = (\<lambda>point it. snd (compressed_skip_to bp wc point it)),
      pi_skip_till_id = compressed_skip_till_id bp wc, pi_for_each_till_id = compressed_for_each_till_id bp wc,
      pi_max_weight_till_id = compressed_max_weight_till_id bp wc,
      pi_fill_block_max_ranges = compressed_fill_block_max_ranges wc\<rparr>"

section \<open>What a list holds\<close>

definition chunk_entries ::
  "bitpacker \<Rightarrow> ('w, 'p) weight_codec \<Rightarrow> ('w, 'p) compressed_posting_list \<Rightarrow> nat \<Rightarrow> (nat \<times> flt) list" where
  "chunk_entries bp wc cl index = zip (decompress_chunk bp cl index) (chunk_weights wc cl index)"

definition list_entries :: "bitpacker \<Rightarrow> ('w, 'p) weight_codec \<Rightarrow> ('w, 'p) compressed_posting_list \<Rightarrow> (nat \<times> flt) list" where
  "list_entries bp wc cl = concat (map (chunk_entries bp wc cl) [0..<length (cl_chunks cl)]) @ remainder_entries wc cl"

definition list_ok :: "bitpacker \<Rightarrow> ('w, 'p) weight_codec \<Rightarrow> ('w, 'p) compressed_posting_list \<Rightarrow> bool" where
  "list_ok bp wc cl \<longleftrightarrow> 0 < bp_block_len bp \<and>
     (\<forall>i<length (cl_chunks cl). length (decompress_chunk bp cl i) = bp_block_len bp \<and>
        length (ch_weights (cl_chunks cl ! i)) = bp_block_len bp \<and>
        ch_initial (cl_chunks cl ! i) = hd (decompress_chunk bp cl i)) \<and>
     sorted_wrt (<) (map fst (list_entries bp wc cl)) \<and> (\<forall>e\<in>set (list_entries bp wc cl). is_finite (snd e)) \<and>
     cl_last_id cl = (if list_entries bp wc cl = [] then None else Some (fst (last (list_entries bp wc cl))))"

definition comp_ok :: "bitpacker \<Rightarrow> ('w, 'p) weight_codec \<Rightarrow> ('w, 'p) compressed_iterator \<Rightarrow> bool" where
  "comp_ok bp wc it \<longleftrightarrow> list_ok bp wc (ci_list it) \<and> ci_pos it \<le> list_len bp (ci_list it) \<and>
     (ci_unpacked it \<longrightarrow> ci_pos it div bp_block_len bp < length (cl_chunks (ci_list it)) \<longrightarrow>
        ci_decompressed it = decompress_chunk bp (ci_list it) (ci_pos it div bp_block_len bp)) \<and>
     (\<forall>r. ci_current it = Some r \<longrightarrow> ci_pos it < list_len bp (ci_list it) \<and>
        fst (list_entries bp wc (ci_list it) ! ci_pos it) = r)"

definition comp_all :: "bitpacker \<Rightarrow> ('w, 'p) weight_codec \<Rightarrow> ('w, 'p) compressed_iterator \<Rightarrow> (nat \<times> flt) list" where
  "comp_all bp wc it = list_entries bp wc (ci_list it)"

definition comp_todo :: "bitpacker \<Rightarrow> ('w, 'p) weight_codec \<Rightarrow> ('w, 'p) compressed_iterator \<Rightarrow> (nat \<times> flt) list" where
  "comp_todo bp wc it = drop (ci_pos it) (list_entries bp wc (ci_list it))"

lemma nth_concat_blocks:
  assumes "\<forall>i<m. length (f i) = k" "0 < (k::nat)" "n < m * k"
  shows "concat (map f [0..<m]) ! n = f (n div k) ! (n mod k)"
  using assms(1,3)
proof (induction m)
  case (Suc m)
  have len: "length (concat (map f [0..<m])) = m * k"
    using Suc.prems(1) by (induction m) auto
  show ?case
  proof (cases "n < m * k")
    case True
    with Suc len show ?thesis by (simp add: nth_append)
  next
    case False
    with Suc.prems(2) have "n = m * k + (n - m * k)" "n - m * k < k" by auto
    then have "n div k = m" "n mod k = n - m * k" using assms(2)
      by (metis div_mult_self3 div_less add.right_neutral add.commute less_numeral_extra(3), metis mod_less mod_mult_self3)
    with False len show ?thesis by (simp add: nth_append)
  qed
qed simp

section \<open>Positions of a well-formed list\<close>

lemma length_chunk_weights [simp]: "length (chunk_weights wc cl i) = length (ch_weights (cl_chunks cl ! i))"
  by (simp add: chunk_weights_def)

lemma length_remainder_entries [simp]: "length (remainder_entries wc cl) = length (cl_remainders cl)"
  by (simp add: remainder_entries_def)

lemma list_ok_facts:
  assumes "list_ok bp wc cl"
  shows block_pos: "0 < bp_block_len bp"
    and length_decompress: "i < length (cl_chunks cl) \<Longrightarrow> length (decompress_chunk bp cl i) = bp_block_len bp"
    and length_weights: "i < length (cl_chunks cl) \<Longrightarrow> length (ch_weights (cl_chunks cl ! i)) = bp_block_len bp"
    and initial_hd: "i < length (cl_chunks cl) \<Longrightarrow> ch_initial (cl_chunks cl ! i) = hd (decompress_chunk bp cl i)"
    and list_sorted: "sorted_wrt (<) (map fst (list_entries bp wc cl))"
    and list_finite: "e \<in> set (list_entries bp wc cl) \<Longrightarrow> is_finite (snd e)"
    and list_last: "cl_last_id cl = (if list_entries bp wc cl = [] then None else Some (fst (last (list_entries bp wc cl))))"
  using assms unfolding list_ok_def by blast+

lemma chunk_entries_length:
  "list_ok bp wc cl \<Longrightarrow> i < length (cl_chunks cl) \<Longrightarrow> length (chunk_entries bp wc cl i) = bp_block_len bp"
  by (simp add: chunk_entries_def length_decompress length_weights)

lemma length_blocks:
  "\<forall>i<m. length (f i) = k \<Longrightarrow> length (concat (map f [0..<m])) = m * k"
  by (induction m) auto

lemma chunks_part_length:
  "list_ok bp wc cl \<Longrightarrow>
     length (concat (map (chunk_entries bp wc cl) [0..<length (cl_chunks cl)])) = length (cl_chunks cl) * bp_block_len bp"
  by (intro length_blocks) (simp add: chunk_entries_length)

lemma list_entries_length: "list_ok bp wc cl \<Longrightarrow> length (list_entries bp wc cl) = list_len bp cl"
  by (simp add: list_entries_def chunks_part_length list_len_def)

lemma div_less_blocks: "0 < (k::nat) \<Longrightarrow> pos div k < m \<longleftrightarrow> pos < m * k"
  by (simp add: less_mult_imp_div_less div_less_iff_less_mult)

lemma list_entries_chunk:
  assumes ok: "list_ok bp wc cl" and pos: "pos div bp_block_len bp < length (cl_chunks cl)"
  shows "list_entries bp wc cl ! pos =
    (decompress_chunk bp cl (pos div bp_block_len bp) ! (pos mod bp_block_len bp), get_weight bp wc cl pos)"
proof -
  let ?k = "bp_block_len bp" and ?m = "length (cl_chunks cl)"
  have k: "0 < ?k" using ok by (rule block_pos)
  have p: "pos < ?m * ?k" using pos div_less_blocks [OF k] by simp
  have "list_entries bp wc cl ! pos = concat (map (chunk_entries bp wc cl) [0..<?m]) ! pos"
    using p chunks_part_length [OF ok] by (simp add: list_entries_def nth_append)
  also have "\<dots> = chunk_entries bp wc cl (pos div ?k) ! (pos mod ?k)"
    using ok k p by (intro nth_concat_blocks) (simp_all add: chunk_entries_length)
  also have "\<dots> = (decompress_chunk bp cl (pos div ?k) ! (pos mod ?k), get_weight bp wc cl pos)"
    using k length_decompress [OF ok pos] length_weights [OF ok pos]
    by (simp add: chunk_entries_def chunk_weights_def get_weight_def)
  finally show ?thesis .
qed

lemma list_entries_remainder:
  assumes ok: "list_ok bp wc cl" and pos: "\<not> pos div bp_block_len bp < length (cl_chunks cl)"
  shows "list_entries bp wc cl ! pos = remainder_entries wc cl ! (pos - length (cl_chunks cl) * bp_block_len bp)"
proof -
  have "length (cl_chunks cl) * bp_block_len bp \<le> pos"
    using pos div_less_blocks [OF block_pos [OF ok]] by simp
  then show ?thesis using chunks_part_length [OF ok] by (simp add: list_entries_def nth_append)
qed

lemma remainder_index:
  assumes "list_ok bp wc cl" "\<not> pos div bp_block_len bp < length (cl_chunks cl)"
  shows "pos - length (cl_chunks cl) * bp_block_len bp < length (cl_remainders cl) \<longleftrightarrow> pos < list_len bp cl"
  using assms div_less_blocks [OF block_pos [OF assms(1)], of pos "length (cl_chunks cl)"] by (auto simp: list_len_def)

lemma chunk_pos_less:
  assumes "list_ok bp wc cl" "pos div bp_block_len bp < length (cl_chunks cl)"
  shows "pos < list_len bp cl"
  using assms div_less_blocks [OF block_pos [OF assms(1)], of pos "length (cl_chunks cl)"] by (simp add: list_len_def)

lemma entries_less:
  assumes "list_ok bp wc cl" "i < j" "j < list_len bp cl"
  shows "fst (list_entries bp wc cl ! i) < fst (list_entries bp wc cl ! j)"
  using sorted_wrt_nth_less [OF list_sorted [OF assms(1)] assms(2)] assms list_entries_length [OF assms(1)] by simp

lemma entries_le:
  assumes "list_ok bp wc cl" "i \<le> j" "j < list_len bp cl"
  shows "fst (list_entries bp wc cl ! i) \<le> fst (list_entries bp wc cl ! j)"
  using entries_less [OF assms(1), of i j] assms(2,3) by (cases "i = j") auto

lemma initial_entry:
  assumes ok: "list_ok bp wc cl" and i: "i < length (cl_chunks cl)"
  shows "ch_initial (cl_chunks cl ! i) = fst (list_entries bp wc cl ! (i * bp_block_len bp))"
proof -
  have k: "0 < bp_block_len bp" using ok by (rule block_pos)
  then have d: "decompress_chunk bp cl i \<noteq> []" using length_decompress [OF ok i] by auto
  have "fst (list_entries bp wc cl ! (i * bp_block_len bp)) = decompress_chunk bp cl i ! 0"
    using list_entries_chunk [OF ok, of "i * bp_block_len bp"] i k by simp
  with initial_hd [OF ok i] d show ?thesis by (simp add: hd_conv_nth)
qed

lemma initials_sorted:
  assumes "list_ok bp wc cl"
  shows "sorted_wrt (<) (map ch_initial (cl_chunks cl))"
proof -
  let ?k = "bp_block_len bp"
  have k: "0 < ?k" using assms by (rule block_pos)
  have "ch_initial (cl_chunks cl ! i) < ch_initial (cl_chunks cl ! j)" if ij: "i < j" "j < length (cl_chunks cl)" for i j
  proof -
    have "j * ?k < list_len bp cl" using chunk_pos_less [OF assms, of "j * ?k"] ij k by simp
    then show ?thesis using entries_less [OF assms, of "i * ?k" "j * ?k"] initial_entry [OF assms] ij k by simp
  qed
  then show ?thesis by (simp add: sorted_wrt_iff_nth_less)
qed

section \<open>Steps of the iterator\<close>

lemma compressed_peek_ok:
  assumes ok: "comp_ok bp wc it" and peek: "compressed_peek bp wc it = (r, it')"
  shows "r = (if ci_pos it < list_len bp (ci_list it) then Some (list_entries bp wc (ci_list it) ! ci_pos it) else None)"
    "comp_ok bp wc it'" "ci_list it' = ci_list it" "ci_pos it' = ci_pos it" "ci_current it' = ci_current it"
proof -
  have l: "list_ok bp wc (ci_list it)" using ok by (simp add: comp_ok_def)
  have "r = (if ci_pos it < list_len bp (ci_list it) then Some (list_entries bp wc (ci_list it) ! ci_pos it) else None) \<and>
      comp_ok bp wc it' \<and> ci_list it' = ci_list it \<and> ci_pos it' = ci_pos it \<and> ci_current it' = ci_current it"
  proof (cases "ci_pos it div bp_block_len bp < length (cl_chunks (ci_list it))")
    case True
    then show ?thesis using peek ok chunk_pos_less [OF l True] list_entries_chunk [OF l True]
      by (auto simp: compressed_peek_def Let_def comp_ok_def split: if_splits)
  next
    case False
    then show ?thesis using peek ok remainder_index [OF l False] list_entries_remainder [OF l False]
      by (auto simp: compressed_peek_def Let_def)
  qed
  then show "r = (if ci_pos it < list_len bp (ci_list it) then Some (list_entries bp wc (ci_list it) ! ci_pos it) else None)"
    "comp_ok bp wc it'" "ci_list it' = ci_list it" "ci_pos it' = ci_pos it" "ci_current it' = ci_current it" by auto
qed

lemma next_from_ok:
  assumes ok: "comp_ok bp wc it" and pos: "ci_pos it < list_len bp (ci_list it)"
  shows "comp_ok bp wc (next_from bp it)" "ci_list (next_from bp it) = ci_list it" "ci_pos (next_from bp it) = Suc (ci_pos it)"
proof -
  show "ci_list (next_from bp it) = ci_list it" "ci_pos (next_from bp it) = Suc (ci_pos it)"
    by (simp_all add: next_from_def)
  have l: "list_ok bp wc (ci_list it)" using ok by (simp add: comp_ok_def)
  have "Suc (ci_pos it) div bp_block_len bp = ci_pos it div bp_block_len bp" if "Suc (ci_pos it) mod bp_block_len bp \<noteq> 0"
    using that by (simp add: div_Suc)
  moreover have "\<not> Suc (ci_pos it) div bp_block_len bp < length (cl_chunks (ci_list it))"
    if "\<not> ci_pos it div bp_block_len bp < length (cl_chunks (ci_list it))"
    using that by (meson div_le_mono le_trans not_less lessI less_imp_le)
  ultimately show "comp_ok bp wc (next_from bp it)" using ok pos
    by (auto simp: comp_ok_def next_from_def)
qed

section \<open>Skipping\<close>

lemma comp_todo_cons:
  assumes "comp_ok bp wc it" "ci_pos it < list_len bp (ci_list it)"
  shows "comp_todo bp wc it = list_entries bp wc (ci_list it) ! ci_pos it # drop (Suc (ci_pos it)) (list_entries bp wc (ci_list it))"
  using assms list_entries_length [of bp wc "ci_list it"] by (simp add: comp_todo_def comp_ok_def Cons_nth_drop_Suc)

lemma comp_todo_nil:
  "comp_ok bp wc it \<Longrightarrow> \<not> ci_pos it < list_len bp (ci_list it) \<Longrightarrow> comp_todo bp wc it = []"
  using list_entries_length [of bp wc "ci_list it"] by (simp add: comp_todo_def comp_ok_def)

text \<open>What \<open>skip_to\<close> must leave.\<close>

definition skipped :: "bitpacker \<Rightarrow> ('w, 'p) weight_codec \<Rightarrow> nat \<Rightarrow> ('w, 'p) compressed_posting_list \<Rightarrow> (nat \<times> flt) list
    \<Rightarrow> (nat \<times> flt) option \<times> ('w, 'p) compressed_iterator \<Rightarrow> bool" where
  "skipped bp wc point cl rest = (\<lambda>(r, it). comp_ok bp wc it \<and> ci_list it = cl \<and>
     comp_todo bp wc it = dropWhile (\<lambda>e. fst e < point) rest \<and>
     (r \<noteq> None \<longleftrightarrow> (\<exists>e es. comp_todo bp wc it = e # es \<and> fst e = point)))"

lemma skip_loop_ok:
  assumes "comp_ok bp wc it" "n = list_len bp (ci_list it) - ci_pos it"
  shows "skipped bp wc point (ci_list it) (comp_todo bp wc it) (skip_loop bp wc point n it)"
  using assms
proof (induction n arbitrary: it)
  case 0
  then show ?case using comp_todo_nil [OF 0(1)] by (simp add: skipped_def)
next
  case (Suc n)
  have pos: "ci_pos it < list_len bp (ci_list it)" using Suc.prems(2) by simp
  let ?e = "list_entries bp wc (ci_list it) ! ci_pos it"
  obtain r it1 where peek: "compressed_peek bp wc it = (r, it1)" by fastforce
  note p = compressed_peek_ok [OF Suc.prems(1) peek]
  have r: "r = Some ?e" using p(1) pos by simp
  let ?it2 = "it1\<lparr>ci_current := Some (fst ?e)\<rparr>"
  have ok2: "comp_ok bp wc ?it2" using p(2-4) pos by (auto simp: comp_ok_def)
  have todo2: "comp_todo bp wc ?it2 = comp_todo bp wc it" using p(3,4) by (simp add: comp_todo_def)
  note cons = comp_todo_cons [OF Suc.prems(1) pos]
  show ?case
  proof (cases "fst ?e < point")
    case False
    with peek r cons ok2 todo2 p(3) show ?thesis by (auto simp: skipped_def Let_def) (metis prod.collapse)
  next
    case True
    note n = next_from_ok [OF ok2]
    have pos2: "ci_pos ?it2 < list_len bp (ci_list ?it2)" using pos p(3,4) by simp
    have "n = list_len bp (ci_list (next_from bp ?it2)) - ci_pos (next_from bp ?it2)"
      using Suc.prems(2) n(2,3) pos2 p(3,4) by simp
    from Suc.IH [OF n(1) [OF pos2] this] have "skipped bp wc point (ci_list it) (comp_todo bp wc (next_from bp ?it2))
        (skip_loop bp wc point n (next_from bp ?it2))" using n(2) [OF pos2] p(3) by simp
    moreover have "comp_todo bp wc (next_from bp ?it2) = drop (Suc (ci_pos it)) (list_entries bp wc (ci_list it))"
      using n(2,3) [OF pos2] p(3,4) by (simp add: comp_todo_def)
    ultimately show ?thesis using peek r cons True by (simp add: skipped_def Let_def)
  qed
qed

lemma skip_walk:
  assumes ok: "comp_ok bp wc it" and le: "ci_pos it \<le> pos'" "pos' \<le> list_len bp (ci_list it)"
    and unp: "unp \<longrightarrow> ci_unpacked it \<and> pos' = ci_pos it"
    and below: "\<And>j. ci_pos it \<le> j \<Longrightarrow> j < pos' \<Longrightarrow> fst (list_entries bp wc (ci_list it) ! j) < point"
  shows "skipped bp wc point (ci_list it) (comp_todo bp wc it)
    (skip_loop bp wc point (list_len bp (ci_list it) - pos') (it\<lparr>ci_pos := pos', ci_current := None, ci_unpacked := unp\<rparr>))"
proof -
  let ?it = "it\<lparr>ci_pos := pos', ci_current := None, ci_unpacked := unp\<rparr>" and ?es = "list_entries bp wc (ci_list it)"
  have ok': "comp_ok bp wc ?it" using ok le unp by (auto simp: comp_ok_def)
  have "dropWhile (\<lambda>e. fst e < point) (drop (ci_pos it) ?es) = dropWhile (\<lambda>e. fst e < point) (drop pos' ?es)"
    using le below
  proof (induction "pos' - ci_pos it" arbitrary: pos')
    case (Suc d)
    have len: "length ?es = list_len bp (ci_list it)" using ok list_entries_length by (auto simp: comp_ok_def)
    obtain p where p: "pos' = Suc p" "ci_pos it \<le> p" using Suc.hyps(2) by (cases pos') auto
    have "drop p ?es = ?es ! p # drop (Suc p) ?es" using Suc.prems(2) p len by (simp add: Cons_nth_drop_Suc)
    moreover have "fst (?es ! p) < point" using Suc.prems(3) p by simp
    moreover have "dropWhile (\<lambda>e. fst e < point) (drop (ci_pos it) ?es) = dropWhile (\<lambda>e. fst e < point) (drop p ?es)"
      using Suc.hyps(2) Suc.prems p by (intro Suc.hyps(1)) auto
    ultimately show ?case using p(1) by simp
  qed simp
  moreover have "skipped bp wc point (ci_list ?it) (comp_todo bp wc ?it) (skip_loop bp wc point (list_len bp (ci_list it) - pos') ?it)"
    by (rule skip_loop_ok [OF ok']) simp
  ultimately show ?thesis by (simp add: skipped_def comp_todo_def)
qed

lemma skip_stay:
  assumes ok: "comp_ok bp wc it" and ahead: "ci_pos it < list_len bp (ci_list it) \<Longrightarrow>
      point < fst (list_entries bp wc (ci_list it) ! ci_pos it)"
  shows "skipped bp wc point (ci_list it) (comp_todo bp wc it) (None, it)"
proof (cases "ci_pos it < list_len bp (ci_list it)")
  case True
  with comp_todo_cons [OF ok True] ahead ok show ?thesis by (auto simp: skipped_def)
next
  case False
  with comp_todo_nil [OF ok False] ok show ?thesis by (simp add: skipped_def)
qed

text \<open>Where \<open>chunk_id_by_id\<close> points.\<close>

lemma chunk_id_by_id_ok:
  assumes ok: "list_ok bp wc cl"
  shows "case chunk_id_by_id cl point of
      Chunk c \<Rightarrow> (c < length (cl_chunks cl) \<and> ch_initial (cl_chunks cl ! c) \<le> point \<and>
          (\<forall>j. c < j \<longrightarrow> j < length (cl_chunks cl) \<longrightarrow> point < ch_initial (cl_chunks cl ! j)) \<and>
          (\<forall>r\<in>set (cl_remainders cl). point < fst r)) \<or> list_len bp cl = 0
    | Before \<Rightarrow> \<forall>e\<in>set (list_entries bp wc cl). point < fst e
    | After \<Rightarrow> \<exists>r rs. cl_remainders cl = r # rs \<and> fst r \<le> point"
proof -
  let ?keys = "map ch_initial (cl_chunks cl)" and ?m = "length (cl_chunks cl)" and ?es = "list_entries bp wc cl"
  let ?k = "bp_block_len bp"
  have k: "0 < ?k" using ok by (rule block_pos)
  have rem_sorted: "\<forall>r\<in>set (cl_remainders cl). fst (hd (cl_remainders cl)) \<le> fst r"
  proof -
    have "sorted_wrt (<) (map fst (remainder_entries wc cl))"
      using list_sorted [OF ok] by (simp add: list_entries_def sorted_wrt_append)
    then have "sorted_wrt (<) (map fst (cl_remainders cl))" by (simp add: remainder_entries_def comp_def case_prod_beta)
    then show ?thesis by (cases "cl_remainders cl") auto
  qed
  have rem_after: "ch_initial (cl_chunks cl ! i) < fst r" if i: "i < ?m" and r: "r \<in> set (cl_remainders cl)" for i r
  proof -
    obtain j where j: "j < length (cl_remainders cl)" "r = cl_remainders cl ! j" using r by (auto simp: in_set_conv_nth)
    have "i * ?k < ?m * ?k + j" using i k by (meson mult_less_mono1 trans_less_add1)
    then have "fst (?es ! (i * ?k)) < fst (?es ! (?m * ?k + j))" using j by (intro entries_less [OF ok]) (simp_all add: list_len_def)
    moreover have "?es ! (?m * ?k + j) = remainder_entries wc cl ! j"
      using list_entries_remainder [OF ok, of "?m * ?k + j"] k by simp
    ultimately show ?thesis using initial_entry [OF ok i] j by (simp add: remainder_entries_def case_prod_beta)
  qed
  show ?thesis
  proof (cases "binary_search point ?keys")
    case (Inr c)
    note b = binary_search_Inr [OF Inr]
    have "\<forall>j. c < j \<longrightarrow> j < ?m \<longrightarrow> point < ch_initial (cl_chunks cl ! j)"
      using sorted_wrt_nth_less [OF initials_sorted [OF ok], of c] b by auto
    with Inr b rem_after [of c] show ?thesis by (auto simp: chunk_id_by_id_def)
  next
    case (Inl p)
    note b = binary_search_Inl [OF Inl initials_sorted [OF ok]]
    have below: "ch_initial (cl_chunks cl ! j) < point" if "j < p" for j
    proof -
      have "take p ?keys ! j \<in> set (take p ?keys)" using b(1) that by (intro nth_mem) simp
      moreover have "take p ?keys ! j = ch_initial (cl_chunks cl ! j)" using b(1) that by simp
      ultimately show ?thesis using b(2) by metis
    qed
    have above: "point < ch_initial (cl_chunks cl ! j)" if "p \<le> j" "j < ?m" for j
    proof -
      have "drop p ?keys ! (j - p) \<in> set (drop p ?keys)" using that by (intro nth_mem) simp
      moreover have "drop p ?keys ! (j - p) = ch_initial (cl_chunks cl ! j)" using that by simp
      ultimately show ?thesis using b(3) by metis
    qed
    have before: "\<forall>e\<in>set ?es. point < fst e" if "0 < list_len bp cl" "point < fst (?es ! 0)"
    proof
      fix e assume "e \<in> set ?es"
      then obtain j where "j < list_len bp cl" "e = ?es ! j" using list_entries_length [OF ok] by (auto simp: in_set_conv_nth)
      with entries_le [OF ok, of 0 j] that show "point < fst e" by simp
    qed
    consider "p = ?m" "cl_remainders cl = []" | r rs where "p = ?m" "cl_remainders cl = r # rs" | "p \<noteq> ?m" "p = 0" | "p \<noteq> ?m" "0 < p"
      by (metis list.exhaust neq0_conv)
    then show ?thesis
    proof cases
      case 1
      then show ?thesis using Inl below [of "p - 1"] by (auto simp: chunk_id_by_id_def wrapping_pred_def list_len_def less_imp_le)
    next
      case (2 r rs)
      have "point < fst r \<Longrightarrow> \<forall>r\<in>set (cl_remainders cl). point < fst r" using rem_sorted 2(2) by auto
      moreover have "\<forall>e\<in>set ?es. point < fst e" if m: "?m = 0" and r: "point < fst r"
      proof (rule before)
        have "?es ! 0 = remainder_entries wc cl ! 0" using list_entries_remainder [OF ok, of 0] m by simp
        then show "point < fst (?es ! 0)" using r 2(2) by (simp add: remainder_entries_def case_prod_beta)
        show "0 < list_len bp cl" using 2(2) by (simp add: list_len_def)
      qed
      moreover have "0 < ?m \<Longrightarrow> ch_initial (cl_chunks cl ! (p - 1)) \<le> point" using below [of "p - 1"] 2(1) by simp
      ultimately show ?thesis using Inl 2
        by (cases "point < fst r"; cases "0 < ?m") (auto simp: chunk_id_by_id_def)
    next
      case 3
      then have m: "0 < ?m" using b(1) by simp
      then have "point < fst (?es ! 0)" using above [of 0] initial_entry [OF ok, of 0] 3(2) by simp
      with Inl 3 m before k show ?thesis by (auto simp: chunk_id_by_id_def list_len_def)
    next
      case 4
      then have "p < ?m" using b(1) by simp
      then have "\<forall>r\<in>set (cl_remainders cl). point < fst r" using above [of p] rem_after [of p] less_trans by blast
      with Inl 4 below [of "p - 1"] above \<open>p < ?m\<close> show ?thesis by (auto simp: chunk_id_by_id_def less_imp_le)
    qed
  qed
qed

lemma entries_below:
  assumes "list_ok bp wc cl" "j < p" "p < list_len bp cl" "fst (list_entries bp wc cl ! p) \<le> point"
  shows "fst (list_entries bp wc cl ! j) < point"
  using entries_less [OF assms(1-3)] assms(4) by simp

lemma skip_to_remainders:
  assumes ok: "comp_ok bp wc it" and r: "cl_remainders (ci_list it) = r # rs" "fst r \<le> point"
    and pos': "pos' = max (ci_pos it) (length (cl_chunks (ci_list it)) * bp_block_len bp)"
  shows "skipped bp wc point (ci_list it) (comp_todo bp wc it) (skip_loop bp wc point (list_len bp (ci_list it) - pos')
      (it\<lparr>ci_pos := pos', ci_current := None, ci_unpacked := False\<rparr>))"
proof (rule skip_walk [OF ok])
  let ?cl = "ci_list it" and ?k = "bp_block_len bp"
  let ?m = "length (cl_chunks ?cl)"
  have l: "list_ok bp wc ?cl" using ok by (simp add: comp_ok_def)
  have len: "?m * ?k < list_len bp ?cl" using r(1) by (simp add: list_len_def)
  have first: "fst (list_entries bp wc ?cl ! (?m * ?k)) \<le> point"
    using list_entries_remainder [OF l, of "?m * ?k"] block_pos [OF l] r by (simp add: remainder_entries_def case_prod_beta)
  show "fst (list_entries bp wc ?cl ! j) < point" if "ci_pos it \<le> j" "j < pos'" for j
    using entries_below [OF l _ len first, of j] that pos' by auto
  show "pos' \<le> list_len bp ?cl" using len ok pos' by (simp add: comp_ok_def)
qed (use pos' in simp_all)

lemma skip_to_passed_chunk:
  assumes l: "list_ok bp wc cl" and pos: "pos < list_len bp cl" "\<not> pos div bp_block_len bp < length (cl_chunks cl)"
    and rem: "\<forall>r\<in>set (cl_remainders cl). point < fst r"
  shows "point < fst (list_entries bp wc cl ! pos)"
proof -
  let ?i = "pos - length (cl_chunks cl) * bp_block_len bp"
  have i: "?i < length (cl_remainders cl)" using remainder_index [OF l pos(2)] pos(1) by simp
  with rem have "point < fst (cl_remainders cl ! ?i)" by simp
  then show ?thesis using list_entries_remainder [OF l pos(2)] i by (simp add: remainder_entries_def case_prod_beta)
qed

lemma skip_to_chunk:
  assumes ok: "comp_ok bp wc it" and cur: "cur = ci_pos it div bp_block_len bp" "cur < length (cl_chunks (ci_list it))"
    and c: "c < length (cl_chunks (ci_list it))" "ch_initial (cl_chunks (ci_list it) ! c) \<le> point" "cur \<le> c"
    and pos': "pos' = (if c = cur then ci_pos it else c * bp_block_len bp)"
  shows "skipped bp wc point (ci_list it) (comp_todo bp wc it) (skip_loop bp wc point (list_len bp (ci_list it) - pos')
      (it\<lparr>ci_pos := pos', ci_current := None, ci_unpacked := (c = cur \<and> ci_unpacked it)\<rparr>))"
proof (rule skip_walk [OF ok])
  let ?cl = "ci_list it" and ?k = "bp_block_len bp"
  have l: "list_ok bp wc ?cl" using ok by (simp add: comp_ok_def)
  have k: "0 < ?k" using l by (rule block_pos)
  have len: "c * ?k < list_len bp ?cl" using chunk_pos_less [OF l, of "c * ?k"] c(1) k by simp
  have "ci_pos it < c * ?k" if "cur < c" using that cur(1) k by (simp add: div_less_iff_less_mult)
  then show "ci_pos it \<le> pos'" using pos' c(3) by (auto simp: less_imp_le)
  show "pos' \<le> list_len bp ?cl" using len ok pos' by (simp add: comp_ok_def)
  show "fst (list_entries bp wc ?cl ! j) < point" if "ci_pos it \<le> j" "j < pos'" for j
    using entries_below [OF l _ len, of j point] initial_entry [OF l c(1)] c(2) that pos' by (auto split: if_splits)
qed (use pos' in auto)

lemma compressed_skip_to_ok:
  assumes ok: "comp_ok bp wc it"
  shows "skipped bp wc point (ci_list it) (comp_todo bp wc it) (compressed_skip_to bp wc point it)"
proof (cases "case ci_current it of None \<Rightarrow> False | Some current \<Rightarrow> point < current")
  case True
  with ok show ?thesis
    by (auto simp: compressed_skip_to_def comp_ok_def intro!: skip_stay [OF ok] split: option.splits)
next
  case search: False
  let ?cl = "ci_list it" and ?k = "bp_block_len bp" and ?pos = "ci_pos it"
  let ?m = "length (cl_chunks ?cl)" and ?es = "list_entries bp wc ?cl"
  have l: "list_ok bp wc ?cl" using ok by (simp add: comp_ok_def)
  note step = compressed_skip_to_def [of bp wc point it, unfolded if_not_P [OF search] Let_def]
  note where_is = chunk_id_by_id_ok [OF l, of point]
  have chunk_at: "chunk_id_by_position bp ?cl ?pos = (if ?pos div ?k < ?m then Some (?pos div ?k) else None)"
    by (simp add: chunk_id_by_position_def Let_def)
  show ?thesis
  proof (cases "chunk_id_by_id ?cl point")
    case Before
    then show ?thesis using where_is list_entries_length [OF l] step by (auto intro!: skip_stay [OF ok])
  next
    case After
    then show ?thesis using where_is step skip_to_remainders [OF ok _ _ refl] by auto
  next
    case (Chunk c)
    show ?thesis
    proof (cases "?pos div ?k < ?m")
      case False
      then have "?pos < list_len bp ?cl \<Longrightarrow> point < fst (?es ! ?pos)"
        using where_is Chunk by (intro skip_to_passed_chunk [OF l]) auto
      then show ?thesis using step Chunk chunk_at False by (simp add: skip_stay [OF ok])
    next
      case True
      note pos = chunk_pos_less [OF l True]
      have c: "c < ?m" "ch_initial (cl_chunks ?cl ! c) \<le> point" "c < j \<Longrightarrow> j < ?m \<Longrightarrow> point < ch_initial (cl_chunks ?cl ! j)" for j
        using where_is Chunk pos by auto
      have "fst (?es ! (?pos div ?k * ?k)) \<le> fst (?es ! ?pos)" by (rule entries_le [OF l _ pos]) simp
      then have "c < ?pos div ?k \<Longrightarrow> point < fst (?es ! ?pos)" using c(3) [OF _ True] initial_entry [OF l True] by simp
      with skip_stay [OF ok] have "c < ?pos div ?k \<Longrightarrow> ?thesis" using step Chunk chunk_at True by simp
      moreover have "?pos div ?k \<le> c \<Longrightarrow> ?thesis"
        using skip_to_chunk [OF ok refl True c(1,2) _ refl] step Chunk chunk_at True
        by (cases "c = ?pos div ?k") (simp_all add: max_absorb1)
      ultimately show ?thesis by linarith
    qed
  qed
qed

lemma compressed_skip_till_ok:
  assumes ok: "comp_ok bp wc it"
  shows "comp_ok bp wc (compressed_skip_till_id bp wc point it) \<and> ci_list (compressed_skip_till_id bp wc point it) = ci_list it \<and>
    comp_todo bp wc (compressed_skip_till_id bp wc point it) = dropWhile (\<lambda>e. fst e \<le> point) (comp_todo bp wc it)"
proof -
  obtain r it' where skip: "compressed_skip_to bp wc point it = (r, it')" by fastforce
  from compressed_skip_to_ok [OF ok, of point] skip have s: "comp_ok bp wc it'" "ci_list it' = ci_list it"
    "comp_todo bp wc it' = dropWhile (\<lambda>e. fst e < point) (comp_todo bp wc it)"
    "r \<noteq> None \<longleftrightarrow> (\<exists>e es. comp_todo bp wc it' = e # es \<and> fst e = point)" by (simp_all add: skipped_def)
  have "sorted_wrt (<) (map fst (comp_todo bp wc it))"
    using list_sorted [of bp wc "ci_list it"] ok by (simp add: comp_ok_def comp_todo_def drop_map [symmetric] sorted_wrt_drop)
  note step = dropWhile_le_step [OF this, of point]
  show ?thesis
  proof (cases r)
    case None
    with skip s step show ?thesis by (auto simp: compressed_skip_till_id_def split: list.splits)
  next
    case (Some e0)
    then obtain e es where e: "comp_todo bp wc it' = e # es" "fst e = point" using s(4) by auto
    then have pos: "ci_pos it' < list_len bp (ci_list it')" using comp_todo_nil [OF s(1)] by auto
    note n = next_from_ok [OF s(1) pos]
    have "comp_todo bp wc (next_from bp it') = es"
      using comp_todo_cons [OF s(1) pos] e(1) n(2,3) by (simp add: comp_todo_def)
    moreover have "dropWhile (\<lambda>e. fst e \<le> point) (comp_todo bp wc it) = es"
      using step unfolding s(3) [symmetric] e(1) using e(2) by simp
    ultimately show ?thesis using Some skip s(2) n by (simp add: compressed_skip_till_id_def)
  qed
qed

section \<open>Iterating\<close>

lemma concat_blocks_split:
  assumes "i < m"
  shows "concat (map f [0..<m]) = concat (map f [0..<i]) @ f i @ concat (map f [Suc i..<m])"
proof -
  have "[0..<m] = [0..<i] @ i # [Suc i..<m]" using assms by (metis less_imp_add_positive less_imp_le_nat upt_add_eq_append upt_conv_Cons zero_le)
  then show ?thesis by simp
qed

lemma drop_chunk:
  assumes l: "list_ok bp wc cl" and i: "i < length (cl_chunks cl)" and s: "s \<le> bp_block_len bp"
  shows "drop (i * bp_block_len bp + s) (list_entries bp wc cl) =
    drop s (chunk_entries bp wc cl i) @ drop (Suc i * bp_block_len bp) (list_entries bp wc cl)"
proof -
  let ?k = "bp_block_len bp" and ?ce = "chunk_entries bp wc cl" and ?m = "length (cl_chunks cl)"
  let ?later = "concat (map ?ce [Suc i..<?m]) @ remainder_entries wc cl" and ?before = "concat (map ?ce [0..<i])"
  have es: "list_entries bp wc cl = ?before @ ?ce i @ ?later"
    using concat_blocks_split [OF i, of ?ce] by (simp add: list_entries_def)
  have lens: "length ?before = i * ?k" "length (?ce i) = ?k"
    using i chunk_entries_length [OF l] by (simp_all add: length_blocks)
  show ?thesis unfolding es using lens s by (simp add: drop_append)
qed

lemma takeWhile_less_le:
  assumes "sorted_wrt (<) ks"
  shows "length (takeWhile (\<lambda>k. k \<le> (v::nat)) ks) = length (takeWhile (\<lambda>k. k < v) ks) +
    (if length (takeWhile (\<lambda>k. k < v) ks) < length ks \<and> ks ! length (takeWhile (\<lambda>k. k < v) ks) = v then 1 else 0)"
  using assms
proof (induction ks)
  case (Cons x xs)
  have "takeWhile (\<lambda>k. k \<le> v) xs = []" if "x = v" using Cons.prems that by (cases xs) auto
  with Cons show ?case by auto
qed simp

lemma count_le_sorted_ok:
  assumes "sorted_wrt (<) ks"
  shows "count_le_sorted v ks = length (takeWhile (\<lambda>k. k \<le> v) ks)"
proof (cases "ks = [] \<or> last ks < v")
  case True
  then have "\<forall>k\<in>set ks. k \<le> v"
    using assms by (induction ks) (auto split: if_splits, meson last_in_set less_le_trans less_imp_le)
  then have "length (takeWhile (\<lambda>k. k \<le> v) ks) = length ks" by (metis takeWhile_eq_all_conv)
  with True show ?thesis by (auto simp: count_le_sorted_def)
next
  case False
  then show ?thesis using takeWhile_less_le [OF assms, of v]
    by (auto simp: count_le_sorted_def binary_search_def Let_def split: if_splits)
qed

lemma chunk_ids_sorted:
  assumes l: "list_ok bp wc cl" and i: "i < length (cl_chunks cl)"
  shows "sorted_wrt (<) (decompress_chunk bp cl i)"
proof -
  have "sorted_wrt (<) (map fst (drop (i * bp_block_len bp + 0) (list_entries bp wc cl)))"
    using list_sorted [OF l] by (simp add: drop_map [symmetric] sorted_wrt_drop)
  then have "sorted_wrt (<) (map fst (chunk_entries bp wc cl i))"
    unfolding drop_chunk [OF l i le0] by (simp add: sorted_wrt_append)
  then show ?thesis using length_decompress [OF l i] length_weights [OF l i] by (simp add: chunk_entries_def)
qed

text \<open>The elements of one chunk that the loop visits.\<close>

lemma zip_take_while:
  assumes "length ids = length ws"
  shows "zip (take (length (takeWhile (\<lambda>i. i \<le> (p::nat)) ids)) ids) (take (length (takeWhile (\<lambda>i. i \<le> p) ids)) ws) =
    takeWhile (\<lambda>e. fst e \<le> p) (zip ids ws)"
  using assms by (induction ids ws rule: list_induct2) auto

lemma visited_chunk:
  assumes l: "list_ok bp wc cl" and i: "i < length (cl_chunks cl)" and s: "s \<le> bp_block_len bp"
    and c: "c = count_le_sorted point (drop s (decompress_chunk bp cl i))"
  shows "zip (take c (drop s (decompress_chunk bp cl i))) (take c (drop s (chunk_weights wc cl i))) =
      takeWhile (\<lambda>e. fst e \<le> point) (drop s (chunk_entries bp wc cl i))"
    "length (takeWhile (\<lambda>e. fst e \<le> point) (drop s (chunk_entries bp wc cl i))) = c" "s + c \<le> bp_block_len bp"
proof -
  let ?ids = "drop s (decompress_chunk bp cl i)" and ?ws = "drop s (chunk_weights wc cl i)"
  have len: "length ?ids = bp_block_len bp - s" "length ?ws = bp_block_len bp - s"
    using length_decompress [OF l i] length_weights [OF l i] by simp_all
  have c': "c = length (takeWhile (\<lambda>k. k \<le> point) ?ids)"
    unfolding c by (rule count_le_sorted_ok) (simp add: sorted_wrt_drop chunk_ids_sorted [OF l i])
  have z: "drop s (chunk_entries bp wc cl i) = zip ?ids ?ws" by (simp add: chunk_entries_def drop_zip)
  show v: "zip (take c ?ids) (take c ?ws) = takeWhile (\<lambda>e. fst e \<le> point) (drop s (chunk_entries bp wc cl i))"
    unfolding c' z by (rule zip_take_while) (simp only: len)
  have "c \<le> length ?ids" unfolding c' by (rule length_takeWhile_le)
  then show "s + c \<le> bp_block_len bp" using len s by linarith
  then show "length (takeWhile (\<lambda>e. fst e \<le> point) (drop s (chunk_entries bp wc cl i))) = c"
    unfolding v [symmetric] using len by simp
qed

lemma till_chunks_ok:
  assumes "list_ok bp wc cl" "ci_list it = cl" "n = length (cl_chunks cl) - pos div bp_block_len bp" "pos \<le> list_len bp cl"
    "\<not> need \<Longrightarrow> pos div bp_block_len bp < length (cl_chunks cl) \<Longrightarrow> ci_decompressed it = decompress_chunk bp cl (pos div bp_block_len bp)"
    "till_chunks bp wc point n need pos it = (visited, pos', returned, it')"
  shows "pos' = pos + length visited \<and> pos' \<le> list_len bp cl \<and> ci_list it' = cl \<and>
    takeWhile (\<lambda>e. fst e \<le> point) (drop pos (list_entries bp wc cl)) =
      visited @ (if returned then [] else takeWhile (\<lambda>e. fst e \<le> point) (drop pos' (list_entries bp wc cl))) \<and>
    (if returned then comp_ok bp wc it' \<and> ci_pos it' = pos' else length (cl_chunks cl) \<le> pos' div bp_block_len bp)"
  using assms
proof (induction n arbitrary: need pos it visited pos')
  case 0
  then show ?case by simp
next
  case (Suc n)
  let ?k = "bp_block_len bp" and ?es = "list_entries bp wc cl"
  define i s where "i = pos div ?k" and "s = pos mod ?k"
  note l = Suc.prems(1)
  have k: "0 < ?k" using l by (rule block_pos)
  have i: "i < length (cl_chunks cl)" using Suc.prems(3) by (simp add: i_def)
  have pos: "pos = i * ?k + s" "s \<le> ?k" using k by (simp_all add: i_def s_def less_imp_le)
  define it1 where "it1 = (if need then it\<lparr>ci_decompressed := decompress_chunk bp cl i\<rparr> else it)"
  have it1: "ci_list it1 = cl" "ci_decompressed it1 = decompress_chunk bp cl i"
    using Suc.prems(2,5) i by (auto simp: it1_def i_def)
  define c where "c = count_le_sorted point (drop s (decompress_chunk bp cl i))"
  note v = visited_chunk [OF l i pos(2) c_def]
  let ?v = "takeWhile (\<lambda>e. fst e \<le> point) (drop s (chunk_entries bp wc cl i))"
  note split = drop_chunk [OF l i pos(2), folded pos(1)]
  have run: "till_chunks bp wc point (Suc n) need pos it =
      (if s + c \<noteq> ?k then (?v, pos + c, True, it1\<lparr>ci_unpacked := True, ci_pos := pos + c, ci_current := None\<rparr>)
       else case till_chunks bp wc point n True (pos + c) it1 of
              (later, pos'', returned, it2) \<Rightarrow> (?v @ later, pos'', returned, it2))"
    unfolding till_chunks.simps Let_def Suc.prems(2) i_def [symmetric] s_def [symmetric] it1_def [symmetric] it1(2)
      c_def [symmetric] v(1) ..
  have len: "length (drop s (chunk_entries bp wc cl i)) = ?k - s" using chunk_entries_length [OF l i] by simp
  show ?case
  proof (cases "s + c = ?k")
    case False
    have r: "visited = ?v" "pos' = pos + c" "returned" "it' = it1\<lparr>ci_unpacked := True, ci_pos := pos + c, ci_current := None\<rparr>"
      using Suc.prems(6) False unfolding run by auto
    have "s + c < ?k" using v(3) False by simp
    then have at: "(pos + c) div ?k = i" using pos(1) k by (simp add: div_nat_eqI)
    have "pos + c < list_len bp cl" using chunk_pos_less [OF l, of "pos + c"] at i by simp
    moreover have "takeWhile (\<lambda>e. fst e \<le> point) (drop pos ?es) = ?v"
    proof -
      have "\<not> (\<forall>e\<in>set (drop s (chunk_entries bp wc cl i)). fst e \<le> point)"
      proof
        assume "\<forall>e\<in>set (drop s (chunk_entries bp wc cl i)). fst e \<le> point"
        then have "?v = drop s (chunk_entries bp wc cl i)" by (simp only: takeWhile_eq_all_conv)
        then have "c = ?k - s" using v(2) len by (simp only:)
        with \<open>s + c < ?k\<close> show False by simp
      qed
      then obtain e where "e \<in> set (drop s (chunk_entries bp wc cl i))" "\<not> fst e \<le> point" by blast
      then show ?thesis unfolding split by (rule takeWhile_append1)
    qed
    ultimately show ?thesis using r it1 v(2) at l by (simp add: comp_ok_def)
  next
    case True
    obtain later where r: "till_chunks bp wc point n True (pos + c) it1 = (later, pos', returned, it')" "visited = ?v @ later"
      using Suc.prems(6) True unfolding run by (auto split: prod.splits)
    have at: "pos + c = Suc i * ?k" using pos(1) True by simp
    then have at': "(pos + c) div ?k = Suc i" using k by (metis nonzero_mult_div_cancel_right less_numeral_extra(3))
    have le: "pos + c \<le> list_len bp cl" unfolding at using mult_le_mono1 [OF Suc_leI [OF i], of ?k] by (simp add: list_len_def)
    have n: "n = length (cl_chunks cl) - (pos + c) div ?k" unfolding at' using Suc.prems(3) by (simp add: i_def)
    have IH: "pos' = pos + c + length later \<and> pos' \<le> list_len bp cl \<and> ci_list it' = cl \<and>
        takeWhile (\<lambda>e. fst e \<le> point) (drop (pos + c) ?es) =
          later @ (if returned then [] else takeWhile (\<lambda>e. fst e \<le> point) (drop pos' ?es)) \<and>
        (if returned then comp_ok bp wc it' \<and> ci_pos it' = pos' else length (cl_chunks cl) \<le> pos' div ?k)"
      by (rule Suc.IH [OF l it1(1) n le _ r(1)]) simp
    have "?v = take c (drop s (chunk_entries bp wc cl i))" by (subst takeWhile_eq_take) (simp only: v(2))
    also have "\<dots> = drop s (chunk_entries bp wc cl i)" using len True by (intro take_all) linarith
    finally have all: "?v = drop s (chunk_entries bp wc cl i)" .
    then have "\<And>e. e \<in> set (drop s (chunk_entries bp wc cl i)) \<Longrightarrow> fst e \<le> point" by (simp only: takeWhile_eq_all_conv)
    then have "takeWhile (\<lambda>e. fst e \<le> point) (drop pos ?es) = ?v @ takeWhile (\<lambda>e. fst e \<le> point) (drop (pos + c) ?es)"
      unfolding split at all by (rule takeWhile_append2)
    then show ?thesis using IH [THEN conjunct1] IH [THEN conjunct2] r(2) v(2)
      by (intro conjI) (simp_all only: append_assoc length_append add.assoc, blast)
  qed
qed

lemma compressed_for_each_ok:
  assumes ok: "comp_ok bp wc it" and run: "compressed_for_each_till_id bp wc point it = (es, it')"
  shows "es = takeWhile (\<lambda>e. fst e \<le> point) (comp_todo bp wc it) \<and> comp_ok bp wc it' \<and> ci_list it' = ci_list it \<and>
    comp_todo bp wc it' = dropWhile (\<lambda>e. fst e \<le> point) (comp_todo bp wc it)"
proof -
  let ?cl = "ci_list it" and ?k = "bp_block_len bp" and ?es = "list_entries bp wc (ci_list it)"
  let ?m = "length (cl_chunks ?cl)" and ?P = "\<lambda>e. fst e \<le> point"
  have l: "list_ok bp wc ?cl" using ok by (simp add: comp_ok_def)
  obtain visited pos' returned it1 where till:
    "till_chunks bp wc point (?m - ci_pos it div ?k) (\<not> ci_unpacked it) (ci_pos it) it = (visited, pos', returned, it1)"
    by (metis prod_cases4)
  have "pos' = ci_pos it + length visited \<and> pos' \<le> list_len bp ?cl \<and> ci_list it1 = ?cl \<and>
      takeWhile ?P (drop (ci_pos it) ?es) = visited @ (if returned then [] else takeWhile ?P (drop pos' ?es)) \<and>
      (if returned then comp_ok bp wc it1 \<and> ci_pos it1 = pos' else ?m \<le> pos' div ?k)"
    by (rule till_chunks_ok [OF l refl refl _ _ till]) (use ok in \<open>auto simp: comp_ok_def\<close>)
  then have t: "pos' = ci_pos it + length visited" "pos' \<le> list_len bp ?cl" "ci_list it1 = ?cl"
    "takeWhile ?P (drop (ci_pos it) ?es) = visited @ (if returned then [] else takeWhile ?P (drop pos' ?es))"
    "if returned then comp_ok bp wc it1 \<and> ci_pos it1 = pos' else ?m \<le> pos' div ?k" by blast+
  have seen: "es = takeWhile ?P (drop (ci_pos it) ?es) \<and> ci_pos it' = ci_pos it + length es \<and> comp_ok bp wc it' \<and> ci_list it' = ?cl"
  proof (cases returned)
    case True
    with run till t show ?thesis by (auto simp: compressed_for_each_till_id_def Let_def)
  next
    case False
    let ?later = "takeWhile ?P (drop (pos' - ?m * ?k) (remainder_entries wc ?cl))"
    have past: "?m * ?k \<le> pos'" using t(5) False div_less_blocks [OF block_pos [OF l], of pos' ?m] by simp
    have later: "?later = takeWhile ?P (drop pos' ?es)"
      using past chunks_part_length [OF l] by (simp add: list_entries_def)
    have "length ?later \<le> length (drop pos' ?es)" unfolding later by (rule length_takeWhile_le)
    then have "pos' + length ?later \<le> list_len bp ?cl" using t(2) list_entries_length [OF l] by simp
    moreover have "\<not> (pos' + length ?later) div ?k < ?m" using past div_less_blocks [OF block_pos [OF l]] by simp
    ultimately have "comp_ok bp wc (it1\<lparr>ci_pos := pos' + length ?later, ci_current := None\<rparr>)" using l t(3) by (simp add: comp_ok_def)
    moreover have r: "es = visited @ ?later" "it' = it1\<lparr>ci_pos := pos' + length ?later, ci_current := None\<rparr>"
      using run till False by (auto simp: compressed_for_each_till_id_def Let_def)
    moreover have "visited @ ?later = takeWhile ?P (drop (ci_pos it) ?es)" using t(4) False later by simp
    moreover have "length es = length visited + length ?later" unfolding r(1) by simp
    ultimately show ?thesis using t(1,3) by simp
  qed
  then have "comp_todo bp wc it' = drop (length es) (comp_todo bp wc it)" by (simp add: comp_todo_def add.commute)
  with seen show ?thesis using drop_length_takeWhile [of ?P "comp_todo bp wc it"] by (simp add: comp_todo_def)
qed

section \<open>Block maxima bound the weights\<close>

lemma entry_place:
  assumes l: "list_ok bp wc cl" and j: "j < list_len bp cl"
  shows "(\<exists>i<length (cl_chunks cl). i = j div bp_block_len bp \<and> list_entries bp wc cl ! j \<in> set (chunk_entries bp wc cl i)) \<or>
    (\<exists>i<length (cl_remainders cl). j = length (cl_chunks cl) * bp_block_len bp + i \<and> list_entries bp wc cl ! j = remainder_entries wc cl ! i)"
proof (cases "j div bp_block_len bp < length (cl_chunks cl)")
  case True
  let ?i = "j div bp_block_len bp" and ?s = "j mod bp_block_len bp"
  have s: "?s < bp_block_len bp" using block_pos [OF l] by simp
  have "list_entries bp wc cl ! j = chunk_entries bp wc cl ?i ! ?s"
    using list_entries_chunk [OF l True] s length_decompress [OF l True] length_weights [OF l True]
    by (simp add: chunk_entries_def chunk_weights_def get_weight_def)
  then show ?thesis using True s chunk_entries_length [OF l True] by auto
next
  case False
  then show ?thesis using list_entries_remainder [OF l False] remainder_index [OF l False] j
      div_less_blocks [OF block_pos [OF l], of j "length (cl_chunks cl)"]
    by (intro disjI2 exI [of _ "j - length (cl_chunks cl) * bp_block_len bp"]) auto
qed

lemma chunk_entries_in: "i < length (cl_chunks cl) \<Longrightarrow> set (chunk_entries bp wc cl i) \<subseteq> set (list_entries bp wc cl)"
  by (force simp: list_entries_def)

lemma chunk_weights_finite:
  assumes l: "list_ok bp wc cl" and i: "i < length (cl_chunks cl)" and w: "w \<in> set (chunk_weights wc cl i)"
  shows "is_finite w"
proof -
  have "w \<in> snd ` set (chunk_entries bp wc cl i)"
    using w length_decompress [OF l i] length_weights [OF l i] unfolding chunk_entries_def
    by (metis length_chunk_weights list.set_map map_snd_zip)
  then show ?thesis using chunk_entries_in [OF i, of bp wc] list_finite [OF l] by auto
qed

lemma decoded_chunk_max_ok:
  assumes l: "list_ok bp wc cl" and i: "i < length (cl_chunks cl)"
  shows "is_finite (decoded_chunk_max wc cl i)" "f_nonneg (decoded_chunk_max wc cl i)"
    "e \<in> set (chunk_entries bp wc cl i) \<Longrightarrow> snd e \<le> decoded_chunk_max wc cl i"
proof -
  have "\<forall>w\<in>set (chunk_weights wc cl i). is_finite w" using chunk_weights_finite [OF l i] by blast
  from foldl_f_max [OF this, of "Fin 0"]
  have m: "is_finite (decoded_chunk_max wc cl i) \<and> f_nonneg (decoded_chunk_max wc cl i) \<and>
      (\<forall>w\<in>set (chunk_weights wc cl i). w \<le> decoded_chunk_max wc cl i)" by (simp add: decoded_chunk_max_def)
  then show "is_finite (decoded_chunk_max wc cl i)" "f_nonneg (decoded_chunk_max wc cl i)" by blast+
  assume "e \<in> set (chunk_entries bp wc cl i)"
  then have "snd e \<in> set (chunk_weights wc cl i)" unfolding chunk_entries_def by (metis prod.collapse set_zip_rightD)
  with m show "snd e \<le> decoded_chunk_max wc cl i" by blast
qed

lemma remainder_finite: "list_ok bp wc cl \<Longrightarrow> e \<in> set (remainder_entries wc cl) \<Longrightarrow> is_finite (snd e)"
  using list_finite [of bp wc cl e] by (simp add: list_entries_def)

lemma takeWhile_sorted_set:
  "sorted_wrt (<) (map fst xs) \<Longrightarrow> e \<in> set xs \<Longrightarrow> fst e \<le> (p::nat) \<Longrightarrow> e \<in> set (takeWhile (\<lambda>e. fst e \<le> p) xs)"
  by (induction xs) (auto simp: less_imp_le less_le_trans intro: order.trans)

lemma length_takeWhile_ge:
  "n \<le> length xs \<Longrightarrow> (\<And>j. j < n \<Longrightarrow> P (xs ! j)) \<Longrightarrow> n \<le> length (takeWhile P xs)"
proof (induction xs arbitrary: n)
  case (Cons x xs)
  show ?case
  proof (cases n)
    case (Suc n')
    have "P x" using Cons.prems(2) [of 0] Suc by simp
    moreover have "n' \<le> length (takeWhile P xs)" using Cons.prems Suc by (intro Cons.IH) fastforce+
    ultimately show ?thesis using Suc by simp
  qed simp
qed simp

lemma initial_le_entry:
  assumes l: "list_ok bp wc cl" and j: "j < list_len bp cl" and i: "i < length (cl_chunks cl)" "i * bp_block_len bp \<le> j"
  shows "ch_initial (cl_chunks cl ! i) \<le> fst (list_entries bp wc cl ! j)"
  using entries_le [OF l i(2) j] initial_entry [OF l i(1)] by simp

lemma compressed_max_weight_ok:
  assumes ok: "comp_ok bp wc it" and passed: "\<And>j. j < ci_pos it \<Longrightarrow> fst (list_entries bp wc (ci_list it) ! j) \<le> point"
  shows "\<exists>m. compressed_max_weight_till_id bp wc point it = Inr (Some m) \<and> is_finite m \<and> f_nonneg m \<and>
    (\<forall>e\<in>set (takeWhile (\<lambda>e. fst e \<le> point) (comp_todo bp wc it)). snd e \<le> m)"
proof -
  let ?cl = "ci_list it" and ?k = "bp_block_len bp" and ?pos = "ci_pos it"
  let ?m = "length (cl_chunks ?cl)" and ?es = "list_entries bp wc ?cl" and ?P = "\<lambda>c. ch_initial c \<le> point"
  have l: "list_ok bp wc ?cl" using ok by (simp add: comp_ok_def)
  have k: "0 < ?k" using l by (rule block_pos)
  have pos_le: "?pos \<le> list_len bp ?cl" using ok by (simp add: comp_ok_def)
  define end_chunk where "end_chunk = length (takeWhile ?P (cl_chunks ?cl))"
  have end_ge: "c \<le> end_chunk" if "c \<le> ?m" "\<And>j. j < c \<Longrightarrow> ch_initial (cl_chunks ?cl ! j) \<le> point" for c
    unfolding end_chunk_def using that by (rule length_takeWhile_ge)
  have end_le: "end_chunk \<le> ?m" unfolding end_chunk_def by (rule length_takeWhile_le)
  have no_panic: "?pos div ?k \<le> end_chunk" if cur: "?pos div ?k < ?m"
  proof (rule end_ge)
    fix j assume j: "j < ?pos div ?k"
    then have "Suc j * ?k \<le> ?pos" using k by (metis Suc_leI div_le_mono le_trans mult_le_mono1 div_times_less_eq_dividend)
    then have "j * ?k < ?pos" using k by simp
    from passed [OF this] initial_entry [OF l, of j] j cur show "ch_initial (cl_chunks ?cl ! j) \<le> point" by simp
  qed (use cur in simp)
  define maxima where "maxima = (if ?pos div ?k < ?m then map (decoded_chunk_max wc ?cl) [?pos div ?k..<end_chunk] else [])"
  define inside where "inside = (?m * ?k \<le> ?pos \<or> (case cl_remainders ?cl of [] \<Rightarrow> False | first # _ \<Rightarrow> fst first \<le> point))"
  define ws where "ws = (if inside then map snd (takeWhile (\<lambda>e. fst e \<le> point) (drop (?pos - ?m * ?k) (remainder_entries wc ?cl))) else [])"
  define res where "res = foldl f_max (foldl f_max (Fin 0) maxima) ws"
  have run: "compressed_max_weight_till_id bp wc point it = Inr (Some res)"
    using no_panic by (auto simp: compressed_max_weight_till_id_def Let_def res_def maxima_def ws_def inside_def end_chunk_def)
  have "\<forall>w\<in>set maxima. is_finite w" using decoded_chunk_max_ok(1) [OF l] end_le by (auto simp: maxima_def)
  then have f1: "is_finite (foldl f_max (Fin 0) maxima)" "f_nonneg (foldl f_max (Fin 0) maxima)"
    "\<forall>w\<in>set maxima. w \<le> foldl f_max (Fin 0) maxima" using foldl_f_max [of maxima "Fin 0"] by simp_all
  have "\<forall>w\<in>set ws. is_finite w" using remainder_finite [OF l] by (auto simp: ws_def dest!: set_takeWhileD in_set_dropD)
  note f2 = foldl_f_max [OF this f1(1,2), folded res_def]
  have "snd (?es ! j) \<le> res" if j: "?pos \<le> j" "j < list_len bp ?cl" and le: "fst (?es ! j) \<le> point" for j
    using entry_place [OF l j(2)]
  proof (elim disjE exE conjE)
    fix i assume i: "i < ?m" "i = j div ?k" "?es ! j \<in> set (chunk_entries bp wc ?cl i)"
    have "Suc i \<le> end_chunk"
    proof (rule end_ge)
      fix h assume "h < Suc i"
      then have "h * ?k \<le> j" using i(2) by (metis less_Suc_eq_le div_times_less_eq_dividend le_trans mult_le_mono1)
      then show "ch_initial (cl_chunks ?cl ! h) \<le> point"
        using initial_le_entry [OF l j(2), of h] le i(1) \<open>h < Suc i\<close> by simp
    qed (use i in simp)
    moreover have "?pos div ?k \<le> i" using i(2) j(1) by (simp add: div_le_mono)
    ultimately have "decoded_chunk_max wc ?cl i \<in> set maxima" using i(1) by (auto simp: maxima_def)
    with f1(3) f2 decoded_chunk_max_ok(3) [OF l i(1,3)] show ?thesis by (meson order.trans)
  next
    fix i assume i: "i < length (cl_remainders ?cl)" "j = ?m * ?k + i" "?es ! j = remainder_entries wc ?cl ! i"
    have srt: "sorted_wrt (<) (map fst (remainder_entries wc ?cl))"
      using list_sorted [OF l] by (simp add: list_entries_def sorted_wrt_append)
    have "fst (?es ! (?m * ?k)) \<le> point" using entries_le [OF l, of "?m * ?k" j] i(2) j(2) le by simp
    then have inside using i(1) list_entries_remainder [OF l, of "?m * ?k"] k
      by (cases "cl_remainders ?cl") (auto simp: inside_def remainder_entries_def)
    moreover have "drop (?pos - ?m * ?k) (remainder_entries wc ?cl) ! (j - max ?pos (?m * ?k)) = ?es ! j"
      using i j(1) by (simp add: max_def)
    then have "?es ! j \<in> set (drop (?pos - ?m * ?k) (remainder_entries wc ?cl))"
      using i j(1) nth_mem [of "j - max ?pos (?m * ?k)" "drop (?pos - ?m * ?k) (remainder_entries wc ?cl)"] by (simp add: max_def split: if_splits)
    then have "?es ! j \<in> set (takeWhile (\<lambda>e. fst e \<le> point) (drop (?pos - ?m * ?k) (remainder_entries wc ?cl)))"
      using le srt by (intro takeWhile_sorted_set) (simp_all add: drop_map [symmetric] sorted_wrt_drop)
    ultimately have "snd (?es ! j) \<in> set ws" by (simp add: ws_def)
    with f2 show ?thesis by blast
  qed
  then have "\<forall>e\<in>set (takeWhile (\<lambda>e. fst e \<le> point) (comp_todo bp wc it)). snd e \<le> res"
    using list_entries_length [OF l] pos_le
    by (auto simp: comp_todo_def in_set_conv_nth dest!: set_takeWhileD) (metis add.commute less_diff_conv le_add2 fst_conv snd_conv)
  with run f2 show ?thesis by blast
qed

definition ranges_ok :: "nat \<Rightarrow> flt list \<Rightarrow> bool" where
  "ranges_ok n ms \<longleftrightarrow> length ms = n \<and> (\<forall>m\<in>set ms. is_finite m \<and> f_nonneg m)"

lemma nth_raise_ranges:
  "i < length ms \<Longrightarrow> raise_ranges a b mx ms ! i = (if a \<le> i \<and> i \<le> b then f_max (ms ! i) mx else ms ! i)"
  by (simp add: raise_ranges_def nth_enumerate_eq)

lemma raise_ranges_ok:
  assumes "ranges_ok n ms" "is_finite mx"
  shows "ranges_ok n (raise_ranges a b mx ms)"
    "i < n \<Longrightarrow> ms ! i \<le> raise_ranges a b mx ms ! i" "i < n \<Longrightarrow> a \<le> i \<Longrightarrow> i \<le> b \<Longrightarrow> mx \<le> raise_ranges a b mx ms ! i"
proof -
  have len: "length (raise_ranges a b mx ms) = n" using assms by (simp add: raise_ranges_def ranges_ok_def)
  have m: "is_finite (f_max (ms ! i) mx) \<and> f_nonneg (f_max (ms ! i) mx) \<and> ms ! i \<le> f_max (ms ! i) mx \<and> mx \<le> f_max (ms ! i) mx"
    if "i < n" for i
  proof -
    have "is_finite (ms ! i)" "f_nonneg (ms ! i)" using that assms by (auto simp: ranges_ok_def)
    with assms(2) show ?thesis by (auto simp: is_finite_cases f_max_def max_def)
  qed
  have "is_finite (raise_ranges a b mx ms ! i) \<and> f_nonneg (raise_ranges a b mx ms ! i)" if "i < n" for i
    using that m [OF that] assms(1) by (simp add: nth_raise_ranges ranges_ok_def)
  with len show "ranges_ok n (raise_ranges a b mx ms)" by (auto simp: ranges_ok_def in_set_conv_nth)
  show "i < n \<Longrightarrow> ms ! i \<le> raise_ranges a b mx ms ! i" "i < n \<Longrightarrow> a \<le> i \<Longrightarrow> i \<le> b \<Longrightarrow> mx \<le> raise_ranges a b mx ms ! i"
    using m [of i] assms(1) by (simp_all add: nth_raise_ranges ranges_ok_def)
qed

lemma fold_raise_ranges:
  assumes "ranges_ok n ms" "\<forall>(a, b, mx)\<in>set ops. is_finite mx"
  shows "ranges_ok n (fold (\<lambda>(a, b, mx). raise_ranges a b mx) ops ms) \<and>
    (\<forall>i<n. ms ! i \<le> fold (\<lambda>(a, b, mx). raise_ranges a b mx) ops ms ! i) \<and>
    (\<forall>(a, b, mx)\<in>set ops. \<forall>i<n. a \<le> i \<longrightarrow> i \<le> b \<longrightarrow> mx \<le> fold (\<lambda>(a, b, mx). raise_ranges a b mx) ops ms ! i)"
  using assms
proof (induction ops arbitrary: ms)
  case (Cons op ops)
  obtain a b mx where op: "op = (a, b, mx)" by (cases op)
  have fin: "is_finite mx" using Cons.prems(2) op by simp
  note r = raise_ranges_ok [OF Cons.prems(1) fin, where a = a and b = b]
  have "ranges_ok n (fold (\<lambda>(a, b, mx). raise_ranges a b mx) ops (raise_ranges a b mx ms)) \<and>
    (\<forall>i<n. raise_ranges a b mx ms ! i \<le> fold (\<lambda>(a, b, mx). raise_ranges a b mx) ops (raise_ranges a b mx ms) ! i) \<and>
    (\<forall>(c, d, my)\<in>set ops. \<forall>i<n. c \<le> i \<longrightarrow> i \<le> d \<longrightarrow> my \<le> fold (\<lambda>(a, b, mx). raise_ranges a b mx) ops (raise_ranges a b mx ms) ! i)"
    using Cons.prems(2) by (intro Cons.IH r(1)) simp
  then show ?case using r(2,3) by (simp add: op) (meson order.trans)
qed simp

lemma covered_end_ok:
  assumes l: "list_ok bp wc cl" and j: "j < list_len bp cl" and i: "i < length (cl_chunks cl)" "i = j div bp_block_len bp"
  shows "fst (list_entries bp wc cl ! j) \<le> covered_end cl i"
proof -
  let ?k = "bp_block_len bp" and ?m = "length (cl_chunks cl)" and ?es = "list_entries bp wc cl"
  have k: "0 < ?k" using l by (rule block_pos)
  have before: "j < Suc i * ?k" using i(2) k by (simp add: dividend_less_div_times)
  consider "Suc i < ?m" | r rs where "Suc i = ?m" "cl_remainders cl = r # rs" | "Suc i = ?m" "cl_remainders cl = []"
    using i(1) by (metis Suc_lessI list.exhaust)
  then show ?thesis
  proof cases
    case 1
    have "fst (?es ! j) < fst (?es ! (Suc i * ?k))"
      using chunk_pos_less [OF l, of "Suc i * ?k"] 1 k before by (intro entries_less [OF l]) simp_all
    then have "fst (?es ! j) < ch_initial (cl_chunks cl ! Suc i)" using initial_entry [OF l 1] by simp
    with 1 show ?thesis by (simp add: covered_end_def)
  next
    case (2 r rs)
    have "fst (?es ! j) < fst (?es ! (?m * ?k))"
      using before 2 by (intro entries_less [OF l]) (simp_all add: list_len_def)
    then have "fst (?es ! j) < fst r" using list_entries_remainder [OF l, of "?m * ?k"] k 2
      by (simp add: remainder_entries_def case_prod_beta)
    with 2 show ?thesis by (simp add: covered_end_def)
  next
    case 3
    have ne: "?es \<noteq> []" using list_entries_length [OF l] j by auto
    moreover have "last ?es = ?es ! (list_len bp cl - 1)" using last_conv_nth [OF ne] list_entries_length [OF l] by simp
    moreover have "fst (?es ! j) \<le> fst (?es ! (list_len bp cl - 1))" using j by (intro entries_le [OF l]) auto
    ultimately show ?thesis using 3 list_last [OF l] by (simp add: covered_end_def)
  qed
qed

lemma compressed_fill_ok:
  assumes l: "list_ok bp wc (ci_list it)" and width: "0 < width"
    and fill: "compressed_fill_block_max_ranges wc start width n it = Some ms"
  shows "ranges_ok n ms \<and> (\<forall>e\<in>set (list_entries bp wc (ci_list it)). (fst e - start) div width < n \<longrightarrow>
    snd e \<le> ms ! ((fst e - start) div width))"
proof -
  let ?cl = "ci_list it"
  let ?m = "length (cl_chunks ?cl)" and ?es = "list_entries bp wc ?cl"
  let ?range = "\<lambda>p. (p - start) div width"
  define chunk_ops where "chunk_ops = map (\<lambda>i. (?range (ch_initial (cl_chunks ?cl ! i)), ?range (covered_end ?cl i), decoded_chunk_max wc ?cl i)) [0..<?m]"
  define elem_ops where "elem_ops = map (\<lambda>e. (?range (fst e), ?range (fst e), snd e)) (remainder_entries wc ?cl)"
  let ?raise = "\<lambda>(a, b, mx). raise_ranges a b mx"
  have ms: "ms = fold ?raise (chunk_ops @ elem_ops) (replicate n (Fin 0))"
  proof -
    have "fold (chunk_ranges wc start width ?cl) [0..<?m] = fold ?raise chunk_ops"
      by (rule ext) (simp add: chunk_ops_def fold_map comp_def chunk_ranges_def [abs_def])
    moreover have "fold (element_range start width) (remainder_entries wc ?cl) = fold ?raise elem_ops"
      by (rule ext) (simp add: elem_ops_def fold_map comp_def element_range_def [abs_def])
    ultimately show ?thesis using fill by (simp add: compressed_fill_block_max_ranges_def Let_def)
  qed
  have "ranges_ok n (replicate n (Fin 0))" by (simp add: ranges_ok_def)
  moreover have "\<forall>(a, b, mx)\<in>set (chunk_ops @ elem_ops). is_finite mx"
    using decoded_chunk_max_ok(1) [OF l] remainder_finite [OF l] by (auto simp: chunk_ops_def elem_ops_def)
  ultimately have f: "ranges_ok n ms" "(a, b, mx) \<in> set (chunk_ops @ elem_ops) \<Longrightarrow> i < n \<Longrightarrow> a \<le> i \<Longrightarrow> i \<le> b \<Longrightarrow> mx \<le> ms ! i" for a b mx i
    using fold_raise_ranges [of n "replicate n (Fin 0)" "chunk_ops @ elem_ops"] unfolding ms [symmetric] by blast+
  have "snd (?es ! j) \<le> ms ! ?range (fst (?es ! j))" if j: "j < list_len bp ?cl" and n: "?range (fst (?es ! j)) < n" for j
    using entry_place [OF l j]
  proof (elim disjE exE conjE)
    fix i assume i: "i < ?m" "i = j div bp_block_len bp" "?es ! j \<in> set (chunk_entries bp wc ?cl i)"
    have "?range (ch_initial (cl_chunks ?cl ! i)) \<le> ?range (fst (?es ! j))" "?range (fst (?es ! j)) \<le> ?range (covered_end ?cl i)"
      using initial_le_entry [OF l j i(1)] covered_end_ok [OF l j i(1,2)] i(2) by (auto intro!: div_le_mono diff_le_mono)
    moreover have "(?range (ch_initial (cl_chunks ?cl ! i)), ?range (covered_end ?cl i), decoded_chunk_max wc ?cl i) \<in> set (chunk_ops @ elem_ops)"
      using i(1) by (simp add: chunk_ops_def)
    ultimately show ?thesis using f(2) n decoded_chunk_max_ok(3) [OF l i(1,3)] by (meson order.trans)
  next
    fix i assume i: "i < length (cl_remainders ?cl)" "?es ! j = remainder_entries wc ?cl ! i"
    then have "(?range (fst (?es ! j)), ?range (fst (?es ! j)), snd (?es ! j)) \<in> set (chunk_ops @ elem_ops)"
      by (simp add: elem_ops_def)
    from f(2) [OF this n] show ?thesis by simp
  qed
  with f(1) show ?thesis using list_entries_length [OF l] by (auto simp: in_set_conv_nth) (metis fst_conv snd_conv)
qed

section \<open>The iterator of the compressed list keeps the contract\<close>

interpretation compressed: posting_iter "compressed_iter bp wc" "comp_all bp wc" "comp_todo bp wc" "comp_ok bp wc" for bp wc
proof
  fix it it' :: "('a, 'b) compressed_iterator" and point and r :: "(nat \<times> flt) option" and es passed :: "(nat \<times> flt) list"
  assume ok: "comp_ok bp wc it"
  then have l: "list_ok bp wc (ci_list it)" by (simp add: comp_ok_def)
  show "sorted_wrt (<) (map fst (comp_all bp wc it))" using list_sorted [OF l] by (simp add: comp_all_def)
  show "is_finite (snd e)" if "e \<in> set (comp_all bp wc it)" for e using that list_finite [OF l] by (simp add: comp_all_def)
  show "\<exists>passed. comp_all bp wc it = passed @ comp_todo bp wc it"
    by (simp add: comp_all_def comp_todo_def) (metis append_take_drop_id)
  show "r = (case comp_todo bp wc it of [] \<Rightarrow> None | e # _ \<Rightarrow> Some e) \<and> comp_ok bp wc it' \<and> comp_all bp wc it' = comp_all bp wc it \<and>
      comp_todo bp wc it' = comp_todo bp wc it" if peek: "pi_peek (compressed_iter bp wc) it = (r, it')"
    using compressed_peek_ok [OF ok, of r it'] peek comp_todo_cons [OF ok] comp_todo_nil [OF ok]
    by (cases "ci_pos it < list_len bp (ci_list it)") (simp_all add: compressed_iter_def comp_all_def comp_todo_def [of bp wc it'] comp_todo_def [of bp wc it, symmetric])
  show "pi_last_id (compressed_iter bp wc) it = (if comp_all bp wc it = [] then None else Some (fst (last (comp_all bp wc it))))"
    using list_last [OF l] by (simp add: compressed_iter_def comp_all_def)
  show "pi_len_to_end (compressed_iter bp wc) it = length (comp_todo bp wc it)"
    using list_entries_length [OF l] by (simp add: compressed_iter_def compressed_len_to_end_def comp_todo_def)
  show "comp_ok bp wc (pi_skip_to (compressed_iter bp wc) point it) \<and> comp_all bp wc (pi_skip_to (compressed_iter bp wc) point it) = comp_all bp wc it \<and>
      comp_todo bp wc (pi_skip_to (compressed_iter bp wc) point it) = dropWhile (\<lambda>e. fst e < point) (comp_todo bp wc it)"
    using compressed_skip_to_ok [OF ok, of point]
    by (cases "compressed_skip_to bp wc point it") (simp add: compressed_iter_def comp_all_def skipped_def)
  show "comp_ok bp wc (pi_skip_till_id (compressed_iter bp wc) point it) \<and>
      comp_all bp wc (pi_skip_till_id (compressed_iter bp wc) point it) = comp_all bp wc it \<and>
      comp_todo bp wc (pi_skip_till_id (compressed_iter bp wc) point it) = dropWhile (\<lambda>e. fst e \<le> point) (comp_todo bp wc it)"
    using compressed_skip_till_ok [OF ok, of point] by (simp add: compressed_iter_def comp_all_def)
  show "es = takeWhile (\<lambda>e. fst e \<le> point) (comp_todo bp wc it) \<and> comp_ok bp wc it' \<and> comp_all bp wc it' = comp_all bp wc it \<and>
      comp_todo bp wc it' = dropWhile (\<lambda>e. fst e \<le> point) (comp_todo bp wc it)"
    if "pi_for_each_till_id (compressed_iter bp wc) point it = (es, it')"
    using compressed_for_each_ok [OF ok, of point es it'] that by (simp add: compressed_iter_def comp_all_def)
  show "\<exists>m. pi_max_weight_till_id (compressed_iter bp wc) point it = Inr (Some m) \<and> is_finite m \<and> f_nonneg m \<and>
      (\<forall>e\<in>set (takeWhile (\<lambda>e. fst e \<le> point) (comp_todo bp wc it)). snd e \<le> m)"
    if all: "comp_all bp wc it = passed @ comp_todo bp wc it" and low: "\<forall>e\<in>set passed. fst e \<le> point"
  proof -
    have "ci_pos it \<le> list_len bp (ci_list it)" using ok by (simp add: comp_ok_def)
    then have pos: "length passed = ci_pos it"
      using arg_cong [OF all, of length] list_entries_length [OF l] by (simp add: comp_all_def comp_todo_def)
    have "fst (list_entries bp wc (ci_list it) ! j) \<le> point" if "j < ci_pos it" for j
      using all low that pos by (simp add: comp_all_def nth_append)
    from compressed_max_weight_ok [OF ok this] show ?thesis by (simp add: compressed_iter_def)
  qed
next
  fix it :: "('a, 'b) compressed_iterator"
  assume "comp_ok bp wc it"
  then have l: "list_ok bp wc (ci_list it)" by (simp add: comp_ok_def)
  show "length ms = n \<and> (\<forall>m\<in>set ms. is_finite m \<and> f_nonneg m) \<and>
      (\<forall>e\<in>set (comp_all bp wc it). (fst e - start) div width < n \<longrightarrow> snd e \<le> ms ! ((fst e - start) div width))"
    if "0 < width" "pi_fill_block_max_ranges (compressed_iter bp wc) start width n it = Some ms" for start width n ms
    using compressed_fill_ok [OF l that(1), of start n ms] that(2) by (simp add: compressed_iter_def comp_all_def ranges_ok_def)
qed

section \<open>The builder\<close>

text \<open>
  What the builder relies on of the bit packer: a block of strictly increasing \<open>u32\<close> values above
  the previous value comes back from its compressed form, whose size follows from the bit width.
\<close>

definition bitpacker_ok :: "bitpacker \<Rightarrow> bool" where
  "bitpacker_ok bp \<longleftrightarrow> 0 < bp_block_len bp \<and> 8 dvd bp_block_len bp \<and>
     (\<forall>bits. bp_compressed_block_size bp bits = bits * bp_block_len bp div 8) \<and>
     (\<forall>previous ids. length ids = bp_block_len bp \<longrightarrow> sorted_wrt (<) ids \<longrightarrow> (\<forall>i\<in>set ids. i < 2 ^ 32) \<longrightarrow>
        (\<forall>p. previous = Some p \<longrightarrow> (\<forall>i\<in>set ids. p < i)) \<longrightarrow>
        (let bits = bp_num_bits_strictly_sorted bp previous ids; packed = bp_compress_strictly_sorted bp previous ids bits
         in bits \<le> 32 \<and> length packed = bp_compressed_block_size bp bits \<and>
            bp_decompress_strictly_sorted bp previous packed bits = ids))"

definition block_ok :: "bitpacker \<Rightarrow> (nat \<times> flt) list \<Rightarrow> bool" where
  "block_ok bp chunk \<longleftrightarrow> length chunk = bp_block_len bp \<and> sorted_wrt (<) (map fst chunk) \<and> (\<forall>e\<in>set chunk. fst e < 2 ^ 32)"

definition block_bits :: "bitpacker \<Rightarrow> (nat \<times> flt) list \<Rightarrow> nat" where
  "block_bits bp chunk = bp_num_bits_strictly_sorted bp (checked_pred (fst (hd chunk))) (map fst chunk)"

definition block_size :: "bitpacker \<Rightarrow> (nat \<times> flt) list \<Rightarrow> nat" where
  "block_size bp chunk = bp_compressed_block_size bp (block_bits bp chunk)"

definition block_bytes :: "bitpacker \<Rightarrow> (nat \<times> flt) list \<Rightarrow> 8 word list" where
  "block_bytes bp chunk = bp_compress_strictly_sorted bp (checked_pred (fst (hd chunk))) (map fst chunk) (block_bits bp chunk)"

lemma block_facts:
  assumes bp: "bitpacker_ok bp" and b: "block_ok bp chunk"
  shows "length (block_bytes bp chunk) = block_size bp chunk"
    "bp_decompress_strictly_sorted bp (checked_pred (fst (hd chunk))) (block_bytes bp chunk) (block_bits bp chunk) = map fst chunk"
    "block_size bp chunk * 8 div bp_block_len bp = block_bits bp chunk" "block_size bp chunk \<le> 4 * bp_block_len bp"
proof -
  let ?prev = "checked_pred (fst (hd chunk))" and ?ids = "map fst chunk"
  have "\<forall>p. ?prev = Some p \<longrightarrow> (\<forall>i\<in>set ?ids. p < i)"
    using b by (cases chunk) (auto simp: checked_pred_def block_ok_def)
  moreover have "length ?ids = bp_block_len bp" "sorted_wrt (<) ?ids" "\<forall>i\<in>set ?ids. i < 2 ^ 32" using b by (auto simp: block_ok_def)
  ultimately have "block_bits bp chunk \<le> 32 \<and> length (block_bytes bp chunk) = block_size bp chunk \<and>
      bp_decompress_strictly_sorted bp ?prev (block_bytes bp chunk) (block_bits bp chunk) = ?ids"
    using bp unfolding bitpacker_ok_def Let_def block_bits_def block_bytes_def block_size_def by blast
  then show bits: "length (block_bytes bp chunk) = block_size bp chunk"
    "bp_decompress_strictly_sorted bp ?prev (block_bytes bp chunk) (block_bits bp chunk) = ?ids"
    and le: "block_size bp chunk \<le> 4 * bp_block_len bp"
    using bp by (auto simp: bitpacker_ok_def block_size_def intro: order.trans [OF div_le_mono [OF mult_le_mono1 [of _ 32]]])
  obtain b8 where b8: "bp_block_len bp = 8 * b8" using bp by (auto simp: bitpacker_ok_def)
  then show "block_size bp chunk * 8 div bp_block_len bp = block_bits bp chunk"
    using bp by (simp add: bitpacker_ok_def block_size_def)
qed

definition block_offset :: "bitpacker \<Rightarrow> (nat \<times> flt) list list \<Rightarrow> nat \<Rightarrow> nat" where
  "block_offset bp blocks i = sum_list (map (block_size bp) (take i blocks))"

definition block_header :: "bitpacker \<Rightarrow> ('w, 'p) weight_codec \<Rightarrow> 'p \<Rightarrow> (nat \<times> flt) list \<Rightarrow> nat \<Rightarrow> 'w compressed_posting_chunk" where
  "block_header bp wc params chunk offset = \<lparr>ch_initial = fst (hd chunk), ch_offset = offset mod 2 ^ 32,
     ch_weights = map (\<lambda>e. wc_from_f32 wc params (snd e)) chunk\<rparr>"

lemma build_headers_blocks:
  assumes "0 < bp_block_len bp" "\<forall>c\<in>set blocks. length c = bp_block_len bp" "\<forall>c\<in>set rest. length c \<noteq> bp_block_len bp"
  shows "build_headers bp wc params (blocks @ rest) d =
    (map (\<lambda>i. block_header bp wc params (blocks ! i) (d + block_offset bp blocks i)) [0..<length blocks],
     d + block_offset bp blocks (length blocks), map (\<lambda>e. (fst e, wc_from_f32 wc params (snd e))) (concat rest))"
  using assms(2)
proof (induction blocks arbitrary: d)
  case Nil
  then show ?case using assms(3) by (induction rest) (auto simp: block_offset_def)
next
  case (Cons c blocks)
  have c: "length c = bp_block_len bp" "c \<noteq> []" using Cons.prems assms(1) by auto
  have "[0..<length (c # blocks)] = 0 # map Suc [0..<length blocks]"
    by (simp add: map_Suc_upt upt_conv_Cons del: upt_Suc)
  then show ?case using Cons.IH [of "d + block_size bp c"] Cons.prems c
    by (simp add: Let_def block_header_def block_offset_def block_size_def block_bits_def hd_map add.assoc comp_def del: upt_Suc)
qed

lemma chunks_of_append:
  "0 < n \<Longrightarrow> \<exists>blocks rest. chunks_of n xs = blocks @ rest \<and> (\<forall>c\<in>set blocks. length c = n) \<and>
     (\<forall>c\<in>set rest. length c < n) \<and> length rest \<le> 1 \<and> concat (blocks @ rest) = xs"
proof (induction n xs rule: chunks_of.induct)
  case (1 n xs)
  show ?case
  proof (cases "length xs < n")
    case True
    then have "chunks_of n xs = [] @ (if xs = [] then [] else [xs])"
      using "1.prems" by (simp add: chunks_of.simps [of n xs] chunks_of.simps [of n "[]"])
    then show ?thesis using True by (intro exI [of _ "[]"] exI [of _ "if xs = [] then [] else [xs]"]) auto
  next
    case False
    then have ne: "\<not> (xs = [] \<or> n = 0)" using "1.prems" by auto
    from "1.IH" [OF ne "1.prems"] obtain blocks rest where r: "chunks_of n (drop n xs) = blocks @ rest"
      "\<forall>c\<in>set blocks. length c = n" "\<forall>c\<in>set rest. length c < n" "length rest \<le> 1" "concat (blocks @ rest) = drop n xs" by auto
    then have "chunks_of n xs = (take n xs # blocks) @ rest" using ne by (simp add: chunks_of.simps [of n xs])
    then show ?thesis using r False by (intro exI [of _ "take n xs # blocks"] exI [of _ rest]) auto
  qed
qed

lemma block_offset_Suc: "i < length blocks \<Longrightarrow> block_offset bp blocks (Suc i) = block_offset bp blocks i + block_size bp (blocks ! i)"
  by (simp add: block_offset_def take_Suc_conv_app_nth)

lemma block_offset_mono: "block_offset bp blocks i \<le> block_offset bp blocks (length blocks)"
proof -
  have "block_offset bp blocks (length blocks) = sum_list (map (block_size bp) (take i blocks @ drop i blocks))"
    by (simp add: block_offset_def)
  then show ?thesis by (simp only: map_append sum_list_append block_offset_def)
qed

lemma block_offset_bytes:
  assumes "bitpacker_ok bp" "\<forall>c\<in>set blocks. block_ok bp c"
  shows "block_offset bp blocks i = length (concat (map (block_bytes bp) (take i blocks)))"
proof -
  have "map (block_size bp) (take i blocks) = map (length \<circ> block_bytes bp) (take i blocks)"
    using assms(2) block_facts(1) [OF assms(1)] by (auto dest!: in_set_takeD)
  then show ?thesis by (simp only: block_offset_def length_concat map_map)
qed

definition block_headers ::
  "bitpacker \<Rightarrow> ('w, 'p) weight_codec \<Rightarrow> 'p \<Rightarrow> (nat \<times> flt) list list \<Rightarrow> 'w compressed_posting_chunk list" where
  "block_headers bp wc params blocks =
     map (\<lambda>i. block_header bp wc params (blocks ! i) (block_offset bp blocks i)) [0..<length blocks]"

lemma block_headers_at:
  assumes small: "block_offset bp blocks (length blocks) < 2 ^ 32" and i: "i < length blocks"
  shows "ch_offset (block_headers bp wc params blocks ! i) = block_offset bp blocks i"
    "ch_initial (block_headers bp wc params blocks ! i) = fst (hd (blocks ! i))"
    "ch_weights (block_headers bp wc params blocks ! i) = map (\<lambda>e. wc_from_f32 wc params (snd e)) (blocks ! i)"
    "get_chunk_size (block_headers bp wc params blocks) (block_offset bp blocks (length blocks)) i = block_size bp (blocks ! i)"
proof -
  have lt: "block_offset bp blocks j < 2 ^ 32" for j using block_offset_mono [of bp blocks j] small by linarith
  have off: "ch_offset (block_headers bp wc params blocks ! j) = block_offset bp blocks j" if "j < length blocks" for j
    using that lt [of j] by (simp add: block_headers_def block_header_def)
  show "ch_offset (block_headers bp wc params blocks ! i) = block_offset bp blocks i" by (rule off [OF i])
  show "ch_initial (block_headers bp wc params blocks ! i) = fst (hd (blocks ! i))"
    "ch_weights (block_headers bp wc params blocks ! i) = map (\<lambda>e. wc_from_f32 wc params (snd e)) (blocks ! i)"
    using i by (simp_all add: block_headers_def block_header_def)
  have len: "length (block_headers bp wc params blocks) = length blocks" by (simp add: block_headers_def)
  show "get_chunk_size (block_headers bp wc params blocks) (block_offset bp blocks (length blocks)) i = block_size bp (blocks ! i)"
  proof (cases "Suc i < length blocks")
    case True
    then show ?thesis using off [OF i] off [OF True] block_offset_Suc [OF i, of bp] by (simp add: get_chunk_size_def len)
  next
    case False
    then have "Suc i = length blocks" using i by simp
    then show ?thesis using off [OF i] block_offset_Suc [OF i, of bp] by (simp add: get_chunk_size_def len)
  qed
qed

lemma write_chunks_ok:
  assumes bp: "bitpacker_ok bp" and blocks: "\<forall>c\<in>set blocks. block_ok bp c"
    and small: "block_offset bp blocks (length blocks) < 2 ^ 32"
    and "j \<le> length blocks" "length data = block_offset bp blocks (length blocks)"
  shows "write_chunks bp (block_headers bp wc params blocks) j (drop j blocks) data =
    take (block_offset bp blocks j) data @ concat (map (block_bytes bp) (drop j blocks))"
  using assms(4,5)
proof (induction "length blocks - j" arbitrary: j data)
  case 0
  then show ?case by simp
next
  case (Suc n)
  have j: "j < length blocks" using Suc.hyps(2) by simp
  let ?c = "blocks ! j" and ?o = "block_offset bp blocks" and ?total = "block_offset bp blocks (length blocks)"
  have c: "block_ok bp ?c" using blocks j by simp
  note h = block_headers_at [OF small j, of wc params] and f = block_facts [OF bp c]
  have le: "?o (Suc j) \<le> ?total" by (rule block_offset_mono)
  define data1 where "data1 = write_at (?o j) (block_bytes bp ?c) data"
  have step: "write_chunks bp (block_headers bp wc params blocks) j (drop j blocks) data =
      write_chunks bp (block_headers bp wc params blocks) (Suc j) (drop (Suc j) blocks) data1"
    using Cons_nth_drop_Suc [OF j, symmetric] h f(3) Suc.prems(2)
    by (simp add: Let_def data1_def block_bytes_def)
  have len1: "length data1 = ?total"
    using Suc.prems(2) le block_offset_Suc [OF j, of bp] f(1) by (simp add: data1_def write_at_def)
  have "take (?o (Suc j)) data1 = take (?o j) data @ block_bytes bp ?c"
    using Suc.prems(2) le block_offset_Suc [OF j, of bp] f(1) by (simp add: data1_def write_at_def)
  moreover have "write_chunks bp (block_headers bp wc params blocks) (Suc j) (drop (Suc j) blocks) data1 =
      take (?o (Suc j)) data1 @ concat (map (block_bytes bp) (drop (Suc j) blocks))"
    using Suc.hyps(2) j len1 by (intro Suc.hyps(1)) auto
  ultimately show ?case using step Cons_nth_drop_Suc [OF j, symmetric] by simp
qed

lemma concat_slice:
  assumes "i < length xs"
  shows "take (length (f (xs ! i))) (drop (length (concat (map f (take i xs)))) (concat (map f xs))) = f (xs ! i)"
proof -
  have "xs = take i xs @ xs ! i # drop (Suc i) xs" using assms by (simp add: id_take_nth_drop)
  then have "concat (map f xs) = concat (map f (take i xs)) @ f (xs ! i) @ concat (map f (drop (Suc i) xs))"
    by (metis concat.simps(2) concat_append list.simps(9) map_append)
  then show ?thesis by simp
qed

text \<open>A list of blocks and a remainder, laid out as the builder does, holds its records.\<close>

definition decoded :: "('w, 'p) weight_codec \<Rightarrow> 'p \<Rightarrow> nat \<times> flt \<Rightarrow> nat \<times> flt" where
  "decoded wc params e = (fst e, wc_to_f32 wc params (wc_from_f32 wc params (snd e)))"

lemma layout_ok:
  assumes bp: "bitpacker_ok bp" and blocks: "\<forall>c\<in>set blocks. block_ok bp c"
    and small: "block_offset bp blocks (length blocks) < 2 ^ 32"
    and cl: "cl_chunks cl = block_headers bp wc params blocks" "cl_id_data cl = concat (map (block_bytes bp) blocks)"
      "cl_remainders cl = map (\<lambda>e. (fst e, wc_from_f32 wc params (snd e))) rest" "cl_quantization_params cl = params"
  shows "i < length blocks \<Longrightarrow> decompress_chunk bp cl i = map fst (blocks ! i)"
    "list_entries bp wc cl = map (decoded wc params) (concat blocks @ rest)"
proof -
  have total_size: "length (cl_id_data cl) = block_offset bp blocks (length blocks)"
    using block_offset_bytes [OF bp blocks, of "length blocks"] cl(2) by simp
  show d: "decompress_chunk bp cl i = map fst (blocks ! i)" if i: "i < length blocks" for i
  proof -
    have c: "block_ok bp (blocks ! i)" using blocks i by simp
    note h = block_headers_at [OF small i, of wc params] and f = block_facts [OF bp c]
    have "take (block_size bp (blocks ! i)) (drop (block_offset bp blocks i) (cl_id_data cl)) = block_bytes bp (blocks ! i)"
      using concat_slice [OF i, of "block_bytes bp"] f(1) block_offset_bytes [OF bp blocks, of i] cl(2) by simp
    then show ?thesis using h f(2,3) total_size cl(1) by (simp add: decompress_chunk_def Let_def)
  qed
  have "chunk_entries bp wc cl i = map (decoded wc params) (blocks ! i)" if i: "i < length blocks" for i
    using d [OF i] block_headers_at(3) [OF small i, of wc params] cl(1,4)
    by (simp add: chunk_entries_def chunk_weights_def decoded_def [abs_def] comp_def zip_map_map zip_same_conv_map)
  then have "map (chunk_entries bp wc cl) [0..<length blocks] = map (map (decoded wc params)) blocks"
    by (intro nth_equalityI) simp_all
  moreover have "length (cl_chunks cl) = length blocks" using cl(1) by (simp add: block_headers_def)
  moreover have "remainder_entries wc cl = map (decoded wc params) rest"
    using cl(3,4) by (simp add: remainder_entries_def decoded_def [abs_def] comp_def)
  ultimately show "list_entries bp wc cl = map (decoded wc params) (concat blocks @ rest)"
    by (simp add: list_entries_def map_concat)
qed

lemma sum_list_le_length: "(\<And>x. x \<in> set xs \<Longrightarrow> f x \<le> (c::nat)) \<Longrightarrow> sum_list (map f xs) \<le> c * length xs"
  by (induction xs) (auto intro: add_mono)

lemma length_concat_blocks: "\<forall>c\<in>set blocks. length c = k \<Longrightarrow> length (concat blocks) = k * length blocks"
  by (induction blocks) auto

lemma sorted_blocks:
  "sorted_wrt (<) (map fst (concat blocks)) \<Longrightarrow> c \<in> set blocks \<Longrightarrow> sorted_wrt (<) (map fst c)"
  by (induction blocks) (auto simp: sorted_wrt_append)

lemma compressed_build_ok:
  assumes bp: "bitpacker_ok bp" and distinct: "distinct (map fst records)" and u32: "\<forall>e\<in>set records. fst e < 2 ^ 32"
    and small: "4 * length records < 2 ^ 32"
    and es: "es = sort_key fst records" "params = wc_quantization_params_for wc (map snd es)"
    and fin: "\<forall>e\<in>set records. is_finite (wc_to_f32 wc params (wc_from_f32 wc params (snd e)))"
  shows "list_entries bp wc (compressed_build bp wc records) = map (decoded wc params) es"
    "list_ok bp wc (compressed_build bp wc records)"
proof -
  let ?k = "bp_block_len bp" and ?cl = "compressed_build bp wc records"
  have k: "0 < ?k" using bp by (simp add: bitpacker_ok_def)
  obtain blocks rest where ch: "chunks_of ?k es = blocks @ rest" "\<forall>c\<in>set blocks. length c = ?k" "\<forall>c\<in>set rest. length c < ?k"
    "concat (blocks @ rest) = es" using chunks_of_append [OF k, of es] by auto
  have srt: "sorted_wrt (<) (map fst es)"
    using distinct es(1) by (simp add: strict_sorted_iff distinct_map)
  have blocks: "\<forall>c\<in>set blocks. block_ok bp c"
  proof
    fix c assume c: "c \<in> set blocks"
    have "sorted_wrt (<) (map fst c)" 
      using c srt unfolding ch(4) [symmetric] by (intro sorted_blocks [of "blocks @ rest" c]) simp_all
    moreover have "set c \<subseteq> set es" using c unfolding ch(4) [symmetric] by auto
    then have "set c \<subseteq> set records" using es(1) by simp
    ultimately show "block_ok bp c" using ch(2) c u32 by (auto simp: block_ok_def)
  qed
  have "length (concat blocks) \<le> length records" using ch(4) es(1) by (metis concat_append length_append le_add1 length_sort)
  moreover have "block_offset bp blocks (length blocks) \<le> 4 * ?k * length blocks"
    unfolding block_offset_def using sum_list_le_length [of blocks "block_size bp"] block_facts(4) [OF bp] blocks by simp
  ultimately have off: "block_offset bp blocks (length blocks) < 2 ^ 32" using small length_concat_blocks [OF ch(2)] by simp
  have rest: "\<forall>c\<in>set rest. length c \<noteq> ?k" using ch(3) by auto
  note hdrs = build_headers_blocks [OF k ch(2) rest, of wc params 0, folded block_headers_def]
  have "filter (\<lambda>c. length c = ?k) (blocks @ rest) = blocks" using ch(2) rest by (simp add: filter_empty_conv)
  then have cl: "?cl = \<lparr>cl_id_data = write_chunks bp (block_headers bp wc params blocks) 0 blocks (replicate (block_offset bp blocks (length blocks)) 0),
      cl_chunks = block_headers bp wc params blocks, cl_remainders = map (\<lambda>e. (fst e, wc_from_f32 wc params (snd e))) (concat rest),
      cl_last_id = (if es = [] then None else Some (fst (last es))), cl_quantization_params = params\<rparr>"
    using hdrs ch(1) by (simp add: compressed_build_def Let_def es(1) [symmetric] es(2) [symmetric] block_headers_def)
  have data: "cl_id_data ?cl = concat (map (block_bytes bp) blocks)"
    using write_chunks_ok [OF bp blocks off, of 0 "replicate (block_offset bp blocks (length blocks)) 0" wc params] cl by (simp add: block_offset_def)
  note lay = layout_ok [OF bp blocks off, of ?cl wc params "concat rest"]
  show entries: "list_entries bp wc ?cl = map (decoded wc params) es" 
    unfolding ch(4) [symmetric] using lay(2) data cl by simp
  have "\<forall>i<length (cl_chunks ?cl). length (decompress_chunk bp ?cl i) = ?k \<and> length (ch_weights (cl_chunks ?cl ! i)) = ?k \<and>
      ch_initial (cl_chunks ?cl ! i) = hd (decompress_chunk bp ?cl i)"
  proof (intro allI impI)
    fix i assume "i < length (cl_chunks ?cl)"
    then have i: "i < length blocks" using cl by (simp add: block_headers_def)
    then have len: "length (blocks ! i) = ?k" using ch(2) by simp
    then have "blocks ! i \<noteq> []" using k by auto
    with len show "length (decompress_chunk bp ?cl i) = ?k \<and> length (ch_weights (cl_chunks ?cl ! i)) = ?k \<and>
        ch_initial (cl_chunks ?cl ! i) = hd (decompress_chunk bp ?cl i)"
      using lay(1) [OF _ _ _ _ i] data cl block_headers_at [OF off i, of wc params] by (simp add: hd_map)
  qed
  moreover have "\<forall>e\<in>set (map (decoded wc params) es). is_finite (snd e)" using fin es(1) by (auto simp: decoded_def)
  moreover have "map fst (map (decoded wc params) es) = map fst es" by (simp add: decoded_def comp_def)
  then have "sorted_wrt (<) (map fst (map (decoded wc params) es))" using srt by (simp only:)
  moreover have "cl_last_id ?cl = (if map (decoded wc params) es = [] then None else Some (fst (last (map (decoded wc params) es))))"
    using cl by (simp add: decoded_def last_map)
  ultimately show "list_ok bp wc ?cl" unfolding list_ok_def entries using k by blast
qed

section \<open>Ranges of ids\<close>

lemma range_slice:
  assumes "sorted_wrt (<) ids" "length ws = length ids" "start \<le> stop"
    and ls: "ls = length (takeWhile (\<lambda>i. i < (start::nat)) ids)" and le: "le = length (takeWhile (\<lambda>i. i \<le> stop) ids)"
  shows "zip (take (le - ls) (drop ls ids)) (take (le - ls) (drop ls ws)) =
    filter (\<lambda>e. start \<le> fst e \<and> fst e \<le> stop) (zip ids ws)"
proof -
  let ?zs = "zip ids ws"
  have "takeWhile (\<lambda>e. fst e \<le> stop) (dropWhile (\<lambda>e. fst e < start) ?zs) = take (le - ls) (drop ls ?zs)"
    using assms(1,2)
    unfolding ls le
  proof (induction ids ws rule: list_induct2')
    case (4 x xs w ws)
    have "takeWhile (\<lambda>i. i \<le> stop) xs = []" if "\<not> x \<le> stop" using "4.prems"(1) that by (cases xs) auto
    moreover have "takeWhile (\<lambda>e. fst e \<le> stop) (zip xs ws) = take (length (takeWhile (\<lambda>i. i \<le> stop) xs)) (zip xs ws)"
      using "4.prems"(2) by (induction xs ws rule: list_induct2') auto
    ultimately show ?case using 4 assms(3) by auto
  qed auto
  moreover have "sorted_wrt (<) (map fst ?zs)" using assms(1,2) by simp
  ultimately show ?thesis using takeWhile_dropWhile_range [of ?zs stop start] by (simp add: take_zip drop_zip)
qed

lemma blocks_sorted:
  assumes l: "list_ok bp wc cl"
  shows "sorted_wrt (<) (map fst (concat (map (chunk_entries bp wc cl) [i..<length (cl_chunks cl)])))"
proof (cases "i \<le> length (cl_chunks cl)")
  case True
  then have upt: "[0..<length (cl_chunks cl)] = [0..<i] @ [i..<length (cl_chunks cl)]" by (metis le_add_diff_inverse upt_add_eq_append le0)
  have "sorted_wrt (<) (map fst (concat (map (chunk_entries bp wc cl) [0..<length (cl_chunks cl)])))"
    using list_sorted [OF l] by (simp add: list_entries_def sorted_wrt_append)
  then have "sorted_wrt (<) (map fst (concat (map (chunk_entries bp wc cl) ([0..<i] @ [i..<length (cl_chunks cl)]))))"
    by (simp only: upt)
  then show ?thesis by (simp add: sorted_wrt_append)
qed simp

lemma chunk_first:
  assumes l: "list_ok bp wc cl" and i: "i < length (cl_chunks cl)"
  shows "\<exists>es. chunk_entries bp wc cl i = (ch_initial (cl_chunks cl ! i), hd (chunk_weights wc cl i)) # es"
  using initial_hd [OF l i] length_decompress [OF l i] length_weights [OF l i] block_pos [OF l] length_chunk_weights [of wc cl i]
  by (cases "decompress_chunk bp cl i"; cases "chunk_weights wc cl i") (auto simp: chunk_entries_def)

lemma range_chunks_ok:
  assumes l: "list_ok bp wc cl" and le: "start \<le> stop"
  shows "range_chunks bp wc start stop [i..<length (cl_chunks cl)] cl =
    filter (\<lambda>e. start \<le> fst e \<and> fst e \<le> stop) (concat (map (chunk_entries bp wc cl) [i..<length (cl_chunks cl)]))"
proof (induction "length (cl_chunks cl) - i" arbitrary: i)
  case (Suc d)
  let ?m = "length (cl_chunks cl)" and ?P = "\<lambda>e::nat \<times> flt. start \<le> fst e \<and> fst e \<le> stop"
  let ?ce = "chunk_entries bp wc cl" and ?ids = "decompress_chunk bp cl i"
  define later where "later = concat (map ?ce [Suc i..<?m])"
  have i: "i < ?m" using Suc.hyps(2) by simp
  then have upt: "[i..<?m] = i # [Suc i..<?m]" by (rule upt_conv_Cons)
  have srt: "sorted_wrt (<) (map fst (?ce i @ later))" using blocks_sorted [OF l, of i] upt by (simp add: later_def)
  define ls le' where "ls = length (takeWhile (\<lambda>j. j < start) ?ids)" and "le' = length (takeWhile (\<lambda>j. j \<le> stop) ?ids)"
  have v: "zip (take (le' - ls) (drop ls ?ids)) (take (le' - ls) (drop ls (chunk_weights wc cl i))) = filter ?P (?ce i)"
    unfolding chunk_entries_def using length_decompress [OF l i] length_weights [OF l i]
    by (intro range_slice [OF chunk_ids_sorted [OF l i] _ le ls_def le'_def]) simp
  have IH: "range_chunks bp wc start stop [Suc i..<?m] cl = filter ?P later" 
    unfolding later_def using Suc.hyps by (intro Suc.hyps(1)) simp
  obtain rest where first: "?ce i = (ch_initial (cl_chunks cl ! i), hd (chunk_weights wc cl i)) # rest" using chunk_first [OF l i] by auto
  have beyond: "filter ?P (?ce i @ later) = []" if "stop < ch_initial (cl_chunks cl ! i)"

  proof -
    have "\<forall>e\<in>set (?ce i @ later). ch_initial (cl_chunks cl ! i) \<le> fst e" using srt unfolding first
      by (auto simp: ball_Un intro!: less_imp_le)
    with that show ?thesis by (metis (no_types, lifting) filter_False leD le_trans)
  qed
  have broken: "filter ?P later = []" if "le' \<noteq> bp_block_len bp"
  proof -
    have "\<exists>j\<in>set ?ids. stop < j" using that length_decompress [OF l i] unfolding le'_def by (metis not_le takeWhile_eq_all_conv)
    then obtain j where j: "j \<in> set ?ids" "stop < j" by blast
    have "j \<in> set (map fst (?ce i))" using j(1) length_decompress [OF l i] length_weights [OF l i] by (simp add: chunk_entries_def)
    then obtain e where e: "e \<in> set (?ce i)" "fst e = j" by auto
    have "\<forall>e'\<in>set later. j < fst e'" using srt e by (auto simp: sorted_wrt_append)
    with j(2) show ?thesis by (auto simp: filter_empty_conv)
  qed
  have none: "filter ?P (?ce i) = []" if "le' - ls = 0" using v that by simp
  have run: "range_chunks bp wc start stop (i # [Suc i..<?m]) cl =
      (if stop < ch_initial (cl_chunks cl ! i) then []
       else if le' - ls = 0 then filter ?P later
       else if le' \<noteq> bp_block_len bp then filter ?P (?ce i) else filter ?P (?ce i) @ filter ?P later)"
    unfolding range_chunks.simps Let_def ls_def [symmetric] le'_def [symmetric] v IH ..
  show ?case unfolding upt run using beyond broken none by (simp add: later_def [symmetric])
qed simp

lemma early_chunks_below:
  assumes l: "list_ok bp wc cl" and f: "f = length (takeWhile (\<lambda>c. ch_initial c \<le> start) (cl_chunks cl)) - 1"
    and e: "e \<in> set (concat (map (chunk_entries bp wc cl) [0..<f]))"
  shows "fst e < start"
proof -
  have "f < length (takeWhile (\<lambda>c. ch_initial c \<le> start) (cl_chunks cl))"
    using e f by (cases "f = 0") auto
  then have fm: "f < length (cl_chunks cl)" "ch_initial (cl_chunks cl ! f) \<le> start"
    using length_takeWhile_le [of "\<lambda>c. ch_initial c \<le> start" "cl_chunks cl"] nth_length_takeWhile takeWhile_nth set_takeWhileD nth_mem
    by (fastforce, metis)
  have "sorted_wrt (<) (map fst (concat (map (chunk_entries bp wc cl) [0..<f]) @ chunk_entries bp wc cl f))"
    using blocks_sorted [OF l, of 0] unfolding concat_blocks_split [OF fm(1)] by (simp add: sorted_wrt_append)
  with e fm(2) chunk_first [OF l fm(1)] show ?thesis by (force simp: sorted_wrt_append)
qed

lemma compressed_range_ok:
  assumes l: "list_ok bp wc (ci_list it)"
  shows "compressed_for_each_in_id_range bp wc start stop it =
    filter (\<lambda>e. start \<le> fst e \<and> fst e \<le> stop) (list_entries bp wc (ci_list it))"
proof (cases "stop < start")
  case True
  then show ?thesis by (auto simp: compressed_for_each_in_id_range_def filter_empty_conv)
next
  case False
  let ?cl = "ci_list it" and ?P = "\<lambda>e::nat \<times> flt. start \<le> fst e \<and> fst e \<le> stop"
  let ?ce = "chunk_entries bp wc ?cl" and ?m = "length (cl_chunks ?cl)"
  define f where "f = length (takeWhile (\<lambda>c. ch_initial c \<le> start) (cl_chunks ?cl)) - 1"
  have "f \<le> ?m" unfolding f_def by (meson diff_le_self le_trans length_takeWhile_le)
  then have "[0..<?m] = [0..<f] @ [f..<?m]" by (metis le_add_diff_inverse upt_add_eq_append le0)
  moreover have "filter ?P (concat (map ?ce [0..<f])) = []"
    using early_chunks_below [OF l f_def] by (fastforce simp: filter_empty_conv)
  ultimately have "filter ?P (concat (map ?ce [f..<?m])) = filter ?P (concat (map ?ce [0..<?m]))" by simp
  moreover have "sorted_wrt (<) (map fst (remainder_entries wc ?cl))"
    using list_sorted [OF l] by (simp add: list_entries_def sorted_wrt_append)
  ultimately show ?thesis using False range_chunks_ok [OF l, of start stop f] takeWhile_dropWhile_range [of "remainder_entries wc ?cl" stop start]
    unfolding compressed_for_each_in_id_range_def Let_def f_def [symmetric] if_not_P [OF False] by (simp add: list_entries_def)
qed

section \<open>Reading a list to its end\<close>

text \<open>\<open>into_std_iter\<close> followed by \<open>take\<close>: the elements of the first \<open>n\<close> calls of \<open>next\<close>.\<close>

fun compressed_collect ::
  "bitpacker \<Rightarrow> ('w, 'p) weight_codec \<Rightarrow> nat \<Rightarrow> ('w, 'p) compressed_iterator \<Rightarrow> (nat \<times> flt) list \<times> ('w, 'p) compressed_iterator" where
  "compressed_collect bp wc 0 it = ([], it)"
| "compressed_collect bp wc (Suc n) it =
     (case compressed_next bp wc it of
        (None, it') \<Rightarrow> ([], it')
      | (Some e, it') \<Rightarrow> (case compressed_collect bp wc n it' of (es, it'') \<Rightarrow> (e # es, it'')))"

lemma compressed_next_ok:
  assumes ok: "comp_ok bp wc it" and run: "compressed_next bp wc it = (r, it')"
  shows "comp_ok bp wc it'" "r = (case comp_todo bp wc it of [] \<Rightarrow> None | e # _ \<Rightarrow> Some e)"
    "comp_todo bp wc it' = tl (comp_todo bp wc it)"
proof -
  obtain q it1 where peek: "compressed_peek bp wc it = (q, it1)" by fastforce
  note p = compressed_peek_ok [OF ok peek]
  have "comp_ok bp wc it' \<and> r = (case comp_todo bp wc it of [] \<Rightarrow> None | e # _ \<Rightarrow> Some e) \<and> comp_todo bp wc it' = tl (comp_todo bp wc it)"
  proof (cases "ci_pos it < list_len bp (ci_list it)")
    case True
    then have "ci_pos it1 < list_len bp (ci_list it1)" using p by simp
    note n = next_from_ok [OF p(2) this]
    show ?thesis using run peek p n True comp_todo_cons [OF ok True]
      by (auto simp: compressed_next_def comp_todo_def)
  next
    case False
    with run peek p comp_todo_nil [OF ok False] show ?thesis by (auto simp: compressed_next_def comp_todo_def)
  qed
  then show "comp_ok bp wc it'" "r = (case comp_todo bp wc it of [] \<Rightarrow> None | e # _ \<Rightarrow> Some e)"
    "comp_todo bp wc it' = tl (comp_todo bp wc it)" by blast+
qed

lemma compressed_collect_ok:
  "comp_ok bp wc it \<Longrightarrow> fst (compressed_collect bp wc n it) = take n (comp_todo bp wc it)"
proof (induction n arbitrary: it)
  case (Suc n)
  obtain r it' where r: "compressed_next bp wc it = (r, it')" by fastforce
  note s = compressed_next_ok [OF Suc.prems r]
  show ?case using r s Suc.IH [OF s(1)] by (cases "comp_todo bp wc it") (auto split: prod.splits)
qed simp

lemma compressed_new_ok:
  assumes "list_ok bp wc cl"
  shows "comp_ok bp wc (compressed_iterator_new bp cl)" "comp_todo bp wc (compressed_iterator_new bp cl) = list_entries bp wc cl"
    "comp_all bp wc (compressed_iterator_new bp cl) = list_entries bp wc cl"
  using assms by (simp_all add: compressed_iterator_new_def comp_ok_def comp_todo_def comp_all_def)

context posting_iter
begin

lemma pbm_new_succeeds:
  assumes "serves index (zip (rsv_indices query) (rsv_values query))" "0 < batch_size" "fits_u32 batch_size"
    "length (rsv_indices query) = length (rsv_values query)" "sorted_wrt (<) (rsv_indices query)"
  obtains st where "pbm_new ops index query batch_size = Inr st"
proof -
  have "\<forall>w\<in>set (rsv_values query). weight_ok w"
    using assms(1,4) by (fastforce simp: serves_def in_set_conv_nth)
  moreover have "is_finite w \<and> f_le (Fin 0) w" if "weight_ok w" for w
    using that by (auto simp: weight_ok_def f_le_def f_nonneg_def)
  ultimately have w: "list_all (\<lambda>w. is_finite w \<and> f_le (Fin 0) w) (rsv_values query)" by (simp add: list_all_iff)
  obtain bs tel' where "kernel_new ops index query batch_size (default_bm_telemetry\<lparr>cursor_started := True, query_terms := length (rsv_indices query)\<rparr>) =
      Inr (\<lparr>kn_query = query, kn_active_batches = [], kn_scores = []\<rparr>, bs, tel')"
    using kernel_new_ok [OF assms(1-3)] by blast
  with w assms(2,4,5) have "\<exists>st. pbm_new ops index query batch_size = Inr st" by (simp add: pbm_new_def is_sorted_def)
  with that show ?thesis by blast
qed

end

lemma weight_f32_identity: "wc_to_f32 weight_f32 p (wc_from_f32 weight_f32 p w) = w" "decoded weight_f32 p = (\<lambda>e. e)"
  by (simp_all add: weight_f32_def decoded_def fun_eq_iff)

text \<open>A bit packer for the examples: blocks of eight values, four bytes each.\<close>

fun le_bytes :: "nat \<Rightarrow> nat \<Rightarrow> 8 word list" where
  "le_bytes 0 v = []"
| "le_bytes (Suc n) v = of_nat (v mod 256) # le_bytes n (v div 256)"

fun le_value :: "8 word list \<Rightarrow> nat" where
  "le_value [] = 0"
| "le_value (b # bs) = unat b + 256 * le_value bs"

definition flat_packer :: bitpacker where
  "flat_packer = \<lparr>bp_block_len = 8, bp_num_bits_strictly_sorted = (\<lambda>_ _. 32), bp_compressed_block_size = (\<lambda>bits. bits),
     bp_compress_strictly_sorted = (\<lambda>_ ids _. concat (map (le_bytes 4) ids)),
     bp_decompress_strictly_sorted = (\<lambda>_ bytes _. map le_value (chunks_of 4 bytes))\<rparr>"

lemma length_le_bytes [simp]: "length (le_bytes n v) = n"
  by (induction n arbitrary: v) simp_all

lemma le_value_bytes: "le_value (le_bytes n v) = v mod 256 ^ n"
proof (induction n arbitrary: v)
  case (Suc n)
  have "v mod (256 * 256 ^ n) = 256 * (v div 256 mod 256 ^ n) + v mod 256" by (rule mod_mult2_eq)
  moreover have "unat (of_nat (v mod 256) :: 8 word) = v mod 256" by (simp add: unat_of_nat)
  ultimately show ?case using Suc by simp
qed simp

lemma chunks_of_concat:
  "0 < n \<Longrightarrow> \<forall>c\<in>set cs. length c = n \<Longrightarrow> chunks_of n (concat cs) = cs"
proof (induction cs)
  case (Cons c cs)
  then have "c \<noteq> []" by auto
  with Cons show ?case by (simp add: chunks_of.simps [of n "c @ concat cs"])
qed (simp add: chunks_of.simps)

lemma length_concat_map: "(\<And>x. x \<in> set xs \<Longrightarrow> length (f x) = n) \<Longrightarrow> length (concat (map f xs)) = n * length xs"
  by (induction xs) auto

lemma flat_packer_ok: "bitpacker_ok flat_packer"
proof -
  have restored: "map le_value (chunks_of 4 (concat (map (le_bytes 4) ids))) = ids" if "\<forall>i\<in>set ids. i < 2 ^ 32" for ids
  proof -
    have "chunks_of 4 (concat (map (le_bytes 4) ids)) = map (le_bytes 4) ids" by (rule chunks_of_concat) auto
    then show ?thesis using that by (simp add: comp_def le_value_bytes map_idI)
  qed
  then show ?thesis by (simp add: bitpacker_ok_def flat_packer_def Let_def length_concat_map)
qed

section \<open>Properties\<close>

text \<open>C30. A compressed posting list keeps its records: with a bit packer that restores its blocks, reading the built list
  to its end gives the records in ascending id order, every weight as its conversion stores it.\<close>

theorem compressed_round_trip:
  assumes "bitpacker_ok bp" and "distinct (map fst records)" and "\<forall>e\<in>set records. fst e < 2 ^ 32" and "4 * length records < 2 ^ 32"
    and "params = wc_quantization_params_for wc (map snd (sort_key fst records))"
    and "\<forall>e\<in>set records. is_finite (wc_to_f32 wc params (wc_from_f32 wc params (snd e)))" and "length records \<le> n"
  shows "fst (compressed_collect bp wc n (compressed_iterator_new bp (compressed_build bp wc records))) =
    map (\<lambda>e. (fst e, wc_to_f32 wc params (wc_from_f32 wc params (snd e)))) (sort_key fst records)"
  using compressed_build_ok [OF assms(1-4) refl assms(5,6)] assms(7)
  by (simp add: compressed_collect_ok compressed_new_ok decoded_def [abs_def])

definition nine_records :: "(nat \<times> flt) list" where
  "nine_records = map (\<lambda>i. (10 - i, Fin (of_nat i))) [0..<9]"

lemma nine_records_facts:
  "distinct (map fst nine_records)" "\<forall>e\<in>set nine_records. fst e < 2 ^ 32" "4 * length nine_records < 2 ^ 32"
  "() = wc_quantization_params_for weight_f32 (map snd (sort_key fst nine_records))"
  "\<forall>e\<in>set nine_records. is_finite (wc_to_f32 weight_f32 () (wc_from_f32 weight_f32 () (snd e)))" "length nine_records \<le> 12"
  by (auto simp: nine_records_def weight_f32_def upt_rec)

theorem compressed_round_trip_witness:
  "fst (compressed_collect flat_packer weight_f32 12 (compressed_iterator_new flat_packer (compressed_build flat_packer weight_f32 nine_records))) =
    map (\<lambda>i. (i, Fin (of_nat (10 - i)))) [2..<11]"
proof -
  have "map (\<lambda>e. (fst e, wc_to_f32 weight_f32 () (wc_from_f32 weight_f32 () (snd e)))) (sort_key fst nine_records) =
      map (\<lambda>i. (i, Fin (of_nat (10 - i)))) [2..<11]" by code_simp
  with compressed_round_trip [OF flat_packer_ok nine_records_facts] show ?thesis by (simp only:)
qed

text \<open>C31. Iterating over a range of ids of a well-formed compressed list visits exactly its elements in the range, in order,
  whatever the position of the iterator.\<close>

theorem compressed_range_exact:
  assumes "list_ok bp wc (ci_list it)"
  shows "compressed_for_each_in_id_range bp wc start stop it =
    filter (\<lambda>e. start \<le> fst e \<and> fst e \<le> stop) (list_entries bp wc (ci_list it))"
  using compressed_range_ok [OF assms] .

lemma nine_records_built:
  "list_ok flat_packer weight_f32 (compressed_build flat_packer weight_f32 nine_records)"
  "list_entries flat_packer weight_f32 (compressed_build flat_packer weight_f32 nine_records) = map (\<lambda>i. (i, Fin (of_nat (10 - i)))) [2..<11]"
proof -
  note b = compressed_build_ok [OF flat_packer_ok nine_records_facts(1-3) refl nine_records_facts(4,5)]
  show "list_ok flat_packer weight_f32 (compressed_build flat_packer weight_f32 nine_records)" by (rule b(2))
  have "map (decoded weight_f32 ()) (sort_key fst nine_records) = map (\<lambda>i. (i, Fin (of_nat (10 - i)))) [2..<11]" by code_simp
  with b(1) show "list_entries flat_packer weight_f32 (compressed_build flat_packer weight_f32 nine_records) =
    map (\<lambda>i. (i, Fin (of_nat (10 - i)))) [2..<11]" by simp
qed

theorem compressed_range_exact_witness:
  "compressed_for_each_in_id_range flat_packer weight_f32 4 6
     (compressed_iterator_new flat_packer (compressed_build flat_packer weight_f32 nine_records)) = [(4, Fin 6), (5, Fin 5), (6, Fin 4)]"
  using compressed_range_exact [of flat_packer weight_f32 "compressed_iterator_new flat_packer (compressed_build flat_packer weight_f32 nine_records)" 4 6]
    nine_records_built by (simp add: compressed_iterator_new_def upt_rec)



end
