(* ===== verification/Spec2Isabelle.thy ===== *)
theory Spec2Isabelle
  imports Rank_Stream Shard_Stream Compressed_Posting
begin

text \<open>
  This development verifies the exact hybrid retrieval chain of Stratumind, a fork of the
  Qdrant vector database. A hybrid query asks a dense and a sparse channel for their exact
  rankings and fuses them by weighted reciprocal rank fusion (RRF), stopping as soon as the
  requested prefix of the fused order is fixed.

  \<^bold>\<open>The chain and its theories\<close>, from the fusion down to the posting lists:

  \<^item> \<open>Prelude\<close>: fallible results, saturating \<open>usize\<close> arithmetic, sorting and heaps by an
    explicit comparison (locales \<open>total_rank\<close> and \<open>linear_rank\<close>).
  \<^item> \<open>Float_Model\<close> and \<open>Float_Step\<close>: IEEE values as exact rationals with infinities and NaN,
    correctly rounded to nearest even in \<open>f32\<close> or \<open>f64\<close>; directed neighbours. Signed zero is
    one value. \<open>OrderedFloat\<close> is the linear order with NaN on top.
  \<^item> \<open>Types\<close>: point identifiers, scored points, and the errors; an error message is a
    constructor of \<open>message\<close> with the values it interpolates, and \<open>Panicked\<close> marks a panic.
  \<^item> \<open>Rrf_Scoring\<close>, \<open>Rrf_State\<close>, \<open>Rrf_Session\<close>: \<open>src/lib/segment/src/common/reciprocal_rank_fusion/\<close>
    (\<open>scoring.rs\<close>, \<open>state.rs\<close>, \<open>session.rs\<close>, \<open>executor.rs\<close>, \<open>types.rs\<close>).
  \<^item> \<open>Rank_Stream\<close>: the k-way merge of score streams, \<open>src/lib/segment/src/index/exact_rank_stream.rs\<close>.
  \<^item> \<open>Shard_Stream\<close>: the merge over the segments of a shard, \<open>src/lib/shard/src/exact_shard_stream.rs\<close>
    with \<open>exact_rank_fallback.rs\<close> and the segment closures.
  \<^item> \<open>Dense_Rank\<close>: the dense rank state of a segment, \<open>src/lib/segment/src/index/dense_rank_state/\<close>.
  \<^item> \<open>Sparse_Posting\<close>: the mutable posting list and the iterator contract,
    \<open>src/lib/sparse/src/index/posting_list.rs\<close> and \<open>posting_list_common.rs\<close>.
  \<^item> \<open>Posting_Block_Max\<close>: the block-max sparse ranking, \<open>src/lib/sparse/src/index/posting_block_max/\<close>
    and \<open>posting_batch.rs\<close>.
\<close>

end
